theory Spec2Isabelle
  imports Main "HOL-Library.Multiset" "HOL-Library.List_Lexorder"
    "HOL-Library.Product_Lexorder" "HOL-Library.Char_ord"
begin

section \<open>Values shared by the search module and the puzzle module\<close>

text \<open>
  The searches return a triple (path, cost, numExpanded). The cost is either the
  accumulated step cost of a node (step costs are taken to be Python integers, as
  \<^verbatim>\<open>SlidingPuzzle.move\<close> returns 1) or \<^verbatim>\<open>float("inf")\<close>.
\<close>

datatype cost = Finite int | Infinity

fun cost_le :: "cost \<Rightarrow> cost \<Rightarrow> bool" where
  "cost_le (Finite a) (Finite b) = (a \<le> b)"
| "cost_le (Finite a) Infinity = True"
| "cost_le Infinity (Finite b) = False"
| "cost_le Infinity Infinity = True"

datatype error = ValueError | TypeError | IndexError | AttributeError

type_synonym ('s, 'a) successor = "'s \<times> 'a \<times> int \<times> bool"
type_synonym ('s, 'a) node = "'s \<times> 'a list \<times> int \<times> bool"
type_synonym ('s, 'a) dnode = "'s \<times> 'a list \<times> int \<times> bool \<times> int"
type_synonym 'a outcome = "'a list \<times> cost \<times> nat"

section \<open>search.py: the priority queue\<close>

text \<open>
  \<^verbatim>\<open>heapq\<close> belongs to Python's standard library, not to this repository; the four
  functions below follow \<^verbatim>\<open>Lib/heapq.py\<close> (\<^verbatim>\<open>heappush\<close>, \<^verbatim>\<open>heappop\<close>, \<^verbatim>\<open>_siftdown\<close>,
  \<^verbatim>\<open>_siftup\<close>) statement by statement. The heap is a list; the only operation on its
  elements is Python's \<^verbatim>\<open><\<close>, which may raise TypeError, so it is a parameter \<open>lt\<close> with
  a result of type \<open>error + bool\<close>, and an error raised by a comparison ends the call.
  What is left in the list after such an error is not modelled.
\<close>

function siftdown_loop ::
  "('x \<Rightarrow> 'x \<Rightarrow> error + bool) \<Rightarrow> 'x list \<Rightarrow> nat \<Rightarrow> nat \<Rightarrow> 'x \<Rightarrow> error + 'x list" where
  "siftdown_loop lt heap startpos pos newitem =
     (if pos > startpos then
        (let parentpos = (pos - 1) div 2;
             parent = heap ! parentpos
         in case lt newitem parent of
              Inl e \<Rightarrow> Inl e
            | Inr b \<Rightarrow>
                if b then siftdown_loop lt (heap[pos := parent]) startpos parentpos newitem
                else Inr (heap[pos := newitem]))
      else Inr (heap[pos := newitem]))"
  by pat_completeness auto
termination
  by (relation "measure (\<lambda>(lt, heap, startpos, pos, newitem). pos)") auto

declare siftdown_loop.simps [simp del]

definition siftdown ::
  "('x \<Rightarrow> 'x \<Rightarrow> error + bool) \<Rightarrow> 'x list \<Rightarrow> nat \<Rightarrow> nat \<Rightarrow> error + 'x list" where
  "siftdown lt heap startpos pos = (let newitem = heap ! pos in siftdown_loop lt heap startpos pos newitem)"

definition smaller_child ::
  "('x \<Rightarrow> 'x \<Rightarrow> error + bool) \<Rightarrow> 'x list \<Rightarrow> nat \<Rightarrow> nat \<Rightarrow> error + nat" where
  "smaller_child lt heap endpos childpos =
     (let rightpos = childpos + 1
      in if rightpos < endpos then
           (case lt (heap ! childpos) (heap ! rightpos) of
              Inl e \<Rightarrow> Inl e
            | Inr b \<Rightarrow> Inr (if \<not> b then rightpos else childpos))
         else Inr childpos)"

function siftup_loop ::
  "('x \<Rightarrow> 'x \<Rightarrow> error + bool) \<Rightarrow> 'x list \<Rightarrow> nat \<Rightarrow> nat \<Rightarrow> error + ('x list \<times> nat)" where
  "siftup_loop lt heap endpos pos =
     (let childpos = 2 * pos + 1
      in if childpos < endpos then
           (case smaller_child lt heap endpos childpos of
              Inl e \<Rightarrow> Inl e
            | Inr childpos \<Rightarrow> siftup_loop lt (heap[pos := heap ! childpos]) endpos childpos)
         else Inr (heap, pos))"
  by pat_completeness auto
termination
  by (relation "measure (\<lambda>(lt, heap, endpos, pos). endpos - pos)")
    (auto simp: smaller_child_def Let_def split: if_splits sum.splits)

declare siftup_loop.simps [simp del]

definition siftup ::
  "('x \<Rightarrow> 'x \<Rightarrow> error + bool) \<Rightarrow> 'x list \<Rightarrow> nat \<Rightarrow> error + 'x list" where
  "siftup lt heap pos =
     (let endpos = length heap;
          startpos = pos;
          newitem = heap ! pos
      in case siftup_loop lt heap endpos pos of
           Inl e \<Rightarrow> Inl e
         | Inr (heap, pos) \<Rightarrow> siftdown lt (heap[pos := newitem]) startpos pos)"

definition heappush ::
  "('x \<Rightarrow> 'x \<Rightarrow> error + bool) \<Rightarrow> 'x list \<Rightarrow> 'x \<Rightarrow> error + 'x list" where
  "heappush lt heap item = (let heap = heap @ [item] in siftdown lt heap 0 (length heap - 1))"

definition heappop ::
  "('x \<Rightarrow> 'x \<Rightarrow> error + bool) \<Rightarrow> 'x list \<Rightarrow> error + ('x \<times> 'x list)" where
  "heappop lt heap =
     (if heap = [] then Inl IndexError
      else
        let lastelt = last heap;
            heap = butlast heap
        in if heap \<noteq> [] then
             (let returnitem = heap ! 0;
                  heap = heap[0 := lastelt]
              in case siftup lt heap 0 of
                   Inl e \<Rightarrow> Inl e
                 | Inr heap \<Rightarrow> Inr (returnitem, heap))
           else Inr (lastelt, heap))"

text \<open>
  Python's \<^verbatim>\<open><\<close> on values that are totally ordered (integers, strings, booleans, and
  tuples and lists of such values, which compare lexicographically as the imported
  library theories order products, lists and characters): it never raises.
\<close>

definition py_lt :: "'x::linorder \<Rightarrow> 'x \<Rightarrow> error + bool" where
  "py_lt a b = Inr (a < b)"

text \<open>
  Python's \<^verbatim>\<open><\<close> on the pairs (priority, item) the queue stores. A tuple comparison
  looks for the first position where the two tuples differ, by \<^verbatim>\<open>==\<close>, and compares
  there: the priorities when they differ, else the items unless they are equal. So
  the items are compared, by their own \<^verbatim>\<open><\<close>, exactly when the priorities tie and the
  items differ. Priorities are numbers with a total order (Python integers; a float
  NaN is outside the model).
\<close>

definition pair_lt ::
  "('v \<Rightarrow> 'v \<Rightarrow> error + bool) \<Rightarrow> ('k::linorder) \<times> 'v \<Rightarrow> 'k \<times> 'v \<Rightarrow> error + bool" where
  "pair_lt lt x y =
     (if fst x \<noteq> fst y then Inr (fst x < fst y)
      else if snd x = snd y then Inr False
      else lt (snd x) (snd y))"

text \<open>
  The class \<^verbatim>\<open>PriorityQueue\<close>. The methods \<^verbatim>\<open>push\<close> and \<^verbatim>\<open>pop\<close> take the \<^verbatim>\<open><\<close> of the
  items as their first argument.
\<close>

record ('k, 'v) PriorityQueue =
  heap :: "('k \<times> 'v) list"

definition PriorityQueue_init :: "('k, 'v) PriorityQueue" where
  "PriorityQueue_init = \<lparr>heap = []\<rparr>"

definition push ::
  "('v \<Rightarrow> 'v \<Rightarrow> error + bool) \<Rightarrow> ('k::linorder, 'v) PriorityQueue \<Rightarrow> 'v \<Rightarrow> 'k
     \<Rightarrow> error + ('k, 'v) PriorityQueue" where
  "push lt q item priority =
     (let pair = (priority, item)
      in case heappush (pair_lt lt) (heap q) pair of
           Inl e \<Rightarrow> Inl e
         | Inr h \<Rightarrow> Inr (q\<lparr>heap := h\<rparr>))"

definition pop ::
  "('v \<Rightarrow> 'v \<Rightarrow> error + bool) \<Rightarrow> ('k::linorder, 'v) PriorityQueue
     \<Rightarrow> error + (('v \<times> 'k) \<times> ('k, 'v) PriorityQueue)" where
  "pop lt q = (case heappop (pair_lt lt) (heap q) of
                 Inl e \<Rightarrow> Inl e
               | Inr ((priority, item), h) \<Rightarrow> Inr ((item, priority), q\<lparr>heap := h\<rparr>))"

definition isEmpty :: "('k, 'v) PriorityQueue \<Rightarrow> bool" where
  "isEmpty q = (length (heap q) = 0)"

definition getSize :: "('k, 'v) PriorityQueue \<Rightarrow> nat" where
  "getSize q = length (heap q)"

section \<open>search.py: the problem interface, the globals and the loop state\<close>

text \<open>
  A problem is an object of type \<open>'p\<close> together with the four methods the searches
  call on it. The methods are total and \<^verbatim>\<open>getSuccessors\<close> leaves the object as it
  found it; for the sliding puzzle both facts are proved further down.
\<close>

record ('p, 's, 'a) Problem =
  getState :: "'p \<Rightarrow> 's"
  setState :: "'p \<Rightarrow> 's \<Rightarrow> 'p"
  isSolved :: "'p \<Rightarrow> bool"
  getSuccessors :: "'p \<Rightarrow> 's \<Rightarrow> ('s, 'a) successor list"

text \<open>The two module globals, and the local variables of a search on top of them.\<close>

record metrics =
  maxMemoryUse :: nat
  totalStates :: nat

record ('f, 's) frame = metrics +
  fringe :: 'f
  visited :: "'s \<rightharpoonup> bool"
  inFringe :: "'s \<rightharpoonup> bool"
  numExpanded :: nat

definition globals :: "('f, 's) frame \<Rightarrow> metrics" where
  "globals st = \<lparr>maxMemoryUse = maxMemoryUse st, totalStates = totalStates st\<rparr>"

definition getMaxMemoryUse :: "metrics \<Rightarrow> nat" where
  "getMaxMemoryUse m = maxMemoryUse m"

definition getTotalStates :: "metrics \<Rightarrow> nat" where
  "getTotalStates m = totalStates m"

text \<open>
  A \<^verbatim>\<open>while\<close> loop whose body may \<^verbatim>\<open>return\<close>: one iteration (the loop test and the
  body) either ends the function with a value (\<open>Inl\<close>) or hands the next loop state
  on (\<open>Inr\<close>). A loop that runs forever has the value \<open>None\<close>.
\<close>

partial_function (option) loop :: "('st \<Rightarrow> 'r + 'st) \<Rightarrow> 'st \<Rightarrow> 'r option" where
  "loop iter st = (case iter st of Inl r \<Rightarrow> Some r | Inr st' \<Rightarrow> loop iter st')"

declare loop.simps [code]

text \<open>The state after \<open>k\<close> iterations, or the value returned within them.\<close>

fun run :: "('st \<Rightarrow> 'r + 'st) \<Rightarrow> nat \<Rightarrow> 'st \<Rightarrow> 'r + 'st" where
  "run iter 0 st = Inr st"
| "run iter (Suc k) st = (case iter st of Inl r \<Rightarrow> Inl r | Inr st' \<Rightarrow> run iter k st')"

section \<open>search.py: breadthSearch\<close>

definition bfs_insert ::
  "('s, 'a) node \<Rightarrow> ('s, 'a) successor \<Rightarrow> (('s, 'a) node list, 's) frame
     \<Rightarrow> (('s, 'a) node list, 's) frame" where
  "bfs_insert s succ st =
     (case (s, succ) of ((s0, s1, s2, s3), (t, a, c, g)) \<Rightarrow>
        if visited st t = None then
          let st = st\<lparr>fringe := fringe st @ [(t, s1 @ [a], s2 + c, g)]\<rparr>;
              st = (if length (fringe st) > maxMemoryUse st
                    then st\<lparr>maxMemoryUse := length (fringe st)\<rparr> else st)
          in st\<lparr>inFringe := (inFringe st)(t \<mapsto> True)\<rparr>
        else st)"

definition bfs_iter ::
  "('p, 's, 'a) Problem \<Rightarrow> 'p \<Rightarrow> (('s, 'a) node list, 's) frame
     \<Rightarrow> ('a outcome \<times> metrics) + (('s, 'a) node list, 's) frame" where
  "bfs_iter P p st =
     (case fringe st of
        [] \<Rightarrow> Inl (([], Infinity, numExpanded st), globals st)
      | s # rest \<Rightarrow>
          (case s of (s0, s1, s2, s3) \<Rightarrow>
             let st = st\<lparr>fringe := rest\<rparr>;
                 st = st\<lparr>inFringe := (inFringe st)(s0 \<mapsto> False)\<rparr>
             in if s3 then Inl ((s1, Finite s2, numExpanded st), globals st)
                else if visited st s0 = None then
                  let st = st\<lparr>numExpanded := numExpanded st + 1\<rparr>;
                      st = st\<lparr>totalStates := numExpanded st\<rparr>;
                      st = st\<lparr>visited := (visited st)(s0 \<mapsto> True)\<rparr>;
                      successors = getSuccessors P p s0
                  in Inr (fold (bfs_insert s) successors st)
                else Inr st))"

definition bfs_init :: "('p, 's, 'a) Problem \<Rightarrow> 'p \<Rightarrow> (('s, 'a) node list, 's) frame" where
  "bfs_init P p =
     (let startState = getState P p
      in \<lparr>maxMemoryUse = 0, totalStates = 0,
          fringe = [(startState, [], 0, isSolved P p)],
          visited = Map.empty, inFringe = [startState \<mapsto> True], numExpanded = 0\<rparr>)"

definition breadthSearch ::
  "('p, 's, 'a) Problem \<Rightarrow> 'p \<Rightarrow> ('a outcome \<times> metrics) option" where
  "breadthSearch P p = loop (bfs_iter P p) (bfs_init P p)"

section \<open>search.py: depthSearch\<close>

definition dfs_insert ::
  "('s, 'a) node \<Rightarrow> ('s, 'a) successor \<Rightarrow> (('s, 'a) node list, 's) frame
     \<Rightarrow> (('s, 'a) node list, 's) frame" where
  "dfs_insert s succ st =
     (case (s, succ) of ((s0, s1, s2, s3), (t, a, c, g)) \<Rightarrow>
        if visited st t = None then
          let st = st\<lparr>fringe := fringe st @ [(t, s1 @ [a], s2 + c, g)]\<rparr>;
              st = st\<lparr>inFringe := (inFringe st)(t \<mapsto> True)\<rparr>
          in if length (fringe st) > maxMemoryUse st
             then st\<lparr>maxMemoryUse := length (fringe st)\<rparr> else st
        else st)"

definition dfs_iter ::
  "('p, 's, 'a) Problem \<Rightarrow> 'p \<Rightarrow> (('s, 'a) node list, 's) frame
     \<Rightarrow> ('a outcome \<times> metrics) + (('s, 'a) node list, 's) frame" where
  "dfs_iter P p st =
     (if fringe st = [] then Inl (([], Infinity, numExpanded st), globals st)
      else
        (case last (fringe st) of (s0, s1, s2, s3) \<Rightarrow>
           let s = last (fringe st);
               st = st\<lparr>fringe := butlast (fringe st)\<rparr>;
               st = st\<lparr>inFringe := (inFringe st)(s0 \<mapsto> False)\<rparr>
           in if s3 then Inl ((s1, Finite s2, numExpanded st), globals st)
              else if visited st s0 = None then
                let st = st\<lparr>numExpanded := numExpanded st + 1\<rparr>;
                    st = st\<lparr>totalStates := numExpanded st\<rparr>;
                    st = st\<lparr>visited := (visited st)(s0 \<mapsto> True)\<rparr>;
                    successors = getSuccessors P p s0
                in Inr (fold (dfs_insert s) successors st)
              else Inr st))"

definition depthSearch ::
  "('p, 's, 'a) Problem \<Rightarrow> 'p \<Rightarrow> ('a outcome \<times> metrics) option" where
  "depthSearch P p = loop (dfs_iter P p) (bfs_init P p)"

section \<open>search.py: depthLimitedSearch and iterativeDeepening\<close>

definition dls_insert ::
  "('s, 'a) dnode \<Rightarrow> ('s, 'a) successor \<Rightarrow> (('s, 'a) dnode list, 's) frame
     \<Rightarrow> (('s, 'a) dnode list, 's) frame" where
  "dls_insert s succ st =
     (case (s, succ) of ((s0, s1, s2, s3, s4), (t, a, c, g)) \<Rightarrow>
        if visited st t = None then
          let st = st\<lparr>fringe := fringe st @ [(t, s1 @ [a], s2 + c, g, s4 + 1)]\<rparr>;
              st = st\<lparr>inFringe := (inFringe st)(t \<mapsto> True)\<rparr>
          in if length (fringe st) > maxMemoryUse st
             then st\<lparr>maxMemoryUse := length (fringe st)\<rparr> else st
        else st)"

definition dls_iter ::
  "('p, 's, 'a) Problem \<Rightarrow> 'p \<Rightarrow> int \<Rightarrow> (('s, 'a) dnode list, 's) frame
     \<Rightarrow> ('a outcome \<times> metrics) + (('s, 'a) dnode list, 's) frame" where
  "dls_iter P p maxDepth st =
     (if fringe st = [] then Inl (([], Infinity, numExpanded st), globals st)
      else
        (case last (fringe st) of (s0, s1, s2, s3, s4) \<Rightarrow>
           let s = last (fringe st);
               st = st\<lparr>fringe := butlast (fringe st)\<rparr>;
               st = st\<lparr>inFringe := (inFringe st)(s0 \<mapsto> False)\<rparr>
           in if s3 then Inl ((s1, Finite s2, numExpanded st), globals st)
              else if visited st s0 = None \<and> s4 < maxDepth then
                let st = st\<lparr>numExpanded := numExpanded st + 1\<rparr>;
                    st = st\<lparr>totalStates := totalStates st + 1\<rparr>;
                    st = st\<lparr>visited := (visited st)(s0 \<mapsto> True)\<rparr>;
                    successors = getSuccessors P p s0
                in Inr (fold (dls_insert s) successors st)
              else Inr st))"

definition dls_init ::
  "('p, 's, 'a) Problem \<Rightarrow> 'p \<Rightarrow> bool \<Rightarrow> metrics \<Rightarrow> (('s, 'a) dnode list, 's) frame" where
  "dls_init P p reset m =
     (let m = (if reset then m\<lparr>maxMemoryUse := 0, totalStates := 0\<rparr> else m);
          startState = getState P p
      in \<lparr>maxMemoryUse = maxMemoryUse m, totalStates = totalStates m,
          fringe = [(startState, [], 0, isSolved P p, 0)],
          visited = Map.empty, inFringe = [startState \<mapsto> True], numExpanded = 0\<rparr>)"

text \<open>
  \<^verbatim>\<open>depthLimitedSearch\<close> reads the globals when \<^verbatim>\<open>reset\<close> is false, so it takes
  them as its last argument.
\<close>

definition depthLimitedSearch ::
  "('p, 's, 'a) Problem \<Rightarrow> 'p \<Rightarrow> int \<Rightarrow> bool \<Rightarrow> metrics \<Rightarrow> ('a outcome \<times> metrics) option" where
  "depthLimitedSearch P p maxDepth reset m = loop (dls_iter P p maxDepth) (dls_init P p reset m)"

text \<open>
  The loop of \<^verbatim>\<open>iterativeDeepening\<close>, with its local variables \<^verbatim>\<open>state\<close>,
  \<^verbatim>\<open>depth\<close> and \<^verbatim>\<open>numExpanded\<close> (here \<open>acc\<close>, the name being taken
  by the field of the loop state). \<^verbatim>\<open>setState\<close> changes the problem object, which is
  returned with the result.
\<close>

function id_loop ::
  "('p, 's, 'a) Problem \<Rightarrow> 's \<Rightarrow> int \<Rightarrow> 'p \<Rightarrow> int \<Rightarrow> nat \<Rightarrow> metrics
     \<Rightarrow> (('a outcome \<times> metrics) \<times> 'p) option" where
  "id_loop P state maxDepth p depth acc m =
     (if depth \<le> maxDepth then
        (let p = setState P p state
         in case depthLimitedSearch P p depth False m of
              None \<Rightarrow> None
            | Some ((path, cost, expanded), m) \<Rightarrow>
                (let acc = acc + expanded
                 in if length path > 0 then Some (((path, cost, acc), m), p)
                    else id_loop P state maxDepth p (depth + 1) acc m))
      else Some ((([], Infinity, acc), m), p))"
  by pat_completeness auto
termination
  by (relation "measure (\<lambda>(P, state, maxDepth, p, depth, acc, m). nat (maxDepth + 1 - depth))")
    auto

declare id_loop.simps [simp del]

definition iterativeDeepening ::
  "('p, 's, 'a) Problem \<Rightarrow> 'p \<Rightarrow> int \<Rightarrow> (('a outcome \<times> metrics) \<times> 'p) option" where
  "iterativeDeepening P p maxDepth =
     (let m = \<lparr>maxMemoryUse = 0, totalStates = 0\<rparr>;
          state = getState P p;
          acc = 0;
          depth = 1
      in id_loop P state maxDepth p depth acc m)"

section \<open>search.py: aStarSearch\<close>

text \<open>
  The state keys and the actions are taken from totally ordered types, so that the
  nodes the queue compares when two priorities tie can be compared (\<open>py_lt\<close>); keys
  that Python cannot order are outside this model of \<^verbatim>\<open>aStarSearch\<close>. Step costs and
  estimates are Python integers, so that the priority
  \<^verbatim>\<open>s[2] + succ[2] + heuristic.eval(succ[0])\<close> is exact; estimates that are floats, which
  round, are outside the model.
\<close>

text \<open>A \<^verbatim>\<open>for\<close> loop whose body may raise.\<close>

fun for_each :: "('x \<Rightarrow> 'st \<Rightarrow> error + 'st) \<Rightarrow> 'x list \<Rightarrow> 'st \<Rightarrow> error + 'st" where
  "for_each body [] st = Inr st"
| "for_each body (x # xs) st =
     (case body x st of Inl e \<Rightarrow> Inl e | Inr st' \<Rightarrow> for_each body xs st')"

definition astar_insert ::
  "('s \<Rightarrow> int) \<Rightarrow> ('s, 'a) node \<Rightarrow> ('s, 'a) successor
     \<Rightarrow> ((int, ('s::linorder, 'a::linorder) node) PriorityQueue, 's) frame
     \<Rightarrow> error + ((int, ('s, 'a) node) PriorityQueue, 's) frame" where
  "astar_insert heuristic s succ st =
     (case (s, succ) of ((s0, s1, s2, s3), (t, a, c, g)) \<Rightarrow>
        if visited st t = None then
          (case push py_lt (fringe st) (t, s1 @ [a], s2 + c, g) (s2 + c + heuristic t) of
             Inl e \<Rightarrow> Inl e
           | Inr q \<Rightarrow>
               let st = st\<lparr>fringe := q\<rparr>
               in Inr (st\<lparr>inFringe := (inFringe st)(t \<mapsto> True)\<rparr>))
        else Inr st)"

definition astar_iter ::
  "('p, 's, 'a) Problem \<Rightarrow> 'p \<Rightarrow> ('s \<Rightarrow> int)
     \<Rightarrow> ((int, ('s::linorder, 'a::linorder) node) PriorityQueue, 's) frame
     \<Rightarrow> (error + ('a outcome \<times> metrics)) + ((int, ('s, 'a) node) PriorityQueue, 's) frame" where
  "astar_iter P p heuristic st =
     (if isEmpty (fringe st) then Inl (Inr (([], Infinity, numExpanded st), globals st))
      else
        (case pop py_lt (fringe st) of
           Inl e \<Rightarrow> Inl (Inl e)
         | Inr ((s, score), q) \<Rightarrow>
             (case s of (s0, s1, s2, s3) \<Rightarrow>
                let st = st\<lparr>fringe := q\<rparr>;
                    st = st\<lparr>inFringe := (inFringe st)(s0 \<mapsto> False)\<rparr>
                in if s3 then Inl (Inr ((s1, Finite s2, numExpanded st), globals st))
                   else if visited st s0 = None then
                     let st = st\<lparr>numExpanded := numExpanded st + 1\<rparr>;
                         st = st\<lparr>visited := (visited st)(s0 \<mapsto> True)\<rparr>;
                         successors = getSuccessors P p s0
                     in (case for_each (astar_insert heuristic s) successors st of
                           Inl e \<Rightarrow> Inl (Inl e)
                         | Inr st \<Rightarrow>
                             let st = (if getSize (fringe st) > maxMemoryUse st
                                       then st\<lparr>maxMemoryUse := getSize (fringe st)\<rparr> else st)
                             in Inr (st\<lparr>totalStates := numExpanded st\<rparr>))
                   else Inr st)))"

definition astar_init ::
  "('p, 's, 'a) Problem \<Rightarrow> 'p \<Rightarrow> ('s \<Rightarrow> int)
     \<Rightarrow> error + ((int, ('s::linorder, 'a::linorder) node) PriorityQueue, 's) frame" where
  "astar_init P p heuristic =
     (let startState = getState P p
      in case push py_lt PriorityQueue_init (startState, [], 0, isSolved P p)
                (heuristic startState) of
           Inl e \<Rightarrow> Inl e
         | Inr q \<Rightarrow>
             Inr \<lparr>maxMemoryUse = 0, totalStates = 0, fringe = q,
                  visited = Map.empty, inFringe = [startState \<mapsto> True], numExpanded = 0\<rparr>)"

definition aStarSearch ::
  "('p, 's::linorder, 'a::linorder) Problem \<Rightarrow> 'p \<Rightarrow> ('s \<Rightarrow> int)
     \<Rightarrow> (error + ('a outcome \<times> metrics)) option" where
  "aStarSearch P p heuristic =
     (case astar_init P p heuristic of
        Inl e \<Rightarrow> Some (Inl e)
      | Inr st \<Rightarrow> loop (astar_iter P p heuristic) st)"

section \<open>slidingpuzzle.py: strings and lists as Python has them\<close>

text \<open>
  A Python string is a list of characters. The characters of a \<open>string\<close> are the
  code points below 256, which covers every string the puzzle builds (digits,
  a minus sign, blanks and line feeds).
\<close>

definition is_space :: "char \<Rightarrow> bool" where
  "is_space c \<longleftrightarrow> (of_char c :: nat) \<in> {9, 10, 11, 12, 13, 28, 29, 30, 31, 32, 133, 160}"

definition is_digit :: "char \<Rightarrow> bool" where
  "is_digit c \<longleftrightarrow> 48 \<le> (of_char c :: nat) \<and> (of_char c :: nat) \<le> 57"

definition digit_char :: "nat \<Rightarrow> char" where
  "digit_char d = char_of (48 + d)"

definition digit_value :: "char \<Rightarrow> nat" where
  "digit_value c = of_char c - 48"

text \<open>\<^verbatim>\<open>str(n)\<close> for an integer: the decimal digits, after a minus sign when negative.\<close>

fun str_nat :: "nat \<Rightarrow> string" where
  "str_nat n = (if n < 10 then [digit_char n] else str_nat (n div 10) @ [digit_char (n mod 10)])"

declare str_nat.simps [simp del]

definition str_int :: "int \<Rightarrow> string" where
  "str_int i = (if i < 0 then CHR ''-'' # str_nat (nat (- i)) else str_nat (nat i))"

text \<open>
  \<^verbatim>\<open>int(s)\<close> for a string: blanks around the number are dropped, a sign may come
  first, then decimal digits, where single underscores may stand between digits;
  anything else raises ValueError.
\<close>

definition strip :: "string \<Rightarrow> string" where
  "strip s = rev (dropWhile is_space (rev (dropWhile is_space s)))"

fun no_double_underscore :: "string \<Rightarrow> bool" where
  "no_double_underscore (a # b # cs) =
     (\<not> (a = CHR ''_'' \<and> b = CHR ''_'') \<and> no_double_underscore (b # cs))"
| "no_double_underscore cs = True"

definition valid_digits :: "string \<Rightarrow> bool" where
  "valid_digits cs \<longleftrightarrow>
     cs \<noteq> [] \<and> is_digit (hd cs) \<and> is_digit (last cs)
     \<and> (\<forall>c \<in> set cs. is_digit c \<or> c = CHR ''_'') \<and> no_double_underscore cs"

definition digits_value :: "string \<Rightarrow> nat" where
  "digits_value cs = foldl (\<lambda>a c. 10 * a + digit_value c) 0 (filter is_digit cs)"

definition py_int :: "string \<Rightarrow> error + int" where
  "py_int s =
     (case strip s of
        [] \<Rightarrow> Inl ValueError
      | c # cs \<Rightarrow>
          if c = CHR ''-'' then
            (if valid_digits cs then Inr (- int (digits_value cs)) else Inl ValueError)
          else if c = CHR ''+'' then
            (if valid_digits cs then Inr (int (digits_value cs)) else Inl ValueError)
          else
            (if valid_digits (c # cs) then Inr (int (digits_value (c # cs)))
             else Inl ValueError))"

text \<open>\<^verbatim>\<open>s.split(sep)\<close> for a separator of one character, and \<^verbatim>\<open>s.split()\<close>.\<close>

fun split_on :: "char \<Rightarrow> string \<Rightarrow> string list" where
  "split_on sep [] = [[]]"
| "split_on sep (x # xs) =
     (if x = sep then [] # split_on sep xs
      else (case split_on sep xs of [] \<Rightarrow> [[x]] | w # ws \<Rightarrow> (x # w) # ws))"

fun split_ws :: "string \<Rightarrow> string list" where
  "split_ws [] = []"
| "split_ws [x] = (if is_space x then [] else [[x]])"
| "split_ws (x # y # ys) =
     (if is_space x then split_ws (y # ys)
      else if is_space y then [x] # split_ws (y # ys)
      else (case split_ws (y # ys) of [] \<Rightarrow> [[x]] | w # ws \<Rightarrow> (x # w) # ws))"

text \<open>
  \<^verbatim>\<open>xs[i]\<close> and \<^verbatim>\<open>xs[i] = v\<close>: a negative index counts from the end, an index out of
  range raises IndexError.
\<close>

definition py_index :: "'a list \<Rightarrow> int \<Rightarrow> error + nat" where
  "py_index xs i =
     (let n = int (length xs); j = (if i < 0 then n + i else i)
      in if 0 \<le> j \<and> j < n then Inr (nat j) else Inl IndexError)"

definition py_get :: "'a list \<Rightarrow> int \<Rightarrow> error + 'a" where
  "py_get xs i = (case py_index xs i of Inl e \<Rightarrow> Inl e | Inr k \<Rightarrow> Inr (xs ! k))"

definition py_set :: "'a list \<Rightarrow> int \<Rightarrow> 'a \<Rightarrow> error + 'a list" where
  "py_set xs i v = (case py_index xs i of Inl e \<Rightarrow> Inl e | Inr k \<Rightarrow> Inr (xs[k := v]))"

text \<open>\<^verbatim>\<open>b[i][j]\<close> and \<^verbatim>\<open>b[i][j] = v\<close> on a list of lists.\<close>

definition py_get2 :: "'a list list \<Rightarrow> int \<Rightarrow> int \<Rightarrow> error + 'a" where
  "py_get2 b i j = (case py_get b i of Inl e \<Rightarrow> Inl e | Inr row \<Rightarrow> py_get row j)"

definition py_set2 :: "'a list list \<Rightarrow> int \<Rightarrow> int \<Rightarrow> 'a \<Rightarrow> error + 'a list list" where
  "py_set2 b i j v =
     (case py_index b i of
        Inl e \<Rightarrow> Inl e
      | Inr k \<Rightarrow> (case py_set (b ! k) j v of Inl e \<Rightarrow> Inl e | Inr row \<Rightarrow> Inr (b[k := row])))"

section \<open>slidingpuzzle.py: class SlidingPuzzle\<close>

text \<open>
  The fields of the class. Its methods carry the prefix \<open>sp_\<close>, since the names
  \<^verbatim>\<open>getState\<close>, \<^verbatim>\<open>setState\<close>, \<^verbatim>\<open>isSolved\<close> and \<^verbatim>\<open>getSuccessors\<close> are those of the problem
  interface. A method that changes the object returns the changed object; a method
  that raises returns the error.
\<close>

record SlidingPuzzle =
  numR :: int
  numC :: int
  board :: "int list list"
  blank :: int
  pos :: "(int \<times> int) option"
  numMisplaced :: int

fun getState_row :: "int list \<Rightarrow> error + string" where
  "getState_row [] = Inl IndexError"
| "getState_row (t # ts) =
     Inr (str_int t @ concat (map (\<lambda>u. CHR '' '' # str_int u) ts) @ [CHR 0x0A])"

fun getState_rows :: "int list list \<Rightarrow> string \<Rightarrow> error + string" where
  "getState_rows [] stateStr = Inr stateStr"
| "getState_rows (row # rows) stateStr =
     (case getState_row row of
        Inl e \<Rightarrow> Inl e
      | Inr s \<Rightarrow> getState_rows rows (stateStr @ s))"

definition sp_getState :: "SlidingPuzzle \<Rightarrow> error + string" where
  "sp_getState p = getState_rows (board p) []"

text \<open>The local variables of \<^verbatim>\<open>setState\<close>, and its two nested loops.\<close>

record setState_vars =
  seen :: "bool list"
  misplaced :: int
  newPos :: "(int \<times> int) option"
  place :: int
  newBoard :: "int list list"

fun setState_tiles ::
  "SlidingPuzzle \<Rightarrow> int \<Rightarrow> string list \<Rightarrow> int \<Rightarrow> setState_vars \<Rightarrow> error + setState_vars" where
  "setState_tiles p i [] j v = Inr v"
| "setState_tiles p i (tok # toks) j v =
     (case py_int tok of
        Inl e \<Rightarrow> Inl e
      | Inr tile \<Rightarrow>
          if tile < 0 \<or> tile \<ge> numR p * numC p then Inl ValueError
          else (case py_get (seen v) tile of
                  Inl e \<Rightarrow> Inl e
                | Inr s \<Rightarrow>
                    if s then Inl ValueError
                    else (case py_get (newBoard v) i of
                            Inl e \<Rightarrow> Inl e
                          | Inr row \<Rightarrow>
                             (case py_set (newBoard v) i (row @ [tile]) of
                                Inl e \<Rightarrow> Inl e
                              | Inr b \<Rightarrow>
                                 (case py_set (seen v) tile True of
                                    Inl e \<Rightarrow> Inl e
                                  | Inr sn \<Rightarrow>
                                      let v = v\<lparr>newBoard := b, seen := sn\<rparr>;
                                          v = (if tile = blank p then v\<lparr>newPos := Some (i, j)\<rparr>
                                               else v);
                                          v = (if tile \<noteq> place v
                                               then v\<lparr>misplaced := misplaced v + 1\<rparr> else v);
                                          v = v\<lparr>place := place v + 1\<rparr>
                                      in setState_tiles p i toks (j + 1) v)))))"

fun setState_rows ::
  "SlidingPuzzle \<Rightarrow> string list \<Rightarrow> int \<Rightarrow> setState_vars \<Rightarrow> error + setState_vars" where
  "setState_rows p [] i v = Inr v"
| "setState_rows p (r # rs) i v =
     (let row = split_ws r
      in case py_get (board p) i of
           Inl e \<Rightarrow> Inl e
         | Inr old \<Rightarrow>
             if length row \<noteq> length old then Inl AttributeError
             else (case setState_tiles p i row 0 (v\<lparr>newBoard := newBoard v @ [[]]\<rparr>) of
                     Inl e \<Rightarrow> Inl e
                   | Inr v \<Rightarrow> setState_rows p rs (i + 1) v))"

text \<open>
  \<^verbatim>\<open>[False]*numR*numC\<close> has \<^verbatim>\<open>numR\<close> times \<^verbatim>\<open>numC\<close> entries when both are positive
  and none otherwise. The second size check builds its message from \<^verbatim>\<open>self.numC\<close>,
  which the class does not have: that is the AttributeError above.
\<close>

definition sp_setState :: "SlidingPuzzle \<Rightarrow> string \<Rightarrow> error + SlidingPuzzle" where
  "sp_setState p state =
     (let rows = butlast (split_on (CHR 0x0A) state)
      in if int (length rows) \<noteq> numR p then Inl ValueError
         else
           let v = \<lparr>seen = concat (replicate (nat (numC p)) (replicate (nat (numR p)) False)),
                    misplaced = 0, newPos = None, place = 0, newBoard = []\<rparr>
           in case setState_rows p rows 0 v of
                Inl e \<Rightarrow> Inl e
              | Inr v \<Rightarrow> Inr (p\<lparr>pos := newPos v, numMisplaced := misplaced v,
                                 board := newBoard v\<rparr>))"

definition sp_move :: "SlidingPuzzle \<Rightarrow> int \<times> int \<Rightarrow> error + (int \<times> SlidingPuzzle)" where
  "sp_move p dir =
     (if dir \<notin> set [(- 1, 0), (0, - 1), (0, 1), (1, 0)] then Inl ValueError
      else
        (case pos p of
           None \<Rightarrow> Inl TypeError
         | Some (p0, p1) \<Rightarrow>
             let newPos = (p0 + fst dir, p1 + snd dir)
             in if fst newPos < 0 \<or> fst newPos \<ge> numR p \<or> snd newPos < 0 \<or> snd newPos \<ge> numC p
                then Inl ValueError
                else
                  (case py_get2 (board p) (fst newPos) (snd newPos) of
                     Inl e \<Rightarrow> Inl e
                   | Inr tile \<Rightarrow>
                       let blankPos = (blank p div numC p, blank p mod numC p);
                           m = numMisplaced p;
                           m = (if (p0, p1) = blankPos then m + 1 else m);
                           m = (if newPos = blankPos then m - 1 else m);
                           m = (if tile = fst newPos * numC p + snd newPos then m + 1 else m);
                           m = (if tile = p0 * numC p + p1 then m - 1 else m)
                       in (case py_set2 (board p) p0 p1 tile of
                             Inl e \<Rightarrow> Inl e
                           | Inr b \<Rightarrow>
                              (case py_set2 b (fst newPos) (snd newPos) (blank p) of
                                 Inl e \<Rightarrow> Inl e
                               | Inr b \<Rightarrow>
                                   Inr (1, p\<lparr>numMisplaced := m, board := b, pos := Some newPos\<rparr>))))))"

definition sp_legalMoves :: "SlidingPuzzle \<Rightarrow> error + (int \<times> int) list" where
  "sp_legalMoves p =
     (case pos p of
        None \<Rightarrow> Inl TypeError
      | Some (p0, p1) \<Rightarrow>
          Inr ((if p0 > 0 then [(- 1, 0)] else [])
             @ (if p0 < numR p - 1 then [(1, 0)] else [])
             @ (if p1 > 0 then [(0, - 1)] else [])
             @ (if p1 < numC p - 1 then [(0, 1)] else [])))"

definition sp_isSolved :: "SlidingPuzzle \<Rightarrow> bool" where
  "sp_isSolved p = (numMisplaced p = 0)"

definition sp_getPos :: "SlidingPuzzle \<Rightarrow> (int \<times> int) option" where
  "sp_getPos p = pos p"

text \<open>The loop of \<^verbatim>\<open>getSuccessors\<close> over the legal moves, and the method.\<close>

fun getSuccessors_moves ::
  "string \<Rightarrow> (int \<times> int) list \<Rightarrow> (string, int \<times> int) successor list \<Rightarrow> SlidingPuzzle
     \<Rightarrow> error + ((string, int \<times> int) successor list \<times> SlidingPuzzle)" where
  "getSuccessors_moves state [] succ p = Inr (succ, p)"
| "getSuccessors_moves state (a # as) succ p =
     (case sp_move p a of
        Inl e \<Rightarrow> Inl e
      | Inr (cost, p) \<Rightarrow>
          (case sp_getState p of
             Inl e \<Rightarrow> Inl e
           | Inr s \<Rightarrow>
               let succ = succ @ [(s, a, cost, sp_isSolved p)]
               in (case sp_setState p state of
                     Inl e \<Rightarrow> Inl e
                   | Inr p \<Rightarrow> getSuccessors_moves state as succ p)))"

definition sp_getSuccessors ::
  "SlidingPuzzle \<Rightarrow> string
     \<Rightarrow> error + ((string, int \<times> int) successor list \<times> SlidingPuzzle)" where
  "sp_getSuccessors p state =
     (case sp_getState p of
        Inl e \<Rightarrow> Inl e
      | Inr currentState \<Rightarrow>
          (case sp_setState p state of
             Inl e \<Rightarrow> Inl e
           | Inr p \<Rightarrow>
               (case sp_legalMoves p of
                  Inl e \<Rightarrow> Inl e
                | Inr moves \<Rightarrow>
                    (case getSuccessors_moves state moves [] p of
                       Inl e \<Rightarrow> Inl e
                     | Inr (succ, p) \<Rightarrow>
                         (case sp_setState p currentState of
                            Inl e \<Rightarrow> Inl e
                          | Inr p \<Rightarrow> Inr (succ, p))))))"

text \<open>
  The puzzle as a problem for the searches. The searches call the methods on
  puzzles and state strings for which they do not raise and \<^verbatim>\<open>getSuccessors\<close>
  hands back the puzzle as it was (both proved below); the error branches here are
  never taken there.
\<close>

definition sp_problem :: "(SlidingPuzzle, string, int \<times> int) Problem" where
  "sp_problem =
     \<lparr>getState = (\<lambda>p. case sp_getState p of Inr s \<Rightarrow> s | Inl e \<Rightarrow> []),
      setState = (\<lambda>p s. case sp_setState p s of Inr q \<Rightarrow> q | Inl e \<Rightarrow> p),
      isSolved = sp_isSolved,
      getSuccessors = (\<lambda>p s. case sp_getSuccessors p s of Inr (succ, q) \<Rightarrow> succ | Inl e \<Rightarrow> [])\<rparr>"

text \<open>Applying a list of moves in order.\<close>

fun sp_moves :: "SlidingPuzzle \<Rightarrow> (int \<times> int) list \<Rightarrow> error + SlidingPuzzle" where
  "sp_moves p [] = Inr p"
| "sp_moves p (a # as) = (case sp_move p a of Inl e \<Rightarrow> Inl e | Inr (cost, q) \<Rightarrow> sp_moves q as)"

section \<open>Notions used to state the properties\<close>

text \<open>The node a search builds for a successor of the node \<open>s\<close>.\<close>

definition child :: "('s, 'a) node \<Rightarrow> ('s, 'a) successor \<Rightarrow> ('s, 'a) node" where
  "child s succ = (case (s, succ) of ((s0, s1, s2, s3), (t, a, c, g)) \<Rightarrow> (t, s1 @ [a], s2 + c, g))"

text \<open>The successors whose state key is not in the visited dictionary.\<close>

definition fresh :: "('s \<rightharpoonup> bool) \<Rightarrow> ('s, 'a) successor list \<Rightarrow> ('s, 'a) successor list" where
  "fresh vis succs = filter (\<lambda>e. vis (fst e) = None) succs"

text \<open>
  The nodes that can be built from the problem's current state by following
  successors: the start node, and the children of such nodes. The reachable state
  space is the set of their state keys.
\<close>

inductive trail :: "('p, 's, 'a) Problem \<Rightarrow> 'p \<Rightarrow> ('s, 'a) node \<Rightarrow> bool"
  for P :: "('p, 's, 'a) Problem" and p :: 'p where
  start: "trail P p (getState P p, [], 0, isSolved P p)"
| step: "trail P p n \<Longrightarrow> e \<in> set (getSuccessors P p (fst n)) \<Longrightarrow> trail P p (child n e)"

definition reachable :: "('p, 's, 'a) Problem \<Rightarrow> 'p \<Rightarrow> 's set" where
  "reachable P p = {s. \<exists>n. trail P p n \<and> fst n = s}"

text \<open>The node of a depth-limited search without its depth.\<close>

definition undepth :: "('s, 'a) dnode \<Rightarrow> ('s, 'a) node" where
  "undepth d = (case d of (s0, s1, s2, s3, s4) \<Rightarrow> (s0, s1, s2, s3))"

text \<open>
  What one iteration of any of the four loops does to the bag of fringe nodes, the
  set of visited keys and the expansion counter, when it does not return: a node
  leaves the fringe, and either nothing else happens, or the node is not a goal
  node, its key is new, the key is marked, the counter goes up by one and the
  children with unmarked keys enter the fringe.
\<close>

inductive astep ::
  "('p, 's, 'a) Problem \<Rightarrow> 'p \<Rightarrow> ('s, 'a) node multiset \<times> 's set \<times> nat
     \<Rightarrow> ('s, 'a) node multiset \<times> 's set \<times> nat \<Rightarrow> bool"
  for P :: "('p, 's, 'a) Problem" and p :: 'p where
  discard: "x \<in># F \<Longrightarrow> astep P p (F, V, n) (F - {#x#}, V, n)"
| expand: "x \<in># F \<Longrightarrow> \<not> snd (snd (snd x)) \<Longrightarrow> fst x \<notin> V \<Longrightarrow>
     astep P p (F, V, n)
       (F - {#x#} + mset (map (child x)
            (filter (\<lambda>e. fst e \<notin> insert (fst x) V) (getSuccessors P p (fst x)))),
        insert (fst x) V, Suc n)"

definition abs_list :: "(('s, 'a) node list, 's) frame \<Rightarrow> ('s, 'a) node multiset \<times> 's set \<times> nat" where
  "abs_list st = (mset (fringe st), dom (visited st), numExpanded st)"

definition abs_dls :: "(('s, 'a) dnode list, 's) frame \<Rightarrow> ('s, 'a) node multiset \<times> 's set \<times> nat" where
  "abs_dls st = (mset (map undepth (fringe st)), dom (visited st), numExpanded st)"

definition abs_astar ::
  "((int, ('s, 'a) node) PriorityQueue, 's) frame \<Rightarrow> ('s, 'a) node multiset \<times> 's set \<times> nat" where
  "abs_astar st = (mset (map snd (heap (fringe st))), dom (visited st), numExpanded st)"

text \<open>
  The heap property of \<^verbatim>\<open>heapq\<close> on a totally ordered element type: no element is
  smaller than its parent, the parent of position \<open>i\<close> being position \<open>(i - 1) div 2\<close>.
  While an element is sifted, the property holds except around the position \<open>k\<close>
  that is being filled (\<open>hole_inv\<close>), the children of \<open>k\<close> are not smaller than its
  parent (\<open>gp_inv\<close>), and, when \<open>x\<close> moves towards the root, \<open>x\<close> is not larger than the
  children of \<open>k\<close> (\<open>above\<close>).
\<close>

definition heap_inv :: "('x::linorder) list \<Rightarrow> bool" where
  "heap_inv h \<longleftrightarrow> (\<forall>i<length h. 0 < i \<longrightarrow> h ! ((i - 1) div 2) \<le> h ! i)"

definition hole_inv :: "('x::linorder) list \<Rightarrow> nat \<Rightarrow> bool" where
  "hole_inv h k \<longleftrightarrow>
     (\<forall>i<length h. 0 < i \<and> i \<noteq> k \<and> (i - 1) div 2 \<noteq> k \<longrightarrow> h ! ((i - 1) div 2) \<le> h ! i)"

definition gp_inv :: "('x::linorder) list \<Rightarrow> nat \<Rightarrow> bool" where
  "gp_inv h k \<longleftrightarrow>
     (\<forall>c<length h. 0 < c \<and> (c - 1) div 2 = k \<and> 0 < k \<longrightarrow> h ! ((k - 1) div 2) \<le> h ! c)"

definition above :: "'x::linorder \<Rightarrow> 'x list \<Rightarrow> nat \<Rightarrow> bool" where
  "above x h k \<longleftrightarrow> (\<forall>c<length h. 0 < c \<and> (c - 1) div 2 = k \<longrightarrow> x \<le> h ! c)"

text \<open>
  The loop state \<^verbatim>\<open>aStarSearch\<close> starts from: the first push, into the empty queue,
  compares nothing.
\<close>

definition astar_start ::
  "('p, 's, 'a) Problem \<Rightarrow> 'p \<Rightarrow> ('s \<Rightarrow> int)
     \<Rightarrow> ((int, ('s, 'a) node) PriorityQueue, 's) frame" where
  "astar_start P p h =
     \<lparr>maxMemoryUse = 0, totalStates = 0,
      fringe = \<lparr>heap = [(h (getState P p), (getState P p, [], 0, isSolved P p))]\<rparr>,
      visited = Map.empty, inFringe = [getState P p \<mapsto> True], numExpanded = 0\<rparr>"

text \<open>The node a depth-limited search builds for a successor, one level deeper.\<close>

definition dchild :: "('s, 'a) dnode \<Rightarrow> ('s, 'a) successor \<Rightarrow> ('s, 'a) dnode" where
  "dchild s succ = (case (s, succ) of ((s0, s1, s2, s3, s4), (t, a, c, g)) \<Rightarrow> (t, s1 @ [a], s2 + c, g, s4 + 1))"

text \<open>The pair \<^verbatim>\<open>aStarSearch\<close> pushes for a node: cost so far plus estimate, and the node.\<close>

definition entry :: "('s \<Rightarrow> int) \<Rightarrow> ('s, 'a) node \<Rightarrow> int \<times> ('s, 'a) node" where
  "entry h n = (fst (snd (snd n)) + h (fst n), n)"

text \<open>
  What holds of the bag of nodes, the visited keys and the counter throughout a
  search: every fringe node was built from the start node by following successors,
  every visited key is a reachable state, and the counter is the number of visited
  keys.
\<close>

definition tinv ::
  "('p, 's, 'a) Problem \<Rightarrow> 'p \<Rightarrow> ('s, 'a) node multiset \<times> 's set \<times> nat \<Rightarrow> bool" where
  "tinv P p A = (case A of (F, V, n) \<Rightarrow>
     (\<forall>x \<in># F. trail P p x) \<and> V \<subseteq> reachable P p \<and> finite V \<and> n = card V)"

text \<open>
  The order in which a search on a finite state space makes progress: fewer
  reachable keys left to visit, or as many and a smaller fringe.
\<close>

definition search_order ::
  "('p, 's, 'a) Problem \<Rightarrow> 'p
     \<Rightarrow> ((('s, 'a) node multiset \<times> 's set \<times> nat) \<times> (('s, 'a) node multiset \<times> 's set \<times> nat)) set" where
  "search_order P p = inv_image (less_than <*lex*> less_than)
     (\<lambda>(F, V, n). (card (reachable P p - V), size F))"

text \<open>
  The measure of a depth-limited search: for every fringe node, how many levels it
  is above the limit.
\<close>

definition dls_weight :: "int \<Rightarrow> (('s, 'a) dnode list, 's) frame \<Rightarrow> nat multiset" where
  "dls_weight maxDepth st =
     image_mset (\<lambda>x. nat (maxDepth - snd (snd (snd (snd x)))) + 1) (mset (fringe st))"

text \<open>
  Iterative deepening as the specification words it: depth-limited searches over a
  list of limits in order, the problem set back to the saved state before each, the
  globals handed from one search to the next without a reset, the expansion counts
  summed, the first non-empty path returned, and the failure result when the list
  is used up.
\<close>

fun id_over ::
  "('p, 's, 'a) Problem \<Rightarrow> 's \<Rightarrow> int list \<Rightarrow> 'p \<Rightarrow> nat \<Rightarrow> metrics
     \<Rightarrow> (('a outcome \<times> metrics) \<times> 'p) option" where
  "id_over P state [] p acc m = Some ((([], Infinity, acc), m), p)"
| "id_over P state (d # ds) p acc m =
     (case depthLimitedSearch P (setState P p state) d False m of
        None \<Rightarrow> None
      | Some ((path, c, expanded), m') \<Rightarrow>
          if path \<noteq> [] then Some (((path, c, acc + expanded), m'), setState P p state)
          else id_over P state ds (setState P p state) (acc + expanded) m')"

text \<open>
  Iterative deepening as the claim words it for the two counters. Every depth-limited
  search is taken on its own: called with a reset, it returns its own peak fringe size
  and its own number of expansions. The caller keeps the largest peak and the sum of the
  expansions over all the searches it ran.
\<close>

fun id_isolated ::
  "('p, 's, 'a) Problem \<Rightarrow> 's \<Rightarrow> int list \<Rightarrow> 'p \<Rightarrow> nat \<Rightarrow> metrics
     \<Rightarrow> (('a outcome \<times> metrics) \<times> 'p) option" where
  "id_isolated P state [] p acc m = Some ((([], Infinity, acc), m), p)"
| "id_isolated P state (d # ds) p acc m =
     (case depthLimitedSearch P (setState P p state) d True m of
        None \<Rightarrow> None
      | Some ((path, c, expanded), m1) \<Rightarrow>
          let m' = \<lparr>maxMemoryUse = max (maxMemoryUse m) (maxMemoryUse m1),
                    totalStates = totalStates m + totalStates m1\<rparr>
          in if path \<noteq> [] then Some (((path, c, acc + expanded), m'), setState P p state)
             else id_isolated P state ds (setState P p state) (acc + expanded) m')"

text \<open>
  Two loop states of a depth-limited search that differ in the globals only: the second
  search started with the peak \<open>M\<close> and the total \<open>T\<close>, the first one from zero.
\<close>

definition dls_same ::
  "nat \<Rightarrow> nat \<Rightarrow> (('s, 'a) dnode list, 's) frame \<Rightarrow> (('s, 'a) dnode list, 's) frame \<Rightarrow> bool" where
  "dls_same M T s1 s2 \<longleftrightarrow>
     fringe s1 = fringe s2 \<and> visited s1 = visited s2 \<and> numExpanded s1 = numExpanded s2
     \<and> maxMemoryUse s2 = max M (maxMemoryUse s1) \<and> totalStates s2 = T + totalStates s1"

text \<open>No node that can be built from the start node carries the goal flag.\<close>

definition no_goal_node :: "('p, 's, 'a) Problem \<Rightarrow> 'p \<Rightarrow> bool" where
  "no_goal_node P p \<longleftrightarrow> (\<forall>n. trail P p n \<longrightarrow> \<not> snd (snd (snd n)))"

text \<open>
  One iteration with respect to the visited dictionary and the expansion counter:
  either both are left alone, or exactly one key that was not in the dictionary is
  added and the counter goes up by one.
\<close>

definition once :: "('f, 's) frame \<Rightarrow> ('g, 's) frame \<Rightarrow> bool" where
  "once st st' \<longleftrightarrow>
     (visited st' = visited st \<and> numExpanded st' = numExpanded st)
     \<or> (\<exists>s. visited st s = None \<and> visited st' = (visited st)(s \<mapsto> True)
            \<and> numExpanded st' = Suc (numExpanded st))"

text \<open>
  Paths in the state graph: a list of successor tuples, each taken from the
  successors of the state the one before it leads to; the state it ends in; its
  cost.
\<close>

fun walk :: "('p, 's, 'a) Problem \<Rightarrow> 'p \<Rightarrow> 's \<Rightarrow> ('s, 'a) successor list \<Rightarrow> bool" where
  "walk P p s [] = True"
| "walk P p s (e # es) = (e \<in> set (getSuccessors P p s) \<and> walk P p (fst e) es)"

definition dest :: "'s \<Rightarrow> ('s, 'a) successor list \<Rightarrow> 's" where
  "dest s es = last (s # map fst es)"

definition walk_cost :: "('s, 'a) successor list \<Rightarrow> int" where
  "walk_cost es = sum_list (map (\<lambda>e. fst (snd (snd e))) es)"

text \<open>
  The goal flags of a problem tell whether a state is a goal: \<^verbatim>\<open>isSolved\<close> does for
  the current state, and the fourth component of a successor does for the state it
  leads to, in the reachable part of the graph.
\<close>

definition goal_flags :: "('p, 's, 'a) Problem \<Rightarrow> 'p \<Rightarrow> ('s \<Rightarrow> bool) \<Rightarrow> bool" where
  "goal_flags P p G \<longleftrightarrow>
     isSolved P p = G (getState P p)
     \<and> (\<forall>n e. trail P p n \<and> e \<in> set (getSuccessors P p (fst n)) \<longrightarrow> snd (snd (snd e)) = G (fst e))"

definition unit_costs :: "('p, 's, 'a) Problem \<Rightarrow> 'p \<Rightarrow> bool" where
  "unit_costs P p \<longleftrightarrow>
     (\<forall>n e. trail P p n \<and> e \<in> set (getSuccessors P p (fst n)) \<longrightarrow> fst (snd (snd e)) = 1)"

text \<open>
  A sequence of actions that leads from the current state to a goal state, at a
  given cost.
\<close>

definition solution ::
  "('p, 's, 'a) Problem \<Rightarrow> 'p \<Rightarrow> ('s \<Rightarrow> bool) \<Rightarrow> 'a list \<Rightarrow> int \<Rightarrow> bool" where
  "solution P p G as c \<longleftrightarrow>
     (\<exists>es. walk P p (getState P p) es \<and> map (\<lambda>e. fst (snd e)) es = as \<and> walk_cost es = c
           \<and> G (dest (getState P p) es))"

text \<open>
  What breadth-first search keeps true of its fringe: the path lengths ascend along
  the queue and differ by at most one; and, for a bound \<open>n\<close>, some fringe node with an
  unvisited key can still be continued to a goal through unvisited keys within
  \<open>n\<close> actions in all.
\<close>

definition bfs_layers :: "(('s, 'a) node list, 's) frame \<Rightarrow> bool" where
  "bfs_layers st \<longleftrightarrow>
     sorted (map (\<lambda>x. length (fst (snd x))) (fringe st))
     \<and> (\<forall>x \<in> set (fringe st).
           length (fst (snd x)) \<le> Suc (length (fst (snd (hd (fringe st))))))"

definition bfs_cover ::
  "('p, 's, 'a) Problem \<Rightarrow> 'p \<Rightarrow> ('s \<Rightarrow> bool) \<Rightarrow> (('s, 'a) node list, 's) frame \<Rightarrow> nat \<Rightarrow> bool" where
  "bfs_cover P p G st n \<longleftrightarrow>
     (\<exists>x \<in> set (fringe st). \<exists>es.
        visited st (fst x) = None \<and> walk P p (fst x) es \<and> G (dest (fst x) es)
        \<and> (\<forall>e \<in> set es. visited st (fst e) = None)
        \<and> length (fst (snd x)) + length es \<le> n)"

text \<open>
  A heuristic is admissible when its estimate at a reachable state never exceeds the
  cost of a path from there to a goal, and consistent when its estimate at a
  reachable state never exceeds the cost of a step plus the estimate at the state
  the step leads to.
\<close>

definition admissible ::
  "('p, 's, 'a) Problem \<Rightarrow> 'p \<Rightarrow> ('s \<Rightarrow> bool) \<Rightarrow> ('s \<Rightarrow> int) \<Rightarrow> bool" where
  "admissible P p G h \<longleftrightarrow>
     (\<forall>n es. trail P p n \<and> walk P p (fst n) es \<and> G (dest (fst n) es) \<longrightarrow> h (fst n) \<le> walk_cost es)"

definition consistent :: "('p, 's, 'a) Problem \<Rightarrow> 'p \<Rightarrow> ('s \<Rightarrow> int) \<Rightarrow> bool" where
  "consistent P p h \<longleftrightarrow>
     (\<forall>n e. trail P p n \<and> e \<in> set (getSuccessors P p (fst n)) \<longrightarrow>
        h (fst n) \<le> fst (snd (snd e)) + h (fst e))"

text \<open>
  What \<^verbatim>\<open>aStarSearch\<close> keeps true of its queue: every entry has the priority the
  search computes for its node; and, for a bound \<open>C\<close>, some queued node with an
  unvisited key can still be continued to a goal through unvisited keys at a cost of
  at most \<open>C\<close> in all.
\<close>

definition astar_keys ::
  "('s \<Rightarrow> int) \<Rightarrow> ((int, ('s, 'a) node) PriorityQueue, 's) frame \<Rightarrow> bool" where
  "astar_keys h st \<longleftrightarrow> (\<forall>kx \<in> set (heap (fringe st)). kx = entry h (snd kx))"

definition astar_cover ::
  "('p, 's, 'a) Problem \<Rightarrow> 'p \<Rightarrow> ('s \<Rightarrow> bool)
     \<Rightarrow> ((int, ('s, 'a) node) PriorityQueue, 's) frame \<Rightarrow> int \<Rightarrow> bool" where
  "astar_cover P p G st C \<longleftrightarrow>
     (\<exists>kx \<in> set (heap (fringe st)). \<exists>es.
        visited st (fst (snd kx)) = None \<and> walk P p (fst (snd kx)) es
        \<and> G (dest (fst (snd kx)) es)
        \<and> (\<forall>e \<in> set es. visited st (fst e) = None)
        \<and> fst (snd (snd (snd kx))) + walk_cost es \<le> C)"

text \<open>A heuristic whose estimates are never negative.\<close>

definition nonnegative :: "('s \<Rightarrow> int) \<Rightarrow> bool" where
  "nonnegative h \<longleftrightarrow> (\<forall>s. 0 \<le> h s)"

text \<open>
  What a search may return: the failure result, or the path and the cost of a goal
  node built from the start node by following successors.
\<close>

definition sound_outcome :: "('p, 's, 'a) Problem \<Rightarrow> 'p \<Rightarrow> 'a outcome \<Rightarrow> bool" where
  "sound_outcome P p v \<longleftrightarrow>
     (fst v = [] \<and> fst (snd v) = Infinity)
     \<or> (\<exists>s0 s2. fst (snd v) = Finite s2 \<and> trail P p (s0, fst v, s2, True))"

text \<open>The cost a search returned.\<close>

definition returned_cost :: "'a outcome \<times> metrics \<Rightarrow> cost" where
  "returned_cost r = fst (snd (fst r))"

text \<open>
  The text of a board, as \<^verbatim>\<open>getState\<close> writes it: the tiles of a row separated by
  one blank, every row closed by a line feed.
\<close>

definition row_text :: "int list \<Rightarrow> string" where
  "row_text ts = str_int (hd ts) @ concat (map (\<lambda>u. CHR '' '' # str_int u) (tl ts))"

definition board_text :: "int list list \<Rightarrow> string" where
  "board_text B = concat (map (\<lambda>row. row_text row @ [CHR 0x0A]) B)"

text \<open>
  The number of tiles that are not at their place, counted along the rows, and the
  flags \<^verbatim>\<open>setState\<close> keeps for the tiles met so far.
\<close>

definition mis :: "int list \<Rightarrow> int" where
  "mis F = (\<Sum>k<length F. if F ! k \<noteq> int k then 1 else 0)"

definition seen_of :: "nat \<Rightarrow> int list \<Rightarrow> bool list" where
  "seen_of N F = map (\<lambda>k. int k \<in> set F) [0..<N]"

text \<open>The position \<^verbatim>\<open>setState\<close> records for the blank while it reads the tiles.\<close>

fun scan_pos ::
  "int \<Rightarrow> int \<Rightarrow> int \<Rightarrow> int list \<Rightarrow> (int \<times> int) option \<Rightarrow> (int \<times> int) option" where
  "scan_pos b i j [] acc = acc"
| "scan_pos b i j (t # ts) acc = scan_pos b i (j + 1) ts (if t = b then Some (i, j) else acc)"

fun scan_rows ::
  "int \<Rightarrow> int \<Rightarrow> int list list \<Rightarrow> (int \<times> int) option \<Rightarrow> (int \<times> int) option" where
  "scan_rows b i [] acc = acc"
| "scan_rows b i (row # rows) acc = scan_rows b (i + 1) rows (scan_pos b i 0 row acc)"

text \<open>
  A board of \<open>R\<close> rows and \<open>C\<close> columns whose tiles are distinct numbers from 0 to
  \<open>R * C - 1\<close>; and a puzzle in a state its methods produce: such a board, the
  position of the blank, and the number of misplaced tiles.
\<close>

definition valid_board :: "int \<Rightarrow> int \<Rightarrow> int list list \<Rightarrow> bool" where
  "valid_board R C B \<longleftrightarrow>
     1 \<le> R \<and> 1 \<le> C \<and> int (length B) = R \<and> (\<forall>row \<in> set B. int (length row) = C)
     \<and> distinct (concat B) \<and> (\<forall>t \<in> set (concat B). 0 \<le> t \<and> t < R * C)"

definition sp_valid :: "SlidingPuzzle \<Rightarrow> bool" where
  "sp_valid p \<longleftrightarrow>
     valid_board (numR p) (numC p) (board p)
     \<and> numMisplaced p = mis (concat (board p))
     \<and> (\<exists>r c. pos p = Some (int r, int c) \<and> r < length (board p)
            \<and> c < length (board p ! r) \<and> board p ! r ! c = blank p)"

text \<open>
  A string reads as a board when its lines, up to the last line feed, split at white
  space and read as integers by \<^verbatim>\<open>int\<close>, give the rows of the board. The text
  \<^verbatim>\<open>getState\<close> writes for a board reads as that board, and so do other spellings
  (more blanks, a plus sign, leading zeros).
\<close>

definition reads :: "string \<Rightarrow> int list list \<Rightarrow> bool" where
  "reads s B \<longleftrightarrow>
     map (\<lambda>row. map py_int (split_ws row)) (butlast (split_on (CHR 0x0A) s)) = map (map Inr) B"

text \<open>
  A move that \<^verbatim>\<open>move\<close> accepts: one of the four directions, and the blank stays on
  the board.
\<close>

definition legal :: "SlidingPuzzle \<Rightarrow> int \<times> int \<Rightarrow> bool" where
  "legal p a \<longleftrightarrow>
     a \<in> set [(- 1, 0), (0, - 1), (0, 1), (1, 0)]
     \<and> (case pos p of None \<Rightarrow> False
         | Some (p0, p1) \<Rightarrow> 0 \<le> p0 + fst a \<and> p0 + fst a < numR p
                            \<and> 0 \<le> p1 + snd a \<and> p1 + snd a < numC p)"

text \<open>
  A successor tuple as \<^verbatim>\<open>getSuccessors\<close> builds it from the puzzle \<open>q\<close>: the move is
  made on \<open>q\<close>, and the tuple holds the text of the board after the move, the move, the
  cost 1 and whether the puzzle is solved after the move.
\<close>

definition succ_of :: "SlidingPuzzle \<Rightarrow> (string, int \<times> int) successor \<Rightarrow> bool" where
  "succ_of q e \<longleftrightarrow>
     (\<exists>q'. sp_move q (fst (snd e)) = Inr (1, q') \<and> sp_valid q'
        \<and> numR q' = numR q \<and> numC q' = numC q \<and> blank q' = blank q
        \<and> e = (board_text (board q'), fst (snd e), 1, sp_isSolved q'))"

section \<open>Example inputs\<close>

text \<open>
  A problem given by a successor table and a goal test on natural numbers; the
  problem object is its current state.
\<close>

definition table_problem ::
  "(nat \<Rightarrow> (nat, nat) successor list) \<Rightarrow> (nat \<Rightarrow> bool) \<Rightarrow> (nat, nat, nat) Problem" where
  "table_problem succs goal =
     \<lparr>getState = (\<lambda>p. p), setState = (\<lambda>p s. s), isSolved = goal, getSuccessors = (\<lambda>p. succs)\<rparr>"

text \<open>
  Four states: 0 leads to 2 at cost 4 and to 1 at cost 1, 1 leads to 2 at cost 1,
  2 leads to the goal 3 at cost 10. Actions are named by the state they lead to.
\<close>

definition ex_succs :: "nat \<Rightarrow> (nat, nat) successor list" where
  "ex_succs s = (if s = 0 then [(2, 2, 4, False), (1, 1, 1, False)]
                 else if s = 1 then [(2, 2, 1, False)]
                 else if s = 2 then [(3, 3, 10, True)]
                 else [])"

definition ex_goal :: "nat \<Rightarrow> bool" where
  "ex_goal s = (s = 3)"

definition ex_problem :: "(nat, nat, nat) Problem" where
  "ex_problem = table_problem ex_succs ex_goal"

text \<open>The same table with no goal at all.\<close>

definition ex_nogoal_succs :: "nat \<Rightarrow> (nat, nat) successor list" where
  "ex_nogoal_succs s = (if s = 0 then [(1, 1, 1, False)]
                 else if s = 1 then [(0, 0, 1, False)]
                 else [])"

definition ex_nogoal :: "(nat, nat, nat) Problem" where
  "ex_nogoal = table_problem ex_nogoal_succs (\<lambda>p. False)"

text \<open>A diamond with unit costs: 0 leads to 1 and 2, both lead to the goal 3.\<close>

definition ex_diamond_succs :: "nat \<Rightarrow> (nat, nat) successor list" where
  "ex_diamond_succs s = (if s = 0 then [(1, 1, 1, False), (2, 2, 1, False)]
                 else if s = 1 then [(3, 3, 1, True)]
                 else if s = 2 then [(3, 3, 1, True)]
                 else [])"

definition ex_diamond :: "(nat, nat, nat) Problem" where
  "ex_diamond = table_problem ex_diamond_succs ex_goal"

text \<open>An estimate that is 11 at state 1 and 0 elsewhere.\<close>

definition ex_h :: "nat \<Rightarrow> int" where
  "ex_h s = (if s = 1 then 11 else 0)"

text \<open>The estimate that is 0 everywhere.\<close>

definition ex_h0 :: "nat \<Rightarrow> int" where
  "ex_h0 s = 0"

text \<open>
  Items of two kinds: strings, which Python orders, and dictionaries, which it does
  not: \<^verbatim>\<open><\<close> between two dictionaries, or between a string and a dictionary, raises
  TypeError.
\<close>

datatype payload = Text string | Dict "(string \<times> int) list"

fun payload_lt :: "payload \<Rightarrow> payload \<Rightarrow> error + bool" where
  "payload_lt (Text a) (Text b) = Inr (a < b)"
| "payload_lt (Text a) (Dict b) = Inl TypeError"
| "payload_lt (Dict a) (Text b) = Inl TypeError"
| "payload_lt (Dict a) (Dict b) = Inl TypeError"

text \<open>An estimate that is consistent on the four-state table: the cost left to the goal.\<close>

definition ex_hc :: "nat \<Rightarrow> int" where
  "ex_hc s = (if s = 0 then 12 else if s = 1 then 11 else if s = 2 then 10 else 0)"

text \<open>
  The 2 by 2 puzzle one move away from the goal: the blank at row 0, column 1. And the
  state string of the solved 2 by 2 puzzle.
\<close>

definition p21 :: SlidingPuzzle where
  "p21 = \<lparr>numR = 2, numC = 2, board = [[1, 0], [2, 3]], blank = 0, pos = Some (0, 1),
          numMisplaced = 2\<rparr>"

definition s_goal :: string where
  "s_goal = ''0 1'' @ [CHR 0x0A] @ ''2 3'' @ [CHR 0x0A]"

(*DEFS-END*)

section \<open>The priority queue\<close>

lemma pair_lt_py: "pair_lt py_lt = py_lt"
  by (auto simp: pair_lt_def py_lt_def fun_eq_iff less_prod_def)

lemma mset_move:
  assumes "j < length h" "q < length h" "q \<noteq> j"
  shows "mset ((h[j := h ! q])[q := x]) = mset (h[j := x])"
proof -
  let ?g = "h[j := x]"
  have "mset (?g[j := ?g ! q, q := ?g ! j]) = mset ?g"
    by (rule mset_swap) (use assms in simp_all)
  moreover have "?g[j := ?g ! q, q := ?g ! j] = (h[j := h ! q])[q := x]"
    using assms by (simp add: list_update_swap)
  ultimately show ?thesis by simp
qed

lemma siftdown_loop_total:
  assumes "j < length h"
  shows "\<exists>h'. siftdown_loop py_lt h 0 j x = Inr h' \<and> mset h' = mset (h[j := x])
           \<and> (hole_inv h j \<and> gp_inv h j \<and> above x h j \<longrightarrow> heap_inv h')"
  using assms
proof (induction j arbitrary: h rule: less_induct)
  case (less j)
  let ?pp = "(j - 1) div 2"
  show ?case
  proof (cases "0 < j \<and> x < h ! ?pp")
    case True
    then have pp: "?pp < j" by arith
    let ?h1 = "h[j := h ! ?pp]"
    from less.prems pp have len: "?pp < length ?h1" by simp
    from less.IH [OF pp len, of] obtain h' where
      r: "siftdown_loop py_lt ?h1 0 ?pp x = Inr h'" and m: "mset h' = mset (?h1[?pp := x])"
      and i: "hole_inv ?h1 ?pp \<and> gp_inv ?h1 ?pp \<and> above x ?h1 ?pp \<longrightarrow> heap_inv h'" by blast
    have 1: "siftdown_loop py_lt h 0 j x = Inr h'"
      using True r by (subst siftdown_loop.simps) (simp add: py_lt_def Let_def)
    have 2: "mset h' = mset (h[j := x])"
      using m mset_move [of j h ?pp x] less.prems pp by simp
    have 3: "heap_inv h'" if a: "hole_inv h j" and b: "gp_inv h j" and c: "above x h j"
    proof -
      have "hole_inv ?h1 ?pp"
        unfolding hole_inv_def
      proof (intro allI impI)
        fix i assume i: "i < length ?h1" "0 < i \<and> i \<noteq> ?pp \<and> (i - 1) div 2 \<noteq> ?pp"
        then have ip: "i \<noteq> j" by auto
        show "?h1 ! ((i - 1) div 2) \<le> ?h1 ! i"
        proof (cases "(i - 1) div 2 = j")
          case True
          with b i True pp have "h ! ?pp \<le> h ! i" unfolding gp_inv_def by auto
          with True ip less.prems show ?thesis by simp
        next
          case False
          with a i ip have "h ! ((i - 1) div 2) \<le> h ! i" unfolding hole_inv_def by auto
          with False ip show ?thesis by simp
        qed
      qed
      moreover have hpp: "0 < ?pp \<Longrightarrow> h ! ((?pp - 1) div 2) \<le> h ! ?pp"
      proof -
        assume "0 < ?pp"
        moreover have "(?pp - 1) div 2 \<noteq> j" using pp by arith
        ultimately show ?thesis using a pp less.prems unfolding hole_inv_def by auto
      qed
      have sib: "h ! ?pp \<le> h ! c" if "c < length h" "0 < c" "(c - 1) div 2 = ?pp" "c \<noteq> j" for c
        using a that pp unfolding hole_inv_def by auto
      have "gp_inv ?h1 ?pp"
        unfolding gp_inv_def
      proof (intro allI impI)
        fix c assume c: "c < length ?h1" "0 < c \<and> (c - 1) div 2 = ?pp \<and> 0 < ?pp"
        have np: "(?pp - 1) div 2 \<noteq> j" using pp by arith
        show "?h1 ! ((?pp - 1) div 2) \<le> ?h1 ! c"
        proof (cases "c = j")
          case True
          with hpp c np less.prems show ?thesis by simp
        next
          case False
          from sib [of c] c False have "h ! ?pp \<le> h ! c" by simp
          with hpp c have "h ! ((?pp - 1) div 2) \<le> h ! c" by (meson order_trans)
          with False np show ?thesis by simp
        qed
      qed
      moreover have "above x ?h1 ?pp"
        unfolding above_def
      proof (intro allI impI)
        fix c assume c: "c < length ?h1" "0 < c \<and> (c - 1) div 2 = ?pp"
        show "x \<le> ?h1 ! c"
        proof (cases "c = j")
          case True
          with True \<open>0 < j \<and> x < h ! ?pp\<close> less.prems show ?thesis by (simp add: less_imp_le)
        next
          case False
          from sib [of c] c False have "h ! ?pp \<le> h ! c" by simp
          with \<open>0 < j \<and> x < h ! ?pp\<close> have "x \<le> h ! c" by (meson less_le_trans less_imp_le)
          with False show ?thesis by simp
        qed
      qed
      ultimately show ?thesis using i by simp
    qed
    from 1 2 3 show ?thesis by blast
  next
    case False
    have 1: "siftdown_loop py_lt h 0 j x = Inr (h[j := x])"
      using False by (subst siftdown_loop.simps) (auto simp: py_lt_def Let_def)
    have "heap_inv (h[j := x])" if a: "hole_inv h j" and c: "above x h j"
      unfolding heap_inv_def
    proof (intro allI impI)
      fix i assume i: "i < length (h[j := x])" "0 < i"
      have ne: "(i - 1) div 2 \<noteq> i" using i by arith
      show "h[j := x] ! ((i - 1) div 2) \<le> h[j := x] ! i"
      proof (cases "i = j")
        case True
        with False i have "h ! ?pp \<le> x" by simp
        with True ne less.prems show ?thesis by simp
      next
        case np: False
        show ?thesis
        proof (cases "(i - 1) div 2 = j")
          case True
          with c i have "x \<le> h ! i" unfolding above_def by auto
          with True np less.prems show ?thesis by simp
        next
          case False
          with a i np have "h ! ((i - 1) div 2) \<le> h ! i" unfolding hole_inv_def by auto
          with False np show ?thesis by simp
        qed
      qed
    qed
    with 1 show ?thesis by blast
  qed
qed

lemma child_iff:
  "0 < (c::nat) \<Longrightarrow> ((c - 1) div 2 = j) = (c = 2 * j + 1 \<or> c = 2 * j + 2)"
  by arith

lemma smaller_child_total:
  assumes "2 * j + 1 < length (h :: ('x::linorder) list)"
  shows "\<exists>c. smaller_child py_lt h (length h) (2 * j + 1) = Inr c \<and> c < length h \<and> 0 < c
           \<and> (c - 1) div 2 = j
           \<and> (\<forall>d<length h. 0 < d \<and> (d - 1) div 2 = j \<longrightarrow> h ! c \<le> h ! d)"
proof (cases "2 * j + 2 < length h \<and> \<not> h ! (2 * j + 1) < h ! (2 * j + 2)")
  case True
  then have "smaller_child py_lt h (length h) (2 * j + 1) = Inr (2 * j + 2)"
    by (simp add: smaller_child_def py_lt_def Let_def)
  moreover have "h ! (2 * j + 2) \<le> h ! d" if "d < length h" "0 < d" "(d - 1) div 2 = j" for d
  proof -
    from that child_iff [of d j] have "d = 2 * j + 1 \<or> d = 2 * j + 2" by simp
    with True show ?thesis by auto
  qed
  moreover have "(2 * j + 2 - 1) div 2 = j" by arith
  ultimately show ?thesis using True by auto
next
  case False
  then have "smaller_child py_lt h (length h) (2 * j + 1) = Inr (2 * j + 1)"
    by (auto simp: smaller_child_def py_lt_def Let_def)
  moreover have "h ! (2 * j + 1) \<le> h ! d" if "d < length h" "0 < d" "(d - 1) div 2 = j" for d
  proof -
    from that child_iff [of d j] have "d = 2 * j + 1 \<or> d = 2 * j + 2" by simp
    with False that show ?thesis by (auto simp: less_imp_le)
  qed
  moreover have "(2 * j + 1 - 1) div 2 = j" by arith
  ultimately show ?thesis using assms by auto
qed

lemma siftup_loop_total:
  assumes "j < length (h :: ('x::linorder) list)"
  shows "\<exists>h' j'. siftup_loop py_lt h (length h) j = Inr (h', j') \<and> j' < length h
           \<and> length h' = length h \<and> \<not> 2 * j' + 1 < length h
           \<and> (\<forall>x. mset (h'[j' := x]) = mset (h[j := x]))
           \<and> (hole_inv h j \<and> gp_inv h j \<longrightarrow> hole_inv h' j')"
  using assms
proof (induction "length h - j" arbitrary: h j rule: less_induct)
  case less
  show ?case
  proof (cases "2 * j + 1 < length h")
    case False
    then have "siftup_loop py_lt h (length h) j = Inr (h, j)"
      by (subst siftup_loop.simps) (simp add: Let_def)
    with False less.prems show ?thesis by simp
  next
    case True
    from smaller_child_total [OF True] obtain c where
      sc: "smaller_child py_lt h (length h) (2 * j + 1) = Inr c" and c: "c < length h" "0 < c"
      and pc: "(c - 1) div 2 = j"
      and least: "\<forall>d<length h. 0 < d \<and> (d - 1) div 2 = j \<longrightarrow> h ! c \<le> h ! d" by blast
    from pc c have cp: "j < c" by arith
    let ?h1 = "h[j := h ! c]"
    have "length ?h1 - c < length h - j" using cp c by simp
    moreover have "c < length ?h1" using c by simp
    ultimately obtain h' j' where
      r: "siftup_loop py_lt ?h1 (length ?h1) c = Inr (h', j')" and p': "j' < length ?h1"
      and l: "length h' = length ?h1" and leaf: "\<not> 2 * j' + 1 < length ?h1"
      and m: "\<forall>x. mset (h'[j' := x]) = mset (?h1[c := x])"
      and i: "hole_inv ?h1 c \<and> gp_inv ?h1 c \<longrightarrow> hole_inv h' j'"
      using less.hyps [of ?h1 c] by blast
    have 1: "siftup_loop py_lt h (length h) j = Inr (h', j')"
      using True sc r by (subst siftup_loop.simps) (simp add: Let_def)
    have 2: "mset (h'[j' := x]) = mset (h[j := x])" for x
      using m mset_move [of j h c x] less.prems c cp by simp
    have 3: "hole_inv h' j'" if a: "hole_inv h j" and b: "gp_inv h j"
    proof -
      have "hole_inv ?h1 c"
        unfolding hole_inv_def
      proof (intro allI impI)
        fix i assume i: "i < length ?h1" "0 < i \<and> i \<noteq> c \<and> (i - 1) div 2 \<noteq> c"
        have ne: "(i - 1) div 2 \<noteq> i" using i by arith
        show "?h1 ! ((i - 1) div 2) \<le> ?h1 ! i"
        proof (cases "i = j")
          case True
          with b c pc i have "h ! ((j - 1) div 2) \<le> h ! c" unfolding gp_inv_def by auto
          with True ne less.prems show ?thesis by simp
        next
          case np: False
          show ?thesis
          proof (cases "(i - 1) div 2 = j")
            case True
            with least i have "h ! c \<le> h ! i" by auto
            with True np less.prems show ?thesis by simp
          next
            case False
            with a i np have "h ! ((i - 1) div 2) \<le> h ! i" unfolding hole_inv_def by auto
            with False np show ?thesis by simp
          qed
        qed
      qed
      moreover have "gp_inv ?h1 c"
        unfolding gp_inv_def
      proof (intro allI impI)
        fix d assume d: "d < length ?h1" "0 < d \<and> (d - 1) div 2 = c \<and> 0 < c"
        then have dc: "c < d" by arith
        with cp have dp: "d \<noteq> j" "(d - 1) div 2 \<noteq> j" using d by auto
        with a d have "h ! c \<le> h ! d" unfolding hole_inv_def by auto
        with dp pc less.prems show "?h1 ! ((c - 1) div 2) \<le> ?h1 ! d" by simp
      qed
      ultimately show ?thesis using i by simp
    qed
    from 1 2 3 p' l leaf show ?thesis by auto
  qed
qed

lemma hole_inv_update: "hole_inv (h[j := x]) j = hole_inv h j"
  unfolding hole_inv_def by (auto simp: nth_list_update)

lemma heap_inv_root:
  assumes "heap_inv h" "i < length h"
  shows "h ! 0 \<le> h ! i"
  using assms(2)
proof (induction i rule: less_induct)
  case (less i)
  show ?case
  proof (cases "i = 0")
    case True then show ?thesis by simp
  next
    case False
    then have p: "(i - 1) div 2 < i" by arith
    with less.prems have "(i - 1) div 2 < length h" by simp
    from less.IH [OF p this] have "h ! 0 \<le> h ! ((i - 1) div 2)" .
    moreover from assms(1) less.prems False have "h ! ((i - 1) div 2) \<le> h ! i"
      unfolding heap_inv_def by simp
    ultimately show ?thesis by (rule order_trans)
  qed
qed

lemma heappush_total:
  "\<exists>h'. heappush py_lt (h :: ('x::linorder) list) x = Inr h' \<and> mset h' = add_mset x (mset h)
         \<and> (heap_inv h \<longrightarrow> heap_inv h')"
proof -
  let ?h1 = "h @ [x]"
  let ?n = "length h"
  have n: "?n < length ?h1" by simp
  from siftdown_loop_total [OF n, of x] obtain h' where
    r: "siftdown_loop py_lt ?h1 0 ?n x = Inr h'" and m: "mset h' = mset (?h1[?n := x])"
    and i: "hole_inv ?h1 ?n \<and> gp_inv ?h1 ?n \<and> above x ?h1 ?n \<longrightarrow> heap_inv h'" by blast
  have 1: "heappush py_lt h x = Inr h'" using r by (simp add: heappush_def siftdown_def Let_def)
  have 2: "mset h' = add_mset x (mset h)" using m by simp
  have 3: "heap_inv h'" if a: "heap_inv h"
  proof -
    have "hole_inv ?h1 ?n"
      unfolding hole_inv_def
    proof (intro allI impI)
      fix i assume i: "i < length ?h1" "0 < i \<and> i \<noteq> ?n \<and> (i - 1) div 2 \<noteq> ?n"
      then have "i < ?n" by simp
      moreover then have "(i - 1) div 2 < ?n" by arith
      ultimately show "?h1 ! ((i - 1) div 2) \<le> ?h1 ! i"
        using a i unfolding heap_inv_def by (simp add: nth_append)
    qed
    moreover have nochild: "\<not> (c < length ?h1 \<and> 0 < c \<and> (c - 1) div 2 = ?n)" for c
      using child_iff [of c ?n] by auto
    have "gp_inv ?h1 ?n" unfolding gp_inv_def using nochild by blast
    moreover have "above x ?h1 ?n" unfolding above_def using nochild by blast
    ultimately show ?thesis using i by simp
  qed
  from 1 2 3 show ?thesis by blast
qed

lemma heappop_total:
  assumes "(h :: ('x::linorder) list) \<noteq> []"
  shows "\<exists>h'. heappop py_lt h = Inr (h ! 0, h') \<and> mset h = add_mset (h ! 0) (mset h')
           \<and> (heap_inv h \<longrightarrow> heap_inv h' \<and> (\<forall>y \<in> set h. h ! 0 \<le> y))"
proof -
  have root: "\<forall>y \<in> set h. h ! 0 \<le> y" if "heap_inv h"
    using heap_inv_root [OF that] by (auto simp: in_set_conv_nth)
  show ?thesis
  proof (cases "butlast h = []")
    case True
    with assms have h: "h = [last h]" by (metis append_butlast_last_id append_Nil)
    then have "h ! 0 = last h" by (metis nth_Cons_0)
    with True assms have "heappop py_lt h = Inr (h ! 0, [])" by (simp add: heappop_def Let_def)
    moreover have "mset h = add_mset (h ! 0) (mset [])" using h \<open>h ! 0 = last h\<close> by (metis mset.simps mset_single_iff_right add_mset_commute)
    moreover have "heap_inv []" by (simp add: heap_inv_def)
    ultimately show ?thesis using root by blast
  next
    case False
    let ?b = "butlast h"
    let ?x = "last h"
    let ?h2 = "?b[0 := ?x]"
    have b0: "0 < length ?b" using False by (simp del: length_butlast)
    then have h20: "0 < length ?h2" by simp
    have hb: "h = ?b @ [?x]" using assms by simp
    have bn: "?b ! i = h ! i" if "i < length ?b" for i using that by (simp add: nth_butlast)
    from siftup_loop_total [OF h20] obtain h3 j' where
      r: "siftup_loop py_lt ?h2 (length ?h2) 0 = Inr (h3, j')" and p': "j' < length ?h2"
      and l: "length h3 = length ?h2" and leaf: "\<not> 2 * j' + 1 < length ?h2"
      and m: "\<forall>x. mset (h3[j' := x]) = mset (?h2[0 := x])"
      and i: "hole_inv ?h2 0 \<and> gp_inv ?h2 0 \<longrightarrow> hole_inv h3 j'" by blast
    let ?h4 = "h3[j' := ?x]"
    have p4: "j' < length ?h4" using p' l by simp
    from siftdown_loop_total [OF p4, of ?x] obtain h' where
      r': "siftdown_loop py_lt ?h4 0 j' ?x = Inr h'" and m': "mset h' = mset (?h4[j' := ?x])"
      and i': "hole_inv ?h4 j' \<and> gp_inv ?h4 j' \<and> above ?x ?h4 j' \<longrightarrow> heap_inv h'"
      by blast
    have x4: "?h4 ! j' = ?x" using p' l by simp
    have x2: "?h2 ! 0 = ?x" using b0 by simp
    have 1: "heappop py_lt h = Inr (h ! 0, h')"
      using assms False r r' x4 x2 bn [OF b0]
      by (simp add: heappop_def siftup_def siftdown_def Let_def)
    have "mset h' = mset ?h2" using m' m by simp
    also have "\<dots> = add_mset ?x (mset ?b - {#?b ! 0#})" using b0 by (simp add: mset_update)
    finally have mh: "mset h' = add_mset ?x (mset ?b - {#?b ! 0#})" .
    have "mset h = add_mset ?x (mset ?b)" by (subst hb) simp
    moreover have "?b ! 0 \<in># mset ?b" using b0 by simp
    ultimately have 2: "mset h = add_mset (h ! 0) (mset h')"
      using mh bn [OF b0] by simp
    have 3: "heap_inv h'" if a: "heap_inv h"
    proof -
      have "hole_inv ?h2 0"
        unfolding hole_inv_def
      proof (intro allI impI)
        fix i assume i: "i < length ?h2" "0 < i \<and> i \<noteq> 0 \<and> (i - 1) div 2 \<noteq> 0"
        then have ib: "i < length ?b" "(i - 1) div 2 < length ?b" by auto
        from i a have "h ! ((i - 1) div 2) \<le> h ! i" unfolding heap_inv_def by simp
        with i ib bn show "?h2 ! ((i - 1) div 2) \<le> ?h2 ! i" by simp
      qed
      moreover have "gp_inv ?h2 0" by (simp add: gp_inv_def)
      ultimately have "hole_inv h3 j'" using i by simp
      then have "hole_inv ?h4 j'" by (simp add: hole_inv_update)
      moreover have nochild: "\<not> (c < length ?h4 \<and> 0 < c \<and> (c - 1) div 2 = j')" for c
        using leaf l child_iff [of c j'] by auto
      have "gp_inv ?h4 j'" unfolding gp_inv_def using nochild by blast
      moreover have "above ?x ?h4 j'" unfolding above_def using nochild by blast
      ultimately show ?thesis using i' by simp
    qed
    from 1 2 3 root show ?thesis by blast
  qed
qed

lemma push_ordered:
  "\<exists>h'. push py_lt q item priority = Inr (q\<lparr>heap := h'\<rparr>)
         \<and> mset h' = add_mset (priority, item) (mset (heap q))
         \<and> (heap_inv (heap q) \<longrightarrow> heap_inv h')"
proof -
  from heappush_total [of "heap q" "(priority, item)"] obtain h' where
    "heappush py_lt (heap q) (priority, item) = Inr h'"
    "mset h' = add_mset (priority, item) (mset (heap q))"
    "heap_inv (heap q) \<longrightarrow> heap_inv h'" by blast
  then have "push py_lt q item priority = Inr (q\<lparr>heap := h'\<rparr>)
         \<and> mset h' = add_mset (priority, item) (mset (heap q))
         \<and> (heap_inv (heap q) \<longrightarrow> heap_inv h')"
    by (simp add: push_def pair_lt_py Let_def)
  then show ?thesis by (rule exI)
qed

lemma pop_ordered:
  assumes "heap q \<noteq> []"
  shows "\<exists>h'. pop py_lt q = Inr ((snd (heap q ! 0), fst (heap q ! 0)), q\<lparr>heap := h'\<rparr>)
         \<and> mset (heap q) = add_mset (heap q ! 0) (mset h')
         \<and> (heap_inv (heap q) \<longrightarrow> heap_inv h' \<and> (\<forall>y \<in> set (heap q). heap q ! 0 \<le> y))"
proof -
  from heappop_total [OF assms] obtain h' where
    "heappop py_lt (heap q) = Inr (heap q ! 0, h')"
    "mset (heap q) = add_mset (heap q ! 0) (mset h')"
    "heap_inv (heap q) \<longrightarrow> heap_inv h' \<and> (\<forall>y \<in> set (heap q). heap q ! 0 \<le> y)" by blast
  then have "pop py_lt q = Inr ((snd (heap q ! 0), fst (heap q ! 0)), q\<lparr>heap := h'\<rparr>)
         \<and> mset (heap q) = add_mset (heap q ! 0) (mset h')
         \<and> (heap_inv (heap q) \<longrightarrow> heap_inv h' \<and> (\<forall>y \<in> set (heap q). heap q ! 0 \<le> y))"
    by (simp add: pop_def pair_lt_py split: prod.splits)
  then show ?thesis by (rule exI)
qed

lemmas heap_defs = push_def pop_def heappush_def heappop_def siftdown_def siftup_def
  siftdown_loop.simps siftup_loop.simps smaller_child_def pair_lt_def py_lt_def
  isEmpty_def getSize_def PriorityQueue_init_def Let_def

text \<open>
  Claim C9. The claim: on every queue built by pushes, \<^verbatim>\<open>pop\<close> on a non-empty queue
  removes and returns an item whose priority is smallest. The code does not do that
  when two priorities tie and the items cannot be ordered: three dictionaries are
  pushed with the priorities 1, 2 and 2, every push returns, the queue holds three
  entries, and \<^verbatim>\<open>pop\<close> raises TypeError instead of returning the dictionary of
  priority 1. (\<^verbatim>\<open>heappop\<close> moves the last entry to the root and sifts it; the sift
  compares the two entries of priority 2, and with them the two dictionaries.)
\<close>

theorem PriorityQueue_pop_unorderable:
  "push payload_lt PriorityQueue_init (Dict [(''a'', 1)]) (1 :: int)
     = Inr \<lparr>heap = [(1, Dict [(''a'', 1)])]\<rparr>
   \<and> push payload_lt \<lparr>heap = [(1 :: int, Dict [(''a'', 1)])]\<rparr> (Dict [(''b'', 2)]) 2
     = Inr \<lparr>heap = [(1, Dict [(''a'', 1)]), (2, Dict [(''b'', 2)])]\<rparr>
   \<and> push payload_lt \<lparr>heap = [(1 :: int, Dict [(''a'', 1)]), (2, Dict [(''b'', 2)])]\<rparr>
       (Dict [(''c'', 3)]) 2
     = Inr \<lparr>heap = [(1, Dict [(''a'', 1)]), (2, Dict [(''b'', 2)]), (2, Dict [(''c'', 3)])]\<rparr>
   \<and> \<not> isEmpty \<lparr>heap = [(1 :: int, Dict [(''a'', 1)]), (2, Dict [(''b'', 2)]), (2, Dict [(''c'', 3)])]\<rparr>
   \<and> getSize \<lparr>heap = [(1 :: int, Dict [(''a'', 1)]), (2, Dict [(''b'', 2)]), (2, Dict [(''c'', 3)])]\<rparr> = 3
   \<and> pop payload_lt
       \<lparr>heap = [(1 :: int, Dict [(''a'', 1)]), (2, Dict [(''b'', 2)]), (2, Dict [(''c'', 3)])]\<rparr>
     = Inl TypeError"
  by (simp add: heap_defs)

section \<open>The loop\<close>

lemma loop_run_Inl: "run iter k st = Inl r \<Longrightarrow> loop iter st = Some r"
proof (induction k arbitrary: st)
  case 0
  then show ?case by simp
next
  case (Suc k)
  show ?case
  proof (cases "iter st")
    case (Inl r')
    with Suc.prems show ?thesis by (subst loop.simps) simp
  next
    case (Inr st')
    with Suc.prems have "run iter k st' = Inl r" by simp
    then have "loop iter st' = Some r" by (rule Suc.IH)
    with Inr show ?thesis by (subst loop.simps) simp
  qed
qed

lemma loop_run_Inr: "run iter k st = Inr st' \<Longrightarrow> loop iter st = loop iter st'"
proof (induction k arbitrary: st)
  case 0
  then show ?case by simp
next
  case (Suc k)
  show ?case
  proof (cases "iter st")
    case (Inl r')
    with Suc.prems show ?thesis by simp
  next
    case (Inr st1)
    with Suc.prems have "run iter k st1 = Inr st'" by simp
    then have "loop iter st1 = loop iter st'" by (rule Suc.IH)
    with Inr show ?thesis by (subst loop.simps) simp
  qed
qed

lemma loop_Some_run: "loop iter st = Some r \<Longrightarrow> \<exists>k. run iter k st = Inl r"
proof (induction rule: loop.raw_induct [rotated 1, consumes 1])
  case (1 lp iter st r)
  show ?case
  proof (cases "iter st")
    case (Inl r')
    with 1(2) have "run iter (Suc 0) st = Inl r" by simp
    then show ?thesis by blast
  next
    case (Inr st')
    with 1(2) have "lp iter st' = Some r" by simp
    then obtain k where "run iter k st' = Inl r" using 1(1) by blast
    with Inr have "run iter (Suc k) st = Inl r" by simp
    then show ?thesis by blast
  qed
qed

lemma loop_terminates:
  assumes wf: "wf R"
    and step: "\<And>s s'. I s \<Longrightarrow> iter s = Inr s' \<Longrightarrow> I s' \<and> (s', s) \<in> R"
    and init: "I st"
  shows "\<exists>r. loop iter st = Some r"
  using wf init
proof (induction st rule: wf_induct_rule)
  case (less s)
  show ?case
  proof (cases "iter s")
    case (Inl r)
    then have "loop iter s = Some r" by (subst loop.simps) simp
    then show ?thesis by blast
  next
    case (Inr s')
    with step [OF less.prems] have "I s'" "(s', s) \<in> R" by auto
    then obtain r where "loop iter s' = Some r" using less.IH by blast
    with Inr have "loop iter s = Some r" by (subst loop.simps) simp
    then show ?thesis by blast
  qed
qed

lemma run_invariant:
  assumes step: "\<And>s s'. I s \<Longrightarrow> iter s = Inr s' \<Longrightarrow> I s'"
  shows "I st \<Longrightarrow> run iter k st = Inr st' \<Longrightarrow> I st'"
proof (induction k arbitrary: st)
  case 0
  then show ?case by simp
next
  case (Suc k)
  then show ?case using step by (cases "iter st") auto
qed

lemma run_result:
  assumes step: "\<And>s s'. I s \<Longrightarrow> iter s = Inr s' \<Longrightarrow> I s'"
    and fin: "\<And>s r. I s \<Longrightarrow> iter s = Inl r \<Longrightarrow> Q r"
  shows "I st \<Longrightarrow> run iter k st = Inl r \<Longrightarrow> Q r"
proof (induction k arbitrary: st)
  case 0
  then show ?case by simp
next
  case (Suc k)
  then show ?case using step fin by (cases "iter st") auto
qed

lemma loop_result:
  assumes step: "\<And>s s'. I s \<Longrightarrow> iter s = Inr s' \<Longrightarrow> I s'"
    and fin: "\<And>s r. I s \<Longrightarrow> iter s = Inl r \<Longrightarrow> Q r"
    and init: "I st" and res: "loop iter st = Some r"
  shows "Q r"
proof -
  from loop_Some_run [OF res] obtain k where "run iter k st = Inl r" by blast
  with run_result [of I iter Q st k r] step fin init show ?thesis by blast
qed

section \<open>One iteration of each loop\<close>

lemma fresh_Cons:
  "fresh vis (e # es) = (if vis (fst e) = None then e # fresh vis es else fresh vis es)"
  by (simp add: fresh_def)

lemma fresh_Nil: "fresh vis [] = []"
  by (simp add: fresh_def)

lemma fresh_filter: "fresh vis es = filter (\<lambda>e. fst e \<notin> dom vis) es"
  by (simp add: fresh_def dom_def)

lemma bfs_fold:
  "fringe (fold (bfs_insert s) succs st) = fringe st @ map (child s) (fresh (visited st) succs)
   \<and> visited (fold (bfs_insert s) succs st) = visited st
   \<and> numExpanded (fold (bfs_insert s) succs st) = numExpanded st
   \<and> totalStates (fold (bfs_insert s) succs st) = totalStates st"
proof (induction succs arbitrary: st)
  case Nil
  show ?case by (simp add: fresh_Nil)
next
  case (Cons e es)
  obtain s0 s1 s2 s3 where s: "s = (s0, s1, s2, s3)" by (cases s)
  obtain t a c g where e: "e = (t, a, c, g)" by (cases e)
  show ?case
    by (simp add: Cons.IH fresh_Cons) (simp add: bfs_insert_def child_def Let_def s e)
qed

lemma dfs_fold:
  "fringe (fold (dfs_insert s) succs st) = fringe st @ map (child s) (fresh (visited st) succs)
   \<and> visited (fold (dfs_insert s) succs st) = visited st
   \<and> numExpanded (fold (dfs_insert s) succs st) = numExpanded st
   \<and> totalStates (fold (dfs_insert s) succs st) = totalStates st"
proof (induction succs arbitrary: st)
  case Nil
  show ?case by (simp add: fresh_Nil)
next
  case (Cons e es)
  obtain s0 s1 s2 s3 where s: "s = (s0, s1, s2, s3)" by (cases s)
  obtain t a c g where e: "e = (t, a, c, g)" by (cases e)
  show ?case
    by (simp add: Cons.IH fresh_Cons) (simp add: dfs_insert_def child_def Let_def s e)
qed

lemma dls_fold:
  "fringe (fold (dls_insert s) succs st) = fringe st @ map (dchild s) (fresh (visited st) succs)
   \<and> visited (fold (dls_insert s) succs st) = visited st
   \<and> numExpanded (fold (dls_insert s) succs st) = numExpanded st
   \<and> totalStates (fold (dls_insert s) succs st) = totalStates st"
proof (induction succs arbitrary: st)
  case Nil
  show ?case by (simp add: fresh_Nil)
next
  case (Cons e es)
  obtain s0 s1 s2 s3 s4 where s: "s = (s0, s1, s2, s3, s4)" by (cases s)
  obtain t a c g where e: "e = (t, a, c, g)" by (cases e)
  show ?case
    by (simp add: Cons.IH fresh_Cons) (simp add: dls_insert_def dchild_def Let_def s e)
qed

lemma astar_for_each:
  "\<exists>st1. for_each (astar_insert h s) succs st = Inr st1
     \<and> mset (heap (fringe st1))
         = mset (heap (fringe st)) + mset (map (\<lambda>e. entry h (child s e)) (fresh (visited st) succs))
     \<and> visited st1 = visited st \<and> numExpanded st1 = numExpanded st
     \<and> (heap_inv (heap (fringe st)) \<longrightarrow> heap_inv (heap (fringe st1)))"
proof (induction succs arbitrary: st)
  case Nil
  show ?case by (simp add: fresh_Nil)
next
  case (Cons e es)
  obtain s0 s1 s2 s3 where s: "s = (s0, s1, s2, s3)" by (cases s)
  obtain t a c g where e: "e = (t, a, c, g)" by (cases e)
  show ?case
  proof (cases "visited st t = None")
    case False
    then have "astar_insert h s e st = Inr st" by (auto simp: astar_insert_def s e)
    moreover have "fresh (visited st) (e # es) = fresh (visited st) es"
      using False by (simp add: fresh_def e)
    ultimately show ?thesis using Cons.IH [of st] by simp
  next
    case True
    from push_ordered [of "fringe st" "(t, s1 @ [a], s2 + c, g)" "s2 + c + h t"] obtain h' where
      p: "push py_lt (fringe st) (t, s1 @ [a], s2 + c, g) (s2 + c + h t) = Inr ((fringe st)\<lparr>heap := h'\<rparr>)"
      and m: "mset h' = add_mset (s2 + c + h t, (t, s1 @ [a], s2 + c, g)) (mset (heap (fringe st)))"
      and i: "heap_inv (heap (fringe st)) \<longrightarrow> heap_inv h'" by blast
    let ?st = "st\<lparr>fringe := (fringe st)\<lparr>heap := h'\<rparr>, inFringe := (inFringe st)(t \<mapsto> True)\<rparr>"
    have ins: "astar_insert h s e st = Inr ?st"
      using True p by (simp add: astar_insert_def s e Let_def)
    have fr: "fresh (visited st) (e # es) = e # fresh (visited st) es"
      using True by (simp add: fresh_def e)
    have en: "entry h (child s e) = (s2 + c + h t, (t, s1 @ [a], s2 + c, g))"
      by (simp add: entry_def child_def s e)
    from Cons.IH [of ?st] obtain st1 where
      r: "for_each (astar_insert h s) es ?st = Inr st1"
      and m1: "mset (heap (fringe st1))
         = mset (heap (fringe ?st)) + mset (map (\<lambda>e. entry h (child s e)) (fresh (visited ?st) es))"
      and v1: "visited st1 = visited ?st" "numExpanded st1 = numExpanded ?st"
      and i1: "heap_inv (heap (fringe ?st)) \<longrightarrow> heap_inv (heap (fringe st1))" by blast
    have "for_each (astar_insert h s) (e # es) st = Inr st1" using ins r by simp
    moreover have "mset (heap (fringe st1))
         = mset (heap (fringe st)) + mset (map (\<lambda>e. entry h (child s e)) (fresh (visited st) (e # es)))"
      using m1 m by (simp add: fr en)
    moreover have "visited st1 = visited st" "numExpanded st1 = numExpanded st" using v1 by simp_all
    moreover have "heap_inv (heap (fringe st)) \<longrightarrow> heap_inv (heap (fringe st1))" using i i1 by simp
    ultimately show ?thesis by blast
  qed
qed

lemma bfs_iter_Inr:
  assumes "bfs_iter P p st = Inr st'"
  shows "\<exists>s0 s1 s2 rest. fringe st = (s0, s1, s2, False) # rest
     \<and> (if visited st s0 = None
        then fringe st' = rest @ map (child (s0, s1, s2, False))
                 (fresh ((visited st)(s0 \<mapsto> True)) (getSuccessors P p s0))
           \<and> visited st' = (visited st)(s0 \<mapsto> True) \<and> numExpanded st' = Suc (numExpanded st)
        else fringe st' = rest \<and> visited st' = visited st \<and> numExpanded st' = numExpanded st)"
proof (cases "fringe st")
  case Nil
  with assms show ?thesis by (simp add: bfs_iter_def)
next
  case (Cons s rest)
  obtain s0 s1 s2 s3 where s: "s = (s0, s1, s2, s3)" by (cases s)
  from assms Cons s have g: "\<not> s3" by (auto simp: bfs_iter_def Let_def split: if_splits)
  show ?thesis
  proof (cases "visited st s0 = None")
    case True
    with assms Cons s g have "st' = fold (bfs_insert (s0, s1, s2, False))
        (getSuccessors P p s0)
        (st\<lparr>fringe := rest, inFringe := (inFringe st)(s0 \<mapsto> False),
             numExpanded := numExpanded st + 1, totalStates := numExpanded st + 1,
             visited := (visited st)(s0 \<mapsto> True)\<rparr>)"
      by (simp add: bfs_iter_def Let_def)
    then show ?thesis using Cons s g True by (simp add: bfs_fold)
  next
    case False
    with assms Cons s g show ?thesis by (auto simp: bfs_iter_def Let_def)
  qed
qed

lemma bfs_iter_Inl:
  assumes "bfs_iter P p st = Inl r"
  shows "(fringe st = [] \<and> r = (([], Infinity, numExpanded st), globals st))
     \<or> (\<exists>s0 s1 s2 rest m. fringe st = (s0, s1, s2, True) # rest
          \<and> r = ((s1, Finite s2, numExpanded st), m))"
proof (cases "fringe st")
  case Nil
  with assms show ?thesis by (simp add: bfs_iter_def)
next
  case (Cons s rest)
  obtain s0 s1 s2 s3 where s: "s = (s0, s1, s2, s3)" by (cases s)
  from assms Cons s show ?thesis by (auto simp: bfs_iter_def Let_def split: if_splits)
qed

lemma dfs_iter_Inr:
  assumes "dfs_iter P p st = Inr st'"
  shows "\<exists>s0 s1 s2 rest. fringe st = rest @ [(s0, s1, s2, False)]
     \<and> (if visited st s0 = None
        then fringe st' = rest @ map (child (s0, s1, s2, False))
                 (fresh ((visited st)(s0 \<mapsto> True)) (getSuccessors P p s0))
           \<and> visited st' = (visited st)(s0 \<mapsto> True) \<and> numExpanded st' = Suc (numExpanded st)
        else fringe st' = rest \<and> visited st' = visited st \<and> numExpanded st' = numExpanded st)"
proof -
  from assms have ne: "fringe st \<noteq> []" by (auto simp: dfs_iter_def)
  obtain s0 s1 s2 s3 where s: "last (fringe st) = (s0, s1, s2, s3)" by (cases "last (fringe st)")
  define rest where "rest = butlast (fringe st)"
  have fr: "fringe st = rest @ [(s0, s1, s2, s3)]"
    using ne s rest_def append_butlast_last_id [of "fringe st"] by simp
  from assms ne s have g: "\<not> s3" by (auto simp: dfs_iter_def Let_def split: if_splits)
  show ?thesis
  proof (cases "visited st s0 = None")
    case True
    with assms ne s g have "st' = fold (dfs_insert (s0, s1, s2, False))
        (getSuccessors P p s0)
        (st\<lparr>fringe := rest, inFringe := (inFringe st)(s0 \<mapsto> False),
             numExpanded := numExpanded st + 1, totalStates := numExpanded st + 1,
             visited := (visited st)(s0 \<mapsto> True)\<rparr>)"
      by (simp add: dfs_iter_def Let_def rest_def)
    then show ?thesis using fr g True by (simp add: dfs_fold)
  next
    case False
    with assms ne s g have "st' = st\<lparr>fringe := rest, inFringe := (inFringe st)(s0 \<mapsto> False)\<rparr>"
      by (auto simp: dfs_iter_def Let_def rest_def)
    with False fr g show ?thesis by auto
  qed
qed

lemma dfs_iter_Inl:
  assumes "dfs_iter P p st = Inl r"
  shows "(fringe st = [] \<and> r = (([], Infinity, numExpanded st), globals st))
     \<or> (\<exists>s0 s1 s2 rest m. fringe st = rest @ [(s0, s1, s2, True)]
          \<and> r = ((s1, Finite s2, numExpanded st), m))"
proof (cases "fringe st = []")
  case True
  with assms show ?thesis by (simp add: dfs_iter_def)
next
  case False
  obtain s0 s1 s2 s3 where s: "last (fringe st) = (s0, s1, s2, s3)" by (cases "last (fringe st)")
  have fr: "fringe st = butlast (fringe st) @ [(s0, s1, s2, s3)]"
    using False s append_butlast_last_id [of "fringe st"] by simp
  from assms False s have "s3 \<and> r = ((s1, Finite s2, numExpanded st),
      globals (st\<lparr>fringe := butlast (fringe st), inFringe := (inFringe st)(s0 \<mapsto> False)\<rparr>))"
    by (auto simp: dfs_iter_def Let_def split: if_splits)
  with fr show ?thesis by auto
qed

lemma dls_iter_Inr:
  assumes "dls_iter P p maxDepth st = Inr st'"
  shows "\<exists>s0 s1 s2 s4 rest. fringe st = rest @ [(s0, s1, s2, False, s4)]
     \<and> (if visited st s0 = None \<and> s4 < maxDepth
        then fringe st' = rest @ map (dchild (s0, s1, s2, False, s4))
                 (fresh ((visited st)(s0 \<mapsto> True)) (getSuccessors P p s0))
           \<and> visited st' = (visited st)(s0 \<mapsto> True) \<and> numExpanded st' = Suc (numExpanded st)
           \<and> totalStates st' = Suc (totalStates st)
        else fringe st' = rest \<and> visited st' = visited st \<and> numExpanded st' = numExpanded st
           \<and> totalStates st' = totalStates st)"
proof -
  from assms have ne: "fringe st \<noteq> []" by (auto simp: dls_iter_def)
  obtain s0 s1 s2 s3 s4 where s: "last (fringe st) = (s0, s1, s2, s3, s4)"
    by (cases "last (fringe st)")
  define rest where "rest = butlast (fringe st)"
  have fr: "fringe st = rest @ [(s0, s1, s2, s3, s4)]"
    using ne s rest_def append_butlast_last_id [of "fringe st"] by simp
  from assms ne s have g: "\<not> s3" by (auto simp: dls_iter_def Let_def split: if_splits)
  show ?thesis
  proof (cases "visited st s0 = None \<and> s4 < maxDepth")
    case True
    with assms ne s g have "st' = fold (dls_insert (s0, s1, s2, False, s4))
        (getSuccessors P p s0)
        (st\<lparr>fringe := rest, inFringe := (inFringe st)(s0 \<mapsto> False),
             numExpanded := numExpanded st + 1, totalStates := totalStates st + 1,
             visited := (visited st)(s0 \<mapsto> True)\<rparr>)"
      by (simp add: dls_iter_def Let_def rest_def)
    then show ?thesis using fr g True by (simp add: dls_fold)
  next
    case False
    with assms ne s g have "st' = st\<lparr>fringe := rest, inFringe := (inFringe st)(s0 \<mapsto> False)\<rparr>"
      by (auto simp: dls_iter_def Let_def rest_def)
    with False fr g show ?thesis by auto
  qed
qed

lemma dls_iter_Inl:
  assumes "dls_iter P p maxDepth st = Inl r"
  shows "(fringe st = [] \<and> r = (([], Infinity, numExpanded st), globals st))
     \<or> (\<exists>s0 s1 s2 s4 rest. fringe st = rest @ [(s0, s1, s2, True, s4)]
          \<and> r = ((s1, Finite s2, numExpanded st), globals st))"
proof (cases "fringe st = []")
  case True
  with assms show ?thesis by (simp add: dls_iter_def)
next
  case False
  obtain s0 s1 s2 s3 s4 where s: "last (fringe st) = (s0, s1, s2, s3, s4)"
    by (cases "last (fringe st)")
  have fr: "fringe st = butlast (fringe st) @ [(s0, s1, s2, s3, s4)]"
    using False s append_butlast_last_id [of "fringe st"] by simp
  from assms False s have "s3 \<and> r = ((s1, Finite s2, numExpanded st),
      globals (st\<lparr>fringe := butlast (fringe st), inFringe := (inFringe st)(s0 \<mapsto> False)\<rparr>))"
    by (auto simp: dls_iter_def Let_def split: if_splits)
  with fr show ?thesis by (auto simp: globals_def)
qed

lemma astar_iter_Inr:
  assumes "astar_iter P p h st = Inr st'"
  shows "\<exists>score s0 s1 s2. heap (fringe st) \<noteq> []
     \<and> heap (fringe st) ! 0 = (score, (s0, s1, s2, False))
     \<and> (heap_inv (heap (fringe st)) \<longrightarrow> heap_inv (heap (fringe st'))
           \<and> (\<forall>y \<in> set (heap (fringe st)). (score, (s0, s1, s2, False)) \<le> y))
     \<and> (if visited st s0 = None
        then mset (heap (fringe st'))
               = mset (heap (fringe st)) - {#(score, (s0, s1, s2, False))#}
                 + mset (map (\<lambda>e. entry h (child (s0, s1, s2, False) e))
                     (fresh ((visited st)(s0 \<mapsto> True)) (getSuccessors P p s0)))
           \<and> visited st' = (visited st)(s0 \<mapsto> True) \<and> numExpanded st' = Suc (numExpanded st)
        else mset (heap (fringe st')) = mset (heap (fringe st)) - {#(score, (s0, s1, s2, False))#}
           \<and> visited st' = visited st \<and> numExpanded st' = numExpanded st)"
proof -
  let ?H = "heap (fringe st)"
  from assms have ne: "?H \<noteq> []"
    by (auto simp: astar_iter_def isEmpty_def split: if_splits)
  obtain score s0 s1 s2 s3 where m: "?H ! 0 = (score, (s0, s1, s2, s3))"
    by (metis prod_cases4 surj_pair)
  from pop_ordered [OF ne] m obtain h' where
    pp: "pop py_lt (fringe st) = Inr (((s0, s1, s2, s3), score), (fringe st)\<lparr>heap := h'\<rparr>)"
    and ms: "mset ?H = add_mset (score, (s0, s1, s2, s3)) (mset h')"
    and hi: "heap_inv ?H \<longrightarrow> heap_inv h' \<and> (\<forall>y \<in> set ?H. (score, (s0, s1, s2, s3)) \<le> y)"
    by auto
  have em: "isEmpty (fringe st) = False" using ne by (simp add: isEmpty_def)
  from assms have g: "\<not> s3" by (auto simp: astar_iter_def pp em Let_def split: if_splits)
  from ms have rest: "mset h' = mset ?H - {#(score, (s0, s1, s2, s3))#}" by simp
  show ?thesis
  proof (cases "visited st s0 = None")
    case True
    let ?st0 = "st\<lparr>fringe := (fringe st)\<lparr>heap := h'\<rparr>,
             inFringe := (inFringe st)(s0 \<mapsto> False),
             numExpanded := numExpanded st + 1,
             visited := (visited st)(s0 \<mapsto> True)\<rparr>"
    from astar_for_each [of h "(s0, s1, s2, False)" "getSuccessors P p s0" ?st0] obtain st1 where
      fe: "for_each (astar_insert h (s0, s1, s2, False)) (getSuccessors P p s0) ?st0 = Inr st1"
      and m1: "mset (heap (fringe st1)) = mset (heap (fringe ?st0))
          + mset (map (\<lambda>e. entry h (child (s0, s1, s2, False) e))
              (fresh (visited ?st0) (getSuccessors P p s0)))"
      and v1: "visited st1 = visited ?st0" "numExpanded st1 = numExpanded ?st0"
      and i1: "heap_inv (heap (fringe ?st0)) \<longrightarrow> heap_inv (heap (fringe st1))" by blast
    from assms g True fe
    have "st' = st1\<lparr>maxMemoryUse := getSize (fringe st1), totalStates := numExpanded st1\<rparr>
        \<or> st' = st1\<lparr>totalStates := numExpanded st1\<rparr>"
      by (simp add: astar_iter_def pp em Let_def split: if_splits)
    then have "heap (fringe st') = heap (fringe st1) \<and> visited st' = visited st1
        \<and> numExpanded st' = numExpanded st1" by auto
    then show ?thesis using ne m g True m1 v1 i1 hi rest by simp
  next
    case False
    with assms g have "st' = st\<lparr>fringe := (fringe st)\<lparr>heap := h'\<rparr>,
             inFringe := (inFringe st)(s0 \<mapsto> False)\<rparr>"
      by (auto simp: astar_iter_def pp em Let_def)
    with False ne m g hi rest show ?thesis by simp
  qed
qed

lemma astar_iter_Inl:
  assumes "astar_iter P p h st = Inl r"
  shows "(heap (fringe st) = [] \<and> r = Inr (([], Infinity, numExpanded st), globals st))
     \<or> (\<exists>score s0 s1 s2 m. heap (fringe st) \<noteq> []
          \<and> heap (fringe st) ! 0 = (score, (s0, s1, s2, True))
          \<and> r = Inr ((s1, Finite s2, numExpanded st), m))"
proof (cases "heap (fringe st) = []")
  case True
  with assms show ?thesis by (simp add: astar_iter_def isEmpty_def)
next
  case False
  let ?H = "heap (fringe st)"
  obtain score s0 s1 s2 s3 where m: "?H ! 0 = (score, (s0, s1, s2, s3))"
    by (metis prod_cases4 surj_pair)
  from pop_ordered [OF False] m obtain h' where
    pp: "pop py_lt (fringe st) = Inr (((s0, s1, s2, s3), score), (fringe st)\<lparr>heap := h'\<rparr>)"
    by auto
  have em: "isEmpty (fringe st) = False" using False by (simp add: isEmpty_def)
  let ?st0 = "st\<lparr>fringe := (fringe st)\<lparr>heap := h'\<rparr>,
             inFringe := (inFringe st)(s0 \<mapsto> False),
             numExpanded := numExpanded st + 1,
             visited := (visited st)(s0 \<mapsto> True)\<rparr>"
  from astar_for_each [of h "(s0, s1, s2, False)" "getSuccessors P p s0" ?st0] obtain st1 where
    fe: "for_each (astar_insert h (s0, s1, s2, False)) (getSuccessors P p s0) ?st0 = Inr st1"
    by blast
  have "s3"
  proof (rule ccontr)
    assume "\<not> s3"
    with assms fe show False
      by (cases "visited st s0 = None") (simp_all add: astar_iter_def pp em Let_def)
  qed
  with assms have "\<exists>m. r = Inr ((s1, Finite s2, numExpanded st), m)"
    by (auto simp: astar_iter_def pp em Let_def)
  with \<open>s3\<close> False m show ?thesis by auto
qed

lemma heap_first_in: "H \<noteq> [] \<Longrightarrow> H ! 0 \<in> set H"
  by (cases H) simp_all

lemma astar_init_start: "astar_init P p h = Inr (astar_start P p h)"
  by (simp add: astar_init_def astar_start_def heap_defs)

lemma aStarSearch_loop: "aStarSearch P p h = loop (astar_iter P p h) (astar_start P p h)"
  by (simp add: aStarSearch_def astar_init_start)

lemma heap_inv_astar_start: "heap_inv (heap (fringe (astar_start P p h)))"
  by (simp add: astar_start_def heap_inv_def)

section \<open>The iterations as steps on the bag of nodes\<close>

lemma fresh_upd:
  "fresh (vis(s \<mapsto> b)) es = filter (\<lambda>e. fst e \<notin> insert s (dom vis)) es"
  by (simp add: fresh_filter)

lemma bfs_astep:
  assumes "bfs_iter P p st = Inr st'"
  shows "astep P p (abs_list st) (abs_list st')"
proof -
  from bfs_iter_Inr [OF assms] obtain s0 s1 s2 rest where
    fr: "fringe st = (s0, s1, s2, False) # rest" and
    c: "if visited st s0 = None
        then fringe st' = rest @ map (child (s0, s1, s2, False))
                 (fresh ((visited st)(s0 \<mapsto> True)) (getSuccessors P p s0))
           \<and> visited st' = (visited st)(s0 \<mapsto> True) \<and> numExpanded st' = Suc (numExpanded st)
        else fringe st' = rest \<and> visited st' = visited st \<and> numExpanded st' = numExpanded st"
    by blast
  let ?x = "(s0, s1, s2, False)"
  have mem: "?x \<in># mset (fringe st)" using fr by simp
  have rest: "mset rest = mset (fringe st) - {#?x#}" using fr by simp
  show ?thesis
  proof (cases "visited st s0 = None")
    case True
    then have nv: "fst ?x \<notin> dom (visited st)" by (simp add: dom_def)
    from astep.expand [of ?x "mset (fringe st)" "dom (visited st)" P p "numExpanded st", OF mem _ nv]
    show ?thesis using c True rest by (simp add: abs_list_def fresh_upd)
  next
    case False
    from astep.discard [of ?x "mset (fringe st)" P p "dom (visited st)" "numExpanded st", OF mem]
    show ?thesis using c False rest by (simp add: abs_list_def)
  qed
qed

lemma dfs_astep:
  assumes "dfs_iter P p st = Inr st'"
  shows "astep P p (abs_list st) (abs_list st')"
proof -
  from dfs_iter_Inr [OF assms] obtain s0 s1 s2 rest where
    fr: "fringe st = rest @ [(s0, s1, s2, False)]" and
    c: "if visited st s0 = None
        then fringe st' = rest @ map (child (s0, s1, s2, False))
                 (fresh ((visited st)(s0 \<mapsto> True)) (getSuccessors P p s0))
           \<and> visited st' = (visited st)(s0 \<mapsto> True) \<and> numExpanded st' = Suc (numExpanded st)
        else fringe st' = rest \<and> visited st' = visited st \<and> numExpanded st' = numExpanded st"
    by blast
  let ?x = "(s0, s1, s2, False)"
  have mem: "?x \<in># mset (fringe st)" using fr by simp
  have rest: "mset rest = mset (fringe st) - {#?x#}" using fr by simp
  show ?thesis
  proof (cases "visited st s0 = None")
    case True
    then have nv: "fst ?x \<notin> dom (visited st)" by (simp add: dom_def)
    from astep.expand [of ?x "mset (fringe st)" "dom (visited st)" P p "numExpanded st", OF mem _ nv]
    show ?thesis using c True rest by (simp add: abs_list_def fresh_upd)
  next
    case False
    from astep.discard [of ?x "mset (fringe st)" P p "dom (visited st)" "numExpanded st", OF mem]
    show ?thesis using c False rest by (simp add: abs_list_def)
  qed
qed

lemma undepth_dchild: "undepth (dchild x e) = child (undepth x) e"
  by (cases x, cases e) (simp add: undepth_def dchild_def child_def)

lemma dls_astep:
  assumes "dls_iter P p maxDepth st = Inr st'"
  shows "astep P p (abs_dls st) (abs_dls st')"
proof -
  from dls_iter_Inr [OF assms] obtain s0 s1 s2 s4 rest where
    fr: "fringe st = rest @ [(s0, s1, s2, False, s4)]" and
    c: "if visited st s0 = None \<and> s4 < maxDepth
        then fringe st' = rest @ map (dchild (s0, s1, s2, False, s4))
                 (fresh ((visited st)(s0 \<mapsto> True)) (getSuccessors P p s0))
           \<and> visited st' = (visited st)(s0 \<mapsto> True) \<and> numExpanded st' = Suc (numExpanded st)
           \<and> totalStates st' = Suc (totalStates st)
        else fringe st' = rest \<and> visited st' = visited st \<and> numExpanded st' = numExpanded st
           \<and> totalStates st' = totalStates st"
    by blast
  let ?x = "(s0, s1, s2, False)"
  have ux: "undepth (s0, s1, s2, False, s4) = ?x" by (simp add: undepth_def)
  have mem: "?x \<in># mset (map undepth (fringe st))" using fr ux by simp
  have rest: "mset (map undepth rest) = mset (map undepth (fringe st)) - {#?x#}"
    using fr ux by simp
  show ?thesis
  proof (cases "visited st s0 = None \<and> s4 < maxDepth")
    case True
    then have nv: "fst ?x \<notin> dom (visited st)" by (simp add: dom_def)
    from astep.expand [of ?x "mset (map undepth (fringe st))" "dom (visited st)" P p "numExpanded st",
        OF mem _ nv]
    show ?thesis using c True rest
      by (simp add: abs_dls_def fresh_upd comp_def undepth_dchild ux)
  next
    case False
    from astep.discard [of ?x "mset (map undepth (fringe st))" P p "dom (visited st)" "numExpanded st",
        OF mem]
    show ?thesis using c False rest by (simp add: abs_dls_def)
  qed
qed

lemma snd_entry: "snd (entry h n) = n"
  by (simp add: entry_def)

lemma astar_astep:
  assumes "astar_iter P p h st = Inr st'"
  shows "astep P p (abs_astar st) (abs_astar st')"
proof -
  from astar_iter_Inr [OF assms] obtain score s0 s1 s2 where
    ne: "heap (fringe st) \<noteq> []" and
    m: "heap (fringe st) ! 0 = (score, (s0, s1, s2, False))" and
    c: "if visited st s0 = None
        then mset (heap (fringe st'))
               = mset (heap (fringe st)) - {#(score, (s0, s1, s2, False))#}
                 + mset (map (\<lambda>e. entry h (child (s0, s1, s2, False) e))
                     (fresh ((visited st)(s0 \<mapsto> True)) (getSuccessors P p s0)))
           \<and> visited st' = (visited st)(s0 \<mapsto> True) \<and> numExpanded st' = Suc (numExpanded st)
        else mset (heap (fringe st')) = mset (heap (fringe st)) - {#(score, (s0, s1, s2, False))#}
           \<and> visited st' = visited st \<and> numExpanded st' = numExpanded st"
    by blast
  let ?x = "(s0, s1, s2, False)"
  let ?H = "heap (fringe st)"
  have inH: "(score, ?x) \<in> set ?H" using heap_first_in [OF ne] m by simp
  then have mem: "?x \<in># mset (map snd ?H)" by force
  have "image_mset snd (mset ?H - {#(score, ?x)#})
      = image_mset snd (mset ?H) - {#snd (score, ?x)#}"
    using inH by (simp add: image_mset_Diff)
  then have rest: "image_mset snd (mset ?H - {#(score, ?x)#}) = mset (map snd ?H) - {#?x#}"
    by simp
  have ab: "mset (map snd (heap (fringe st'))) = image_mset snd (mset (heap (fringe st')))"
    by simp
  show ?thesis
  proof (cases "visited st s0 = None")
    case True
    then have nv: "fst ?x \<notin> dom (visited st)" by (simp add: dom_def)
    from c True have "mset (map snd (heap (fringe st')))
        = mset (map snd ?H) - {#?x#}
          + mset (map (child ?x) (fresh ((visited st)(s0 \<mapsto> True)) (getSuccessors P p s0)))"
      unfolding ab by (simp add: rest comp_def snd_entry image_mset.compositionality)
    with astep.expand [of ?x "mset (map snd ?H)" "dom (visited st)" P p "numExpanded st",
        OF mem _ nv]
    show ?thesis using c True
      by (simp add: abs_astar_def fresh_upd)
  next
    case False
    from c False have "mset (map snd (heap (fringe st'))) = mset (map snd ?H) - {#?x#}"
      unfolding ab by (simp add: rest)
    with astep.discard [of ?x "mset (map snd ?H)" P p "dom (visited st)" "numExpanded st", OF mem]
    show ?thesis using c False by (simp add: abs_astar_def)
  qed
qed

section \<open>Invariants of the steps\<close>

lemma trail_reachable: "trail P p x \<Longrightarrow> fst x \<in> reachable P p"
  unfolding reachable_def by blast

lemma tinv_astep:
  assumes "astep P p A A'" and "tinv P p A"
  shows "tinv P p A'"
  using assms
proof (induction rule: astep.induct)
  case (discard x F V n)
  then show ?case by (auto simp: tinv_def dest: in_diffD)
next
  case (expand x F V n)
  then have tx: "trail P p x" by (simp add: tinv_def)
  have "\<forall>y \<in># F - {#x#} + mset (map (child x)
            (filter (\<lambda>e. fst e \<notin> insert (fst x) V) (getSuccessors P p (fst x)))). trail P p y"
  proof
    fix y assume "y \<in># F - {#x#} + mset (map (child x)
            (filter (\<lambda>e. fst e \<notin> insert (fst x) V) (getSuccessors P p (fst x))))"
    then consider "y \<in># F - {#x#}"
      | e where "e \<in> set (getSuccessors P p (fst x))" "y = child x e"
      by auto
    then show "trail P p y"
    proof cases
      case 1
      then show ?thesis using expand.prems by (auto simp: tinv_def dest: in_diffD)
    next
      case 2
      then show ?thesis using trail.step [OF tx] by simp
    qed
  qed
  moreover have "insert (fst x) V \<subseteq> reachable P p"
    using expand.prems trail_reachable [OF tx] by (simp add: tinv_def)
  moreover have "finite (insert (fst x) V)" using expand.prems by (simp add: tinv_def)
  moreover have "Suc n = card (insert (fst x) V)"
    using expand.prems expand.hyps by (simp add: tinv_def)
  ultimately show ?case by (simp add: tinv_def)
qed

lemma wf_search_order: "wf (search_order P p)"
  unfolding search_order_def by (intro wf_inv_image wf_lex_prod wf_less_than)

lemma astep_decreases:
  assumes fin: "finite (reachable P p)" and "astep P p A A'" and "tinv P p A"
  shows "(A', A) \<in> search_order P p"
  using assms(2,3)
proof (induction rule: astep.induct)
  case (discard x F V n)
  then have "size (F - {#x#}) < size F" by (simp add: size_Diff1_less)
  then show ?case by (simp add: search_order_def)
next
  case (expand x F V n)
  then have "fst x \<in> reachable P p" by (auto simp: tinv_def intro: trail_reachable)
  with expand.hyps have "reachable P p - insert (fst x) V \<subset> reachable P p - V" by auto
  moreover have "finite (reachable P p - V)" using fin by simp
  ultimately have "card (reachable P p - insert (fst x) V) < card (reachable P p - V)"
    by (rule psubset_card_mono [rotated])
  then show ?case by (simp add: search_order_def)
qed

lemma tinv_bfs_init: "tinv P p (abs_list (bfs_init P p))"
  by (simp add: tinv_def abs_list_def bfs_init_def Let_def trail.start)

lemma tinv_dls_init: "tinv P p (abs_dls (dls_init P p reset m))"
  by (simp add: tinv_def abs_dls_def dls_init_def undepth_def Let_def trail.start)

lemma tinv_astar_start: "tinv P p (abs_astar (astar_start P p h))"
  by (simp add: tinv_def abs_astar_def astar_start_def trail.start)

section \<open>Termination\<close>

lemma breadthSearch_terminates:
  assumes "finite (reachable P p)"
  shows "\<exists>r. breadthSearch P p = Some r"
  unfolding breadthSearch_def
proof (rule loop_terminates [where I = "\<lambda>st. tinv P p (abs_list st)"
      and R = "inv_image (search_order P p) abs_list"])
  show "wf (inv_image (search_order P p) abs_list)" by (simp add: wf_search_order)
  show "tinv P p (abs_list (bfs_init P p))" by (rule tinv_bfs_init)
  fix s s' assume "tinv P p (abs_list s)" "bfs_iter P p s = Inr s'"
  then show "tinv P p (abs_list s') \<and> (s', s) \<in> inv_image (search_order P p) abs_list"
    using bfs_astep tinv_astep astep_decreases [OF assms] by (metis in_inv_image)
qed

lemma depthSearch_terminates:
  assumes "finite (reachable P p)"
  shows "\<exists>r. depthSearch P p = Some r"
  unfolding depthSearch_def
proof (rule loop_terminates [where I = "\<lambda>st. tinv P p (abs_list st)"
      and R = "inv_image (search_order P p) abs_list"])
  show "wf (inv_image (search_order P p) abs_list)" by (simp add: wf_search_order)
  show "tinv P p (abs_list (bfs_init P p))" by (rule tinv_bfs_init)
  fix s s' assume "tinv P p (abs_list s)" "dfs_iter P p s = Inr s'"
  then show "tinv P p (abs_list s') \<and> (s', s) \<in> inv_image (search_order P p) abs_list"
    using dfs_astep tinv_astep astep_decreases [OF assms] by (metis in_inv_image)
qed

lemma aStarSearch_terminates:
  assumes "finite (reachable P p)"
  shows "\<exists>r. aStarSearch P p h = Some r"
  unfolding aStarSearch_loop
proof (rule loop_terminates [where I = "\<lambda>st. tinv P p (abs_astar st)"
      and R = "inv_image (search_order P p) abs_astar"])
  show "wf (inv_image (search_order P p) abs_astar)" by (simp add: wf_search_order)
  show "tinv P p (abs_astar (astar_start P p h))" by (rule tinv_astar_start)
  fix s s' assume "tinv P p (abs_astar s)" "astar_iter P p h s = Inr s'"
  then show "tinv P p (abs_astar s') \<and> (s', s) \<in> inv_image (search_order P p) abs_astar"
    using astar_astep tinv_astep astep_decreases [OF assms] by (metis in_inv_image)
qed

lemma dls_weight_decreases:
  assumes "dls_iter P p maxDepth st = Inr st'"
  shows "(dls_weight maxDepth st', dls_weight maxDepth st) \<in> mult less_than"
proof -
  from dls_iter_Inr [OF assms] obtain s0 s1 s2 s4 rest where
    fr: "fringe st = rest @ [(s0, s1, s2, False, s4)]" and
    c: "if visited st s0 = None \<and> s4 < maxDepth
        then fringe st' = rest @ map (dchild (s0, s1, s2, False, s4))
                 (fresh ((visited st)(s0 \<mapsto> True)) (getSuccessors P p s0))
           \<and> visited st' = (visited st)(s0 \<mapsto> True) \<and> numExpanded st' = Suc (numExpanded st)
           \<and> totalStates st' = Suc (totalStates st)
        else fringe st' = rest \<and> visited st' = visited st \<and> numExpanded st' = numExpanded st
           \<and> totalStates st' = totalStates st"
    by blast
  let ?w = "\<lambda>x. nat (maxDepth - snd (snd (snd (snd x)))) + 1"
  let ?x = "(s0, s1, s2, False, s4)"
  let ?I = "image_mset ?w (mset rest)"
  define K where "K = (if visited st s0 = None \<and> s4 < maxDepth
      then image_mset ?w (mset (map (dchild ?x)
             (fresh ((visited st)(s0 \<mapsto> True)) (getSuccessors P p s0))))
      else {#})"
  have old: "dls_weight maxDepth st = ?I + {#?w ?x#}" using fr by (simp add: dls_weight_def)
  have new: "dls_weight maxDepth st' = ?I + K" using c by (auto simp: dls_weight_def K_def)
  have small: "\<forall>k \<in> set_mset K. \<exists>j \<in> set_mset {#?w ?x#}. (k, j) \<in> less_than"
  proof
    fix k assume k: "k \<in> set_mset K"
    then have lim: "s4 < maxDepth" by (auto simp: K_def split: if_splits)
    from k obtain e where "k = ?w (dchild ?x e)" by (auto simp: K_def split: if_splits)
    then have "k = nat (maxDepth - (s4 + 1)) + 1" by (cases e) (simp add: dchild_def)
    with lim have "k < ?w ?x" by simp
    then show "\<exists>j \<in> set_mset {#?w ?x#}. (k, j) \<in> less_than" by simp
  qed
  have "(?I + K, ?I + {#?w ?x#}) \<in> mult less_than"
    by (rule one_step_implies_mult) (use small in simp_all)
  with old new show ?thesis by simp
qed

lemma depthLimitedSearch_terminates: "\<exists>r. depthLimitedSearch P p maxDepth reset m = Some r"
  unfolding depthLimitedSearch_def
proof (rule loop_terminates [where I = "\<lambda>st. True"
      and R = "inv_image (mult less_than) (dls_weight maxDepth)"])
  show "wf (inv_image (mult less_than) (dls_weight maxDepth))"
    by (intro wf_inv_image wf_mult wf_less_than)
  show True ..
  fix s s'
  assume "dls_iter P p maxDepth s = Inr s'"
  then show "True \<and> (s', s) \<in> inv_image (mult less_than) (dls_weight maxDepth)"
    using dls_weight_decreases by simp
qed

lemma id_loop_terminates: "\<exists>r. id_loop P state maxDepth p depth acc m = Some r"
proof (induction P state maxDepth p depth acc m rule: id_loop.induct)
  case (1 P state maxDepth p depth acc m)
  show ?case
  proof (cases "depth \<le> maxDepth")
    case False
    then show ?thesis by (subst id_loop.simps) simp
  next
    case True
    obtain path c expanded m' where
      d: "depthLimitedSearch P (setState P p state) depth False m = Some ((path, c, expanded), m')"
      using depthLimitedSearch_terminates [of P "setState P p state" depth False m]
      by (metis prod_cases3 surj_pair)
    show ?thesis
    proof (cases "length path > 0")
      case True
      with \<open>depth \<le> maxDepth\<close> d show ?thesis by (subst id_loop.simps) (simp add: Let_def)
    next
      case False
      from "1.IH" [OF \<open>depth \<le> maxDepth\<close> refl d refl refl refl refl False]
      show ?thesis using \<open>depth \<le> maxDepth\<close> d False
        by (subst id_loop.simps) (simp add: Let_def)
    qed
  qed
qed

lemma id_loop_over:
  "id_loop P state maxDepth p depth acc m = id_over P state [depth..maxDepth] p acc m"
proof (induction P state maxDepth p depth acc m rule: id_loop.induct)
  case (1 P state maxDepth p depth acc m)
  show ?case
  proof (cases "depth \<le> maxDepth")
    case False
    then show ?thesis by (subst id_loop.simps) simp
  next
    case True
    then have up: "[depth..maxDepth] = depth # [depth + 1..maxDepth]" by (simp add: upto_rec1)
    show ?thesis
    proof (cases "depthLimitedSearch P (setState P p state) depth False m")
      case None
      with True up show ?thesis by (subst id_loop.simps) (simp add: Let_def)
    next
      case (Some r)
      obtain path c expanded m' where r: "r = ((path, c, expanded), m')"
        by (metis surj_pair)
      show ?thesis
      proof (cases "length path > 0")
        case True
        with \<open>depth \<le> maxDepth\<close> Some r up show ?thesis
          by (subst id_loop.simps) (simp add: Let_def)
      next
        case False
        from Some r have d: "depthLimitedSearch P (setState P p state) depth False m
            = Some ((path, c, expanded), m')" by simp
        from "1.IH" [OF \<open>depth \<le> maxDepth\<close> refl d refl refl refl refl False]
        have "id_loop P state maxDepth (setState P p state) (depth + 1) (acc + expanded) m'
            = id_over P state [depth + 1..maxDepth] (setState P p state) (acc + expanded) m'" .
        with \<open>depth \<le> maxDepth\<close> d up False show ?thesis
          by (subst id_loop.simps) (simp add: Let_def)
      qed
    qed
  qed
qed

lemma astar_iter_Inl_Inr: "astar_iter P p h s = Inl r \<Longrightarrow> \<exists>v. r = Inr v"
  by (drule astar_iter_Inl) (elim disjE conjE exE, simp_all)

lemma aStarSearch_no_error:
  assumes "aStarSearch P p h = Some r"
  shows "\<exists>v. r = Inr v"
proof -
  from assms have "loop (astar_iter P p h) (astar_start P p h) = Some r"
    by (simp add: aStarSearch_loop)
  from loop_Some_run [OF this] obtain k where k: "run (astar_iter P p h) k (astar_start P p h) = Inl r"
    by blast
  have "run (astar_iter P p h) k st = Inl r \<Longrightarrow> \<exists>v. r = Inr v" for st
  proof (induction k arbitrary: st)
    case 0
    then show ?case by simp
  next
    case (Suc k)
    show ?case
    proof (cases "astar_iter P p h st")
      case (Inl r')
      with Suc.prems have "r' = r" by simp
      with astar_iter_Inl_Inr [OF Inl] show ?thesis by simp
    next
      case (Inr st')
      with Suc.prems have "run (astar_iter P p h) k st' = Inl r" by simp
      then show ?thesis by (rule Suc.IH)
    qed
  qed
  with k show ?thesis by blast
qed

section \<open>The example problems\<close>

lemmas ex_defs = ex_problem_def table_problem_def ex_succs_def ex_h_def ex_nogoal_def
  ex_nogoal_succs_def ex_diamond_def ex_diamond_succs_def ex_goal_def ex_h0_def
lemmas bfs_defs = breadthSearch_def bfs_init_def bfs_iter_def bfs_insert_def globals_def Let_def
lemmas dfs_defs = depthSearch_def bfs_init_def dfs_iter_def dfs_insert_def globals_def Let_def
lemmas dls_defs = depthLimitedSearch_def dls_init_def dls_iter_def dls_insert_def globals_def
  Let_def
lemmas astar_defs = aStarSearch_def astar_init_def astar_start_def astar_iter_def astar_insert_def
  globals_def heap_defs

lemma ex_bfs:
  "breadthSearch ex_problem 0
     = Some (([2, 3], Finite 14, 3), \<lparr>maxMemoryUse = 2, totalStates = 3\<rparr>)"
  by (simp add: loop.simps bfs_defs ex_defs)

lemma ex_dfs:
  "depthSearch ex_problem 0
     = Some (([1, 2, 3], Finite 12, 3), \<lparr>maxMemoryUse = 2, totalStates = 3\<rparr>)"
  by (simp add: loop.simps dfs_defs ex_defs)

lemma ex_dls:
  "depthLimitedSearch ex_problem 0 5 True m
     = Some (([1, 2, 3], Finite 12, 3), \<lparr>maxMemoryUse = 2, totalStates = 3\<rparr>)"
  by (simp add: loop.simps dls_defs ex_defs)

lemma ex_astar:
  "aStarSearch ex_problem 0 ex_h
     = Some (Inr (([2, 3], Finite 14, 3), \<lparr>maxMemoryUse = 2, totalStates = 3\<rparr>))"
  by (simp add: loop.simps astar_defs ex_defs)

lemma ex_id:
  "iterativeDeepening ex_problem 0 5
     = Some ((([2, 3], Finite 14, 4), \<lparr>maxMemoryUse = 2, totalStates = 4\<rparr>), 0)"
  by (simp add: iterativeDeepening_def id_loop.simps loop.simps dls_defs ex_defs)

lemma ex_trail: "trail ex_problem 0 n \<Longrightarrow> fst n \<le> 3"
proof (induction rule: trail.induct)
  case start
  show ?case by (simp add: ex_defs)
next
  case (step n e)
  then show ?case by (cases n, cases e) (auto simp: ex_defs child_def split: if_splits)
qed

lemma ex_finite: "finite (reachable ex_problem 0)"
proof (rule finite_subset)
  show "reachable ex_problem 0 \<subseteq> {..3}" using ex_trail by (auto simp: reachable_def)
  show "finite {..3::nat}" by simp
qed

section \<open>Termination of the five entry points\<close>

text \<open>
  Claim C7. On a finite reachable state space \<^verbatim>\<open>breadthSearch\<close>, \<^verbatim>\<open>depthSearch\<close>,
  \<^verbatim>\<open>depthLimitedSearch\<close> and \<^verbatim>\<open>aStarSearch\<close> return a value (the last one never an
  error), and \<^verbatim>\<open>iterativeDeepening\<close> returns a value after running depth-limited
  searches over a prefix of the limits 1, ..., maxDepth, which are
  \<^verbatim>\<open>maxDepth\<close> many (none when \<^verbatim>\<open>maxDepth\<close> is below 1).
\<close>

theorem searches_terminate:
  fixes P :: "('p, 's::linorder, 'a::linorder) Problem"
  assumes "finite (reachable P p)"
  shows "(\<exists>r. breadthSearch P p = Some r)
    \<and> (\<exists>r. depthSearch P p = Some r)
    \<and> (\<exists>r. depthLimitedSearch P p maxDepth reset m = Some r)
    \<and> (\<exists>r. aStarSearch P p h = Some (Inr r))
    \<and> (\<exists>r. iterativeDeepening P p maxDepth = Some r)
    \<and> iterativeDeepening P p maxDepth
        = id_over P (getState P p) [1..maxDepth] p 0 \<lparr>maxMemoryUse = 0, totalStates = 0\<rparr>
    \<and> length [1..maxDepth] = nat maxDepth"
proof (intro conjI)
  show "\<exists>r. breadthSearch P p = Some r" using assms by (rule breadthSearch_terminates)
  show "\<exists>r. depthSearch P p = Some r" using assms by (rule depthSearch_terminates)
  show "\<exists>r. depthLimitedSearch P p maxDepth reset m = Some r"
    by (rule depthLimitedSearch_terminates)
  show "\<exists>r. aStarSearch P p h = Some (Inr r)"
  proof -
    from aStarSearch_terminates [OF assms, of h] obtain r where r: "aStarSearch P p h = Some r"
      by blast
    from aStarSearch_no_error [OF r] obtain v where "r = Inr v" by blast
    with r show ?thesis by simp
  qed
  show "\<exists>r. iterativeDeepening P p maxDepth = Some r"
    unfolding iterativeDeepening_def Let_def by (rule id_loop_terminates)
  show "iterativeDeepening P p maxDepth
        = id_over P (getState P p) [1..maxDepth] p 0 \<lparr>maxMemoryUse = 0, totalStates = 0\<rparr>"
    by (simp add: iterativeDeepening_def Let_def id_loop_over)
  show "length [1..maxDepth] = nat maxDepth" by simp
qed

theorem searches_terminate_witness:
  "finite (reachable ex_problem 0)
   \<and> breadthSearch ex_problem 0 \<noteq> None \<and> depthSearch ex_problem 0 \<noteq> None
   \<and> depthLimitedSearch ex_problem 0 5 True \<lparr>maxMemoryUse = 7, totalStates = 7\<rparr> \<noteq> None
   \<and> (\<exists>r. aStarSearch ex_problem 0 ex_h = Some (Inr r))
   \<and> iterativeDeepening ex_problem 0 5
       = Some ((([2, 3], Finite 14, 4), \<lparr>maxMemoryUse = 2, totalStates = 4\<rparr>), 0)"
  using searches_terminate [OF ex_finite, of 5 True "\<lparr>maxMemoryUse = 7, totalStates = 7\<rparr>" ex_h]
    ex_finite ex_id
  by auto

section \<open>A start state that is already solved\<close>

lemma breadthSearch_solved:
  "isSolved P p \<Longrightarrow>
     breadthSearch P p = Some (([], Finite 0, 0), \<lparr>maxMemoryUse = 0, totalStates = 0\<rparr>)"
  by (simp add: loop.simps bfs_defs)

lemma depthSearch_solved:
  "isSolved P p \<Longrightarrow>
     depthSearch P p = Some (([], Finite 0, 0), \<lparr>maxMemoryUse = 0, totalStates = 0\<rparr>)"
  by (simp add: loop.simps dfs_defs)

lemma depthLimitedSearch_solved:
  "isSolved P p \<Longrightarrow>
     depthLimitedSearch P p maxDepth reset m
       = Some (([], Finite 0, 0), if reset then \<lparr>maxMemoryUse = 0, totalStates = 0\<rparr> else m)"
  by (simp add: loop.simps dls_defs)

lemma aStarSearch_solved:
  "isSolved P p \<Longrightarrow>
     aStarSearch P p h = Some (Inr (([], Finite 0, 0), \<lparr>maxMemoryUse = 0, totalStates = 0\<rparr>))"
  by (simp add: loop.simps astar_defs)

text \<open>
  Claim C2. With the problem already solved, \<^verbatim>\<open>breadthSearch\<close>, \<^verbatim>\<open>depthSearch\<close>,
  \<^verbatim>\<open>depthLimitedSearch\<close> and \<^verbatim>\<open>aStarSearch\<close> return the empty path, cost 0 and no
  expansion. \<^verbatim>\<open>iterativeDeepening\<close> does not: every depth-limited search returns the
  empty path with cost 0, the test \<^verbatim>\<open>len(path) > 0\<close> takes that for a failure, and
  after the last limit the function returns the infinite cost. Here the table
  problem is started in its goal state 3 with \<^verbatim>\<open>maxDepth\<close> 2.
\<close>

theorem iterativeDeepening_solved_start:
  "isSolved ex_problem 3
   \<and> breadthSearch ex_problem 3 = Some (([], Finite 0, 0), \<lparr>maxMemoryUse = 0, totalStates = 0\<rparr>)
   \<and> depthLimitedSearch ex_problem 3 2 True \<lparr>maxMemoryUse = 0, totalStates = 0\<rparr>
       = Some (([], Finite 0, 0), \<lparr>maxMemoryUse = 0, totalStates = 0\<rparr>)
   \<and> iterativeDeepening ex_problem 3 2
       = Some ((([], Infinity, 0), \<lparr>maxMemoryUse = 0, totalStates = 0\<rparr>), 3)"
proof -
  have s: "isSolved ex_problem 3" by (simp add: ex_defs)
  have "iterativeDeepening ex_problem 3 2
       = Some ((([], Infinity, 0), \<lparr>maxMemoryUse = 0, totalStates = 0\<rparr>), 3)"
    by (simp add: iterativeDeepening_def id_loop.simps loop.simps dls_defs ex_defs)
  with s breadthSearch_solved [OF s] depthLimitedSearch_solved [OF s, of 2 True]
  show ?thesis by simp
qed

section \<open>The globals across depth-limited searches\<close>

lemma depthLimitedSearch_total:
  assumes "depthLimitedSearch P p d False m = Some ((path, c, e), m')"
  shows "totalStates m' = totalStates m + e"
proof -
  have "totalStates (snd r) = totalStates m + snd (snd (fst r))"
    if "loop (dls_iter P p d) (dls_init P p False m) = Some r" for r
  proof (rule loop_result [where I = "\<lambda>st. totalStates st = totalStates m + numExpanded st"
        and iter = "dls_iter P p d" and st = "dls_init P p False m" and r = r])
    show "totalStates (dls_init P p False m) = totalStates m + numExpanded (dls_init P p False m)"
      by (simp add: dls_init_def Let_def)
    show "loop (dls_iter P p d) (dls_init P p False m) = Some r" by (rule that)
  next
    fix s s' assume i: "totalStates s = totalStates m + numExpanded s"
      and "dls_iter P p d s = Inr s'"
    from dls_iter_Inr [OF this(2)] i
    show "totalStates s' = totalStates m + numExpanded s'" by (auto split: if_splits)
  next
    fix s r' assume i: "totalStates s = totalStates m + numExpanded s"
      and "dls_iter P p d s = Inl r'"
    from dls_iter_Inl [OF this(2)] i
    show "totalStates (snd r') = totalStates m + snd (snd (fst r'))"
      by (auto simp: globals_def)
  qed
  from this [of "((path, c, e), m')"] assms show ?thesis
    by (simp add: depthLimitedSearch_def)
qed

lemma depthLimitedSearch_empty_path:
  assumes "depthLimitedSearch P p d reset m = Some (([], c, e), m')"
  shows "c = Infinity \<or> c = Finite 0"
proof -
  have "fst (fst r) = [] \<longrightarrow> fst (snd (fst r)) = Infinity \<or> fst (snd (fst r)) = Finite 0"
    if "loop (dls_iter P p d) (dls_init P p reset m) = Some r" for r
  proof (rule loop_result [where I = "\<lambda>st. \<forall>x \<in> set (fringe st). fst (snd x) = [] \<longrightarrow> fst (snd (snd x)) = 0"
        and iter = "dls_iter P p d" and st = "dls_init P p reset m" and r = r])
    show "\<forall>x \<in> set (fringe (dls_init P p reset m)). fst (snd x) = [] \<longrightarrow> fst (snd (snd x)) = 0"
      by (simp add: dls_init_def Let_def)
    show "loop (dls_iter P p d) (dls_init P p reset m) = Some r" by (rule that)
  next
    fix s s' assume i: "\<forall>x \<in> set (fringe s). fst (snd x) = [] \<longrightarrow> fst (snd (snd x)) = 0"
      and "dls_iter P p d s = Inr s'"
    from dls_iter_Inr [OF this(2)] i
    show "\<forall>x \<in> set (fringe s'). fst (snd x) = [] \<longrightarrow> fst (snd (snd x)) = 0"
      by (auto simp: dchild_def split: if_splits prod.splits)
  next
    fix s r' assume i: "\<forall>x \<in> set (fringe s). fst (snd x) = [] \<longrightarrow> fst (snd (snd x)) = 0"
      and "dls_iter P p d s = Inl r'"
    from dls_iter_Inl [OF this(2)] i
    show "fst (fst r') = [] \<longrightarrow> fst (snd (fst r')) = Infinity \<or> fst (snd (fst r')) = Finite 0"
      by auto
  qed
  from this [of "(([], c, e), m')"] assms show ?thesis
    by (simp add: depthLimitedSearch_def)
qed

lemma id_over_total:
  assumes "id_over P state ds p acc m = Some (((path, c, n), m'), p')"
  shows "totalStates m' + acc = totalStates m + n \<and> (path = [] \<longrightarrow> c = Infinity)"
  using assms
proof (induction ds arbitrary: p acc m)
  case Nil
  then show ?case by simp
next
  case (Cons d ds)
  from Cons.prems obtain path1 c1 e1 m1 where
    d: "depthLimitedSearch P (setState P p state) d False m = Some ((path1, c1, e1), m1)"
    by (auto split: option.splits)
  note t = depthLimitedSearch_total [OF d]
  show ?case
  proof (cases "path1 = []")
    case True
    with Cons.prems d have
      "id_over P state ds (setState P p state) (acc + e1) m1 = Some (((path, c, n), m'), p')"
      by simp
    from Cons.IH [OF this] t show ?thesis by simp
  next
    case False
    with Cons.prems d t show ?thesis by auto
  qed
qed

section \<open>Iterative deepening\<close>

lemma dls_insert_same:
  "dls_same M T s1 s2 \<Longrightarrow> dls_same M T (dls_insert s e s1) (dls_insert s e s2)"
  by (cases s, cases e) (auto simp: dls_same_def dls_insert_def Let_def max_def)

lemma dls_fold_same:
  "dls_same M T s1 s2 \<Longrightarrow> dls_same M T (fold (dls_insert s) es s1) (fold (dls_insert s) es s2)"
  by (induction es arbitrary: s1 s2) (simp_all add: dls_insert_same)

lemma dls_iter_same:
  assumes "dls_same M T s1 s2"
  shows "(\<forall>v m1. dls_iter P p d s1 = Inl (v, m1) \<longrightarrow>
            dls_iter P p d s2 = Inl (v, \<lparr>maxMemoryUse = max M (maxMemoryUse m1),
                                         totalStates = T + totalStates m1\<rparr>))
       \<and> (\<forall>t1. dls_iter P p d s1 = Inr t1 \<longrightarrow>
            (\<exists>t2. dls_iter P p d s2 = Inr t2 \<and> dls_same M T t1 t2))"
proof (cases "fringe s1 = []")
  case True
  with assms show ?thesis by (auto simp: dls_same_def dls_iter_def globals_def)
next
  case False
  obtain s0 s1' s2' s3 s4 where l: "last (fringe s1) = (s0, s1', s2', s3, s4)"
    by (cases "last (fringe s1)")
  from assms have f: "fringe s2 = fringe s1" "visited s2 = visited s1"
    by (simp_all add: dls_same_def)
  show ?thesis
  proof (cases s3)
    case True
    with assms False l f show ?thesis
      by (auto simp: dls_same_def dls_iter_def globals_def Let_def)
  next
    case g: False
    show ?thesis
    proof (cases "visited s1 s0 = None \<and> s4 < d")
      case True
      let ?u = "\<lambda>s. s\<lparr>fringe := butlast (fringe s), inFringe := (inFringe s)(s0 \<mapsto> False),
                       numExpanded := numExpanded s + 1, totalStates := totalStates s + 1,
                       visited := (visited s)(s0 \<mapsto> True)\<rparr>"
      have "dls_same M T (?u s1) (?u s2)" using assms by (simp add: dls_same_def)
      from dls_fold_same [OF this, of "(s0, s1', s2', s3, s4)" "getSuccessors P p s0"]
      show ?thesis using True g False l f by (simp add: dls_iter_def Let_def)
    next
      case c: False
      let ?u = "\<lambda>s. s\<lparr>fringe := butlast (fringe s), inFringe := (inFringe s)(s0 \<mapsto> False)\<rparr>"
      have "dls_same M T (?u s1) (?u s2)" using assms by (simp add: dls_same_def)
      then show ?thesis using c g False l f by (auto simp: dls_iter_def Let_def)
    qed
  qed
qed

lemma dls_run_same:
  assumes "dls_same M T s1 s2" and "run (dls_iter P p d) k s1 = Inl (v, m1)"
  shows "run (dls_iter P p d) k s2 = Inl (v, \<lparr>maxMemoryUse = max M (maxMemoryUse m1),
                                                totalStates = T + totalStates m1\<rparr>)"
  using assms
proof (induction k arbitrary: s1 s2)
  case 0
  then show ?case by simp
next
  case (Suc k)
  note c = dls_iter_same [OF Suc.prems(1), of P p d]
  show ?case
  proof (cases "dls_iter P p d s1")
    case (Inl r)
    with Suc.prems(2) have "dls_iter P p d s1 = Inl (v, m1)" by simp
    with c show ?thesis by simp
  next
    case (Inr t1)
    with c obtain t2 where t2: "dls_iter P p d s2 = Inr t2" "dls_same M T t1 t2" by blast
    from Inr Suc.prems(2) have "run (dls_iter P p d) k t1 = Inl (v, m1)" by simp
    from Suc.IH [OF t2(2) this] t2(1) show ?thesis by simp
  qed
qed

lemma depthLimitedSearch_no_reset:
  assumes "depthLimitedSearch P p d True m0 = Some (v, m1)"
  shows "depthLimitedSearch P p d False m
           = Some (v, \<lparr>maxMemoryUse = max (maxMemoryUse m) (maxMemoryUse m1),
                       totalStates = totalStates m + totalStates m1\<rparr>)"
proof -
  from assms have "loop (dls_iter P p d) (dls_init P p True m0) = Some (v, m1)"
    by (simp add: depthLimitedSearch_def)
  from loop_Some_run [OF this] obtain k where
    k: "run (dls_iter P p d) k (dls_init P p True m0) = Inl (v, m1)" by blast
  have "dls_same (maxMemoryUse m) (totalStates m) (dls_init P p True m0) (dls_init P p False m)"
    by (simp add: dls_same_def dls_init_def Let_def)
  from dls_run_same [OF this k] show ?thesis
    unfolding depthLimitedSearch_def by (rule loop_run_Inl)
qed

lemma depthLimitedSearch_reset_total:
  assumes "depthLimitedSearch P p d True m0 = Some ((path, c, e), m1)"
  shows "totalStates m1 = e"
proof -
  from depthLimitedSearch_no_reset [OF assms, of "\<lparr>maxMemoryUse = 0, totalStates = 0\<rparr>"]
  have "depthLimitedSearch P p d False \<lparr>maxMemoryUse = 0, totalStates = 0\<rparr>
           = Some ((path, c, e), \<lparr>maxMemoryUse = max 0 (maxMemoryUse m1),
                       totalStates = 0 + totalStates m1\<rparr>)" by simp
  from depthLimitedSearch_total [OF this] show ?thesis by simp
qed

lemma id_over_isolated:
  "id_over P state ds p acc m = id_isolated P state ds p acc m"
proof (induction ds arbitrary: p acc m)
  case Nil
  show ?case by simp
next
  case (Cons d ds)
  from depthLimitedSearch_terminates [of P "setState P p state" d True m]
  obtain path c e m1 where
    t: "depthLimitedSearch P (setState P p state) d True m = Some ((path, c, e), m1)"
    by (metis prod_cases3 surj_pair)
  note f = depthLimitedSearch_no_reset [OF t, of m]
  show ?case by (simp add: t f Cons.IH Let_def)
qed

text \<open>
  Claim C5. \<^verbatim>\<open>iterativeDeepening\<close> is the run of depth-limited searches over the
  limits 1, ..., maxDepth in this order that \<open>id_over\<close> spells out: \<^verbatim>\<open>setState\<close> with
  the saved state before each search, the searches called without a reset on the
  globals zeroed once at the top, the expansion counts summed, the failure result when
  the limits are used up. The two counters are not reset in between: the run equals
  \<open>id_isolated\<close>, where the caller keeps the largest peak and the sum of the expansions
  of the searches; so when it returns, the global \<^verbatim>\<open>totalStates\<close> equals the returned
  expansion count, and an empty path comes with the infinite cost. For one depth-limited
  search this reads: called without a reset on any globals \<open>m\<close>, it returns what it
  returns with a reset, leaves \<^verbatim>\<open>maxMemoryUse\<close> at the larger of its value in \<open>m\<close> and
  the peak of this search, and adds the expansions of this search to \<^verbatim>\<open>totalStates\<close>.
\<close>

theorem iterativeDeepening_structure:
  "iterativeDeepening P p maxDepth
     = id_over P (getState P p) [1..maxDepth] p 0 \<lparr>maxMemoryUse = 0, totalStates = 0\<rparr>
   \<and> iterativeDeepening P p maxDepth
     = id_isolated P (getState P p) [1..maxDepth] p 0 \<lparr>maxMemoryUse = 0, totalStates = 0\<rparr>
   \<and> (\<forall>path c n m' p'.
        iterativeDeepening P p maxDepth = Some (((path, c, n), m'), p') \<longrightarrow>
          totalStates m' = n \<and> (path = [] \<longrightarrow> c = Infinity))
   \<and> (\<forall>path c e m1.
        depthLimitedSearch P p d True m0 = Some ((path, c, e), m1) \<longrightarrow>
          totalStates m1 = e
          \<and> depthLimitedSearch P p d False m
              = Some ((path, c, e), \<lparr>maxMemoryUse = max (maxMemoryUse m) (maxMemoryUse m1),
                                     totalStates = totalStates m + e\<rparr>))"
proof (intro conjI)
  show eq: "iterativeDeepening P p maxDepth
     = id_over P (getState P p) [1..maxDepth] p 0 \<lparr>maxMemoryUse = 0, totalStates = 0\<rparr>"
    by (simp add: iterativeDeepening_def Let_def id_loop_over)
  then show "iterativeDeepening P p maxDepth
     = id_isolated P (getState P p) [1..maxDepth] p 0 \<lparr>maxMemoryUse = 0, totalStates = 0\<rparr>"
    by (simp add: id_over_isolated)
  show "\<forall>path c n m' p'.
        iterativeDeepening P p maxDepth = Some (((path, c, n), m'), p') \<longrightarrow>
          totalStates m' = n \<and> (path = [] \<longrightarrow> c = Infinity)"
  proof (intro allI impI)
    fix path c n m' p'
    assume "iterativeDeepening P p maxDepth = Some (((path, c, n), m'), p')"
    with eq have "id_over P (getState P p) [1..maxDepth] p 0 \<lparr>maxMemoryUse = 0, totalStates = 0\<rparr>
        = Some (((path, c, n), m'), p')" by simp
    from id_over_total [OF this] show "totalStates m' = n \<and> (path = [] \<longrightarrow> c = Infinity)"
      by simp
  qed
  show "\<forall>path c e m1.
        depthLimitedSearch P p d True m0 = Some ((path, c, e), m1) \<longrightarrow>
          totalStates m1 = e
          \<and> depthLimitedSearch P p d False m
              = Some ((path, c, e), \<lparr>maxMemoryUse = max (maxMemoryUse m) (maxMemoryUse m1),
                                     totalStates = totalStates m + e\<rparr>)"
  proof (intro allI impI)
    fix path c e m1
    assume a: "depthLimitedSearch P p d True m0 = Some ((path, c, e), m1)"
    from depthLimitedSearch_reset_total [OF a] depthLimitedSearch_no_reset [OF a, of m]
    show "totalStates m1 = e
          \<and> depthLimitedSearch P p d False m
              = Some ((path, c, e), \<lparr>maxMemoryUse = max (maxMemoryUse m) (maxMemoryUse m1),
                                     totalStates = totalStates m + e\<rparr>)" by simp
  qed
qed

lemma ex_dls1:
  "depthLimitedSearch ex_problem 0 1 True \<lparr>maxMemoryUse = 0, totalStates = 0\<rparr>
     = Some (([], Infinity, 1), \<lparr>maxMemoryUse = 2, totalStates = 1\<rparr>)"
  by (simp add: loop.simps dls_defs ex_defs)

theorem iterativeDeepening_structure_witness:
  "iterativeDeepening ex_problem 0 5
     = Some ((([2, 3], Finite 14, 4), \<lparr>maxMemoryUse = 2, totalStates = 4\<rparr>), 0)
   \<and> id_over ex_problem 0 [1..5] 0 0 \<lparr>maxMemoryUse = 0, totalStates = 0\<rparr>
     = Some ((([2, 3], Finite 14, 4), \<lparr>maxMemoryUse = 2, totalStates = 4\<rparr>), 0)
   \<and> id_isolated ex_problem 0 [1..5] 0 0 \<lparr>maxMemoryUse = 0, totalStates = 0\<rparr>
     = Some ((([2, 3], Finite 14, 4), \<lparr>maxMemoryUse = 2, totalStates = 4\<rparr>), 0)
   \<and> depthLimitedSearch ex_problem 0 1 True \<lparr>maxMemoryUse = 0, totalStates = 0\<rparr>
     = Some (([], Infinity, 1), \<lparr>maxMemoryUse = 2, totalStates = 1\<rparr>)
   \<and> depthLimitedSearch ex_problem 0 1 False \<lparr>maxMemoryUse = 7, totalStates = 5\<rparr>
     = Some (([], Infinity, 1), \<lparr>maxMemoryUse = 7, totalStates = 6\<rparr>)
   \<and> iterativeDeepening ex_nogoal 0 2
     = Some ((([], Infinity, 3), \<lparr>maxMemoryUse = 1, totalStates = 3\<rparr>), 0)"
proof -
  have g: "getState ex_problem 0 = 0" by (simp add: ex_defs)
  have n: "iterativeDeepening ex_nogoal 0 2
     = Some ((([], Infinity, 3), \<lparr>maxMemoryUse = 1, totalStates = 3\<rparr>), 0)"
    by (simp add: iterativeDeepening_def id_loop.simps loop.simps dls_defs ex_defs)
  note t = iterativeDeepening_structure [of ex_problem 0 5 1 "\<lparr>maxMemoryUse = 0, totalStates = 0\<rparr>"
      "\<lparr>maxMemoryUse = 7, totalStates = 5\<rparr>"]
  from t have "iterativeDeepening ex_problem 0 5
     = id_over ex_problem (getState ex_problem 0) [1..5] 0 0 \<lparr>maxMemoryUse = 0, totalStates = 0\<rparr>"
    by (rule conjunct1)
  then have 1: "id_over ex_problem 0 [1..5] 0 0 \<lparr>maxMemoryUse = 0, totalStates = 0\<rparr>
     = Some ((([2, 3], Finite 14, 4), \<lparr>maxMemoryUse = 2, totalStates = 4\<rparr>), 0)"
    unfolding g ex_id by (rule sym)
  from t have "iterativeDeepening ex_problem 0 5
     = id_isolated ex_problem (getState ex_problem 0) [1..5] 0 0 \<lparr>maxMemoryUse = 0, totalStates = 0\<rparr>"
    by (rule conjunct1 [OF conjunct2])
  then have 2: "id_isolated ex_problem 0 [1..5] 0 0 \<lparr>maxMemoryUse = 0, totalStates = 0\<rparr>
     = Some ((([2, 3], Finite 14, 4), \<lparr>maxMemoryUse = 2, totalStates = 4\<rparr>), 0)"
    unfolding g ex_id by (rule sym)
  from t have "\<forall>path c e m1.
        depthLimitedSearch ex_problem 0 1 True \<lparr>maxMemoryUse = 0, totalStates = 0\<rparr>
          = Some ((path, c, e), m1) \<longrightarrow>
          totalStates m1 = e
          \<and> depthLimitedSearch ex_problem 0 1 False \<lparr>maxMemoryUse = 7, totalStates = 5\<rparr>
              = Some ((path, c, e),
                  \<lparr>maxMemoryUse = max (maxMemoryUse \<lparr>maxMemoryUse = 7, totalStates = 5\<rparr>) (maxMemoryUse m1),
                   totalStates = totalStates \<lparr>maxMemoryUse = 7, totalStates = 5\<rparr> + e\<rparr>)"
    by (rule conjunct2 [OF conjunct2 [OF conjunct2]])
  with ex_dls1 have 3: "depthLimitedSearch ex_problem 0 1 False \<lparr>maxMemoryUse = 7, totalStates = 5\<rparr>
     = Some (([], Infinity, 1), \<lparr>maxMemoryUse = 7, totalStates = 6\<rparr>)"
    by simp
  from ex_id 1 2 ex_dls1 3 n show ?thesis by simp
qed

section \<open>The result of a depth-limited search does not depend on the globals\<close>

lemma dls_iter_core:
  assumes "fringe s1 = fringe s2" "visited s1 = visited s2" "numExpanded s1 = numExpanded s2"
  shows "(\<forall>r1. dls_iter P p d s1 = Inl r1 \<longrightarrow> (\<exists>r2. dls_iter P p d s2 = Inl r2 \<and> fst r2 = fst r1))
    \<and> (\<forall>t1. dls_iter P p d s1 = Inr t1 \<longrightarrow> (\<exists>t2. dls_iter P p d s2 = Inr t2
          \<and> fringe t1 = fringe t2 \<and> visited t1 = visited t2 \<and> numExpanded t1 = numExpanded t2))"
proof (intro conjI allI impI)
  fix r1 assume a: "dls_iter P p d s1 = Inl r1"
  show "\<exists>r2. dls_iter P p d s2 = Inl r2 \<and> fst r2 = fst r1"
  proof (cases "dls_iter P p d s2")
    case (Inl r2)
    from dls_iter_Inl [OF a] dls_iter_Inl [OF Inl] assms have "fst r2 = fst r1" by auto
    with Inl show ?thesis by simp
  next
    case (Inr t2)
    from dls_iter_Inl [OF a] dls_iter_Inr [OF Inr] assms show ?thesis by auto
  qed
next
  fix t1 assume a: "dls_iter P p d s1 = Inr t1"
  show "\<exists>t2. dls_iter P p d s2 = Inr t2
          \<and> fringe t1 = fringe t2 \<and> visited t1 = visited t2 \<and> numExpanded t1 = numExpanded t2"
  proof (cases "dls_iter P p d s2")
    case (Inl r2)
    from dls_iter_Inr [OF a] dls_iter_Inl [OF Inl] assms show ?thesis by auto
  next
    case (Inr t2)
    from dls_iter_Inr [OF a] dls_iter_Inr [OF Inr] assms
    have "fringe t1 = fringe t2 \<and> visited t1 = visited t2 \<and> numExpanded t1 = numExpanded t2"
      by (auto split: if_splits)
    with Inr show ?thesis by simp
  qed
qed

lemma dls_run_core:
  assumes "run (dls_iter P p d) k s1 = Inl r1"
    and "fringe s1 = fringe s2" "visited s1 = visited s2" "numExpanded s1 = numExpanded s2"
  shows "\<exists>r2. run (dls_iter P p d) k s2 = Inl r2 \<and> fst r2 = fst r1"
  using assms
proof (induction k arbitrary: s1 s2)
  case 0
  then show ?case by simp
next
  case (Suc k)
  note c = dls_iter_core [OF Suc.prems(2,3,4), of P p d]
  show ?case
  proof (cases "dls_iter P p d s1")
    case (Inl r)
    with Suc.prems(1) have "r = r1" by simp
    with Inl c obtain r2 where "dls_iter P p d s2 = Inl r2" "fst r2 = fst r1" by blast
    then show ?thesis by simp
  next
    case (Inr t1)
    with c obtain t2 where t2: "dls_iter P p d s2 = Inr t2"
      "fringe t1 = fringe t2" "visited t1 = visited t2" "numExpanded t1 = numExpanded t2"
      by blast
    from Inr Suc.prems(1) have "run (dls_iter P p d) k t1 = Inl r1" by simp
    from Suc.IH [OF this t2(2,3,4)] t2(1) show ?thesis by simp
  qed
qed

lemma depthLimitedSearch_globals_irrelevant:
  assumes "depthLimitedSearch P p d reset m = Some (v, m1)"
  shows "\<exists>m2. depthLimitedSearch P p d reset' m' = Some (v, m2)"
proof -
  from assms have "loop (dls_iter P p d) (dls_init P p reset m) = Some (v, m1)"
    by (simp add: depthLimitedSearch_def)
  from loop_Some_run [OF this] obtain k where
    "run (dls_iter P p d) k (dls_init P p reset m) = Inl (v, m1)" by blast
  from dls_run_core [OF this, of "dls_init P p reset' m'"]
  obtain r2 where "run (dls_iter P p d) k (dls_init P p reset' m') = Inl r2" "fst r2 = v"
    by (auto simp: dls_init_def Let_def)
  then have "loop (dls_iter P p d) (dls_init P p reset' m') = Some (v, snd r2)"
    using loop_run_Inl [of "dls_iter P p d" k "dls_init P p reset' m'" r2] by (cases r2) simp
  then show ?thesis by (auto simp: depthLimitedSearch_def)
qed

section \<open>Every key is expanded at most once\<close>

lemma tinv_counts:
  "tinv P p (F, dom vis, n) \<Longrightarrow> finite (dom vis) \<and> n = card (dom vis)"
  by (simp add: tinv_def)

lemma bfs_counts:
  assumes "run (bfs_iter P p) k (bfs_init P p) = Inr st"
  shows "finite (dom (visited st)) \<and> numExpanded st = card (dom (visited st))"
proof -
  have "tinv P p (abs_list st)"
    by (rule run_invariant [where I = "\<lambda>st. tinv P p (abs_list st)", OF _ tinv_bfs_init assms])
      (blast intro: tinv_astep bfs_astep)
  then show ?thesis by (simp add: abs_list_def tinv_counts)
qed

lemma dfs_counts:
  assumes "run (dfs_iter P p) k (bfs_init P p) = Inr st"
  shows "finite (dom (visited st)) \<and> numExpanded st = card (dom (visited st))"
proof -
  have "tinv P p (abs_list st)"
    by (rule run_invariant [where I = "\<lambda>st. tinv P p (abs_list st)", OF _ tinv_bfs_init assms])
      (blast intro: tinv_astep dfs_astep)
  then show ?thesis by (simp add: abs_list_def tinv_counts)
qed

lemma dls_counts:
  assumes "run (dls_iter P p maxDepth) k (dls_init P p reset m) = Inr st"
  shows "finite (dom (visited st)) \<and> numExpanded st = card (dom (visited st))"
proof -
  have "tinv P p (abs_dls st)"
    by (rule run_invariant [where I = "\<lambda>st. tinv P p (abs_dls st)", OF _ tinv_dls_init assms])
      (blast intro: tinv_astep dls_astep)
  then show ?thesis by (simp add: abs_dls_def tinv_counts)
qed

lemma astar_counts:
  assumes "astar_init P p h = Inr st0" and "run (astar_iter P p h) k st0 = Inr st"
  shows "finite (dom (visited st)) \<and> numExpanded st = card (dom (visited st))"
proof -
  from assms(1) have s: "st0 = astar_start P p h" by (simp add: astar_init_start)
  have "tinv P p (abs_astar st)"
    by (rule run_invariant [where I = "\<lambda>st. tinv P p (abs_astar st)", OF _ tinv_astar_start
          assms(2) [unfolded s]])
      (blast intro: tinv_astep astar_astep)
  then show ?thesis by (simp add: abs_astar_def tinv_counts)
qed

lemma bfs_once: "bfs_iter P p st = Inr st' \<Longrightarrow> once st st'"
  by (drule bfs_iter_Inr) (auto simp: once_def split: if_splits)

lemma dfs_once: "dfs_iter P p st = Inr st' \<Longrightarrow> once st st'"
  by (drule dfs_iter_Inr) (auto simp: once_def split: if_splits)

lemma dls_once: "dls_iter P p maxDepth st = Inr st' \<Longrightarrow> once st st'"
  by (drule dls_iter_Inr) (auto simp: once_def split: if_splits)

lemma astar_once: "astar_iter P p h st = Inr st' \<Longrightarrow> once st st'"
  by (drule astar_iter_Inr) (auto simp: once_def split: if_splits)

lemma ex_bfs_duplicate:
  "\<exists>st. run (bfs_iter ex_diamond 0) 3 (bfs_init ex_diamond 0) = Inr st
      \<and> \<not> distinct (map fst (fringe st))"
  by (simp add: numeral_3_eq_3 bfs_defs ex_defs)

lemma ex_dfs_duplicate:
  "\<exists>st. run (dfs_iter ex_problem 0) 2 (bfs_init ex_problem 0) = Inr st
      \<and> \<not> distinct (map fst (fringe st))"
  by (simp add: numeral_2_eq_2 dfs_defs ex_defs)

lemma ex_dls_duplicate:
  "\<exists>st. run (dls_iter ex_problem 0 5) 2
          (dls_init ex_problem 0 True \<lparr>maxMemoryUse = 0, totalStates = 0\<rparr>) = Inr st
      \<and> \<not> distinct (map fst (fringe st))"
  by (simp add: numeral_2_eq_2 dls_defs ex_defs)

lemma ex_astar_duplicate:
  "\<exists>st0 st. astar_init ex_diamond 0 (\<lambda>s. 0) = Inr st0
      \<and> run (astar_iter ex_diamond 0 (\<lambda>s. 0)) 3 st0 = Inr st
      \<and> \<not> distinct (map (\<lambda>e. fst (snd e)) (heap (fringe st)))"
  by (simp add: numeral_3_eq_3 astar_defs ex_defs)

text \<open>
  Claim C6. At any point of a search the expansion counter equals the number of keys
  in the visited dictionary. An iteration that does not return removes one node from
  the fringe and then does one of two things. Either it leaves the dictionary and the
  counter alone, and then it puts nothing into the fringe: no successor is generated.
  Or the key of the removed node was not in the dictionary: the key is added, the
  counter goes up by one, and the nodes put into the fringe are the children of that
  key's successors whose keys are not in the dictionary. (\<open>once\<close> says this of the
  dictionary and the counter, \<open>astep\<close> of the bag of fringe nodes, the set of visited
  keys and the counter.) So no key is added, or has its successors generated and
  inserted, twice. The fringe is not kept free of duplicates: in each of the four
  searches a run on an example problem reaches a fringe that holds the same key twice.
\<close>

theorem expanded_at_most_once:
  fixes P :: "('p, 's::linorder, 'a::linorder) Problem"
  shows "(run (bfs_iter P p) k1 (bfs_init P p) = Inr st1 \<longrightarrow>
       finite (dom (visited st1)) \<and> numExpanded st1 = card (dom (visited st1))
       \<and> (\<forall>st'. bfs_iter P p st1 = Inr st' \<longrightarrow>
             once st1 st' \<and> astep P p (abs_list st1) (abs_list st')))
   \<and> (run (dfs_iter P p) k2 (bfs_init P p) = Inr st2 \<longrightarrow>
       finite (dom (visited st2)) \<and> numExpanded st2 = card (dom (visited st2))
       \<and> (\<forall>st'. dfs_iter P p st2 = Inr st' \<longrightarrow>
             once st2 st' \<and> astep P p (abs_list st2) (abs_list st')))
   \<and> (run (dls_iter P p maxDepth) k3 (dls_init P p reset m) = Inr st3 \<longrightarrow>
       finite (dom (visited st3)) \<and> numExpanded st3 = card (dom (visited st3))
       \<and> (\<forall>st'. dls_iter P p maxDepth st3 = Inr st' \<longrightarrow>
             once st3 st' \<and> astep P p (abs_dls st3) (abs_dls st')))
   \<and> (astar_init P p h = Inr st0 \<and> run (astar_iter P p h) k4 st0 = Inr st4 \<longrightarrow>
       finite (dom (visited st4)) \<and> numExpanded st4 = card (dom (visited st4))
       \<and> (\<forall>st'. astar_iter P p h st4 = Inr st' \<longrightarrow>
             once st4 st' \<and> astep P p (abs_astar st4) (abs_astar st')))
   \<and> (\<exists>st. run (bfs_iter ex_diamond 0) 3 (bfs_init ex_diamond 0) = Inr st
          \<and> \<not> distinct (map fst (fringe st)))
   \<and> (\<exists>st. run (dfs_iter ex_problem 0) 2 (bfs_init ex_problem 0) = Inr st
          \<and> \<not> distinct (map fst (fringe st)))
   \<and> (\<exists>st. run (dls_iter ex_problem 0 5) 2
              (dls_init ex_problem 0 True \<lparr>maxMemoryUse = 0, totalStates = 0\<rparr>) = Inr st
          \<and> \<not> distinct (map fst (fringe st)))
   \<and> (\<exists>st0 st. astar_init ex_diamond 0 (\<lambda>s. 0) = Inr st0
          \<and> run (astar_iter ex_diamond 0 (\<lambda>s. 0)) 3 st0 = Inr st
          \<and> \<not> distinct (map (\<lambda>e. fst (snd e)) (heap (fringe st))))"
  using bfs_counts [of P p k1 st1] dfs_counts [of P p k2 st2]
    dls_counts [of P p maxDepth k3 reset m st3] astar_counts [of P p h st0 k4 st4]
    bfs_once [of P p st1] dfs_once [of P p st2] dls_once [of P p maxDepth st3]
    astar_once [of P p h st4]
    bfs_astep [of P p st1] dfs_astep [of P p st2] dls_astep [of P p maxDepth st3]
    astar_astep [of P p h st4]
    ex_bfs_duplicate ex_dfs_duplicate ex_dls_duplicate ex_astar_duplicate
  by (intro conjI impI allI) blast+

lemma ex_bfs_step:
  "\<exists>st st'. run (bfs_iter ex_diamond 0) 1 (bfs_init ex_diamond 0) = Inr st
     \<and> fringe st = [(1, [1], 1, False), (2, [2], 1, False)]
     \<and> visited st = [0 \<mapsto> True] \<and> numExpanded st = 1
     \<and> bfs_iter ex_diamond 0 st = Inr st'
     \<and> fringe st' = [(2, [2], 1, False), (3, [1, 3], 2, True)]
     \<and> visited st' = [0 \<mapsto> True, 1 \<mapsto> True] \<and> numExpanded st' = 2"
  by (simp add: bfs_defs ex_defs)

theorem expanded_at_most_once_witness:
  "(\<exists>st. run (bfs_iter ex_diamond 0) 3 (bfs_init ex_diamond 0) = Inr st
      \<and> numExpanded st = card (dom (visited st)) \<and> numExpanded st = 3)
   \<and> (\<exists>st. run (dfs_iter ex_problem 0) 2 (bfs_init ex_problem 0) = Inr st
      \<and> numExpanded st = card (dom (visited st)) \<and> numExpanded st = 2)
   \<and> (\<exists>st. run (dls_iter ex_problem 0 5) 2
              (dls_init ex_problem 0 True \<lparr>maxMemoryUse = 0, totalStates = 0\<rparr>) = Inr st
      \<and> numExpanded st = card (dom (visited st)) \<and> numExpanded st = 2)
   \<and> (\<exists>st0 st. astar_init ex_diamond 0 (\<lambda>s. 0) = Inr st0
      \<and> run (astar_iter ex_diamond 0 (\<lambda>s. 0)) 3 st0 = Inr st
      \<and> numExpanded st = card (dom (visited st)) \<and> numExpanded st = 3)
   \<and> (\<exists>st st'. run (bfs_iter ex_diamond 0) 1 (bfs_init ex_diamond 0) = Inr st
      \<and> bfs_iter ex_diamond 0 st = Inr st'
      \<and> fringe st = [(1, [1], 1, False), (2, [2], 1, False)]
      \<and> fringe st' = [(2, [2], 1, False), (3, [1, 3], 2, True)]
      \<and> once st st' \<and> astep ex_diamond 0 (abs_list st) (abs_list st'))"
proof -
  have "\<exists>st. run (bfs_iter ex_diamond 0) 3 (bfs_init ex_diamond 0) = Inr st \<and> numExpanded st = 3"
    by (simp add: numeral_3_eq_3 bfs_defs ex_defs)
  then obtain st1 where 1: "run (bfs_iter ex_diamond 0) 3 (bfs_init ex_diamond 0) = Inr st1"
    "numExpanded st1 = 3" by blast
  have "\<exists>st. run (dfs_iter ex_problem 0) 2 (bfs_init ex_problem 0) = Inr st \<and> numExpanded st = 2"
    by (simp add: numeral_2_eq_2 dfs_defs ex_defs)
  then obtain st2 where 2: "run (dfs_iter ex_problem 0) 2 (bfs_init ex_problem 0) = Inr st2"
    "numExpanded st2 = 2" by blast
  have "\<exists>st. run (dls_iter ex_problem 0 5) 2
              (dls_init ex_problem 0 True \<lparr>maxMemoryUse = 0, totalStates = 0\<rparr>) = Inr st
          \<and> numExpanded st = 2"
    by (simp add: numeral_2_eq_2 dls_defs ex_defs)
  then obtain st3 where 3: "run (dls_iter ex_problem 0 5) 2
              (dls_init ex_problem 0 True \<lparr>maxMemoryUse = 0, totalStates = 0\<rparr>) = Inr st3"
    "numExpanded st3 = 2" by blast
  have "\<exists>st0 st. astar_init ex_diamond 0 (\<lambda>s. 0) = Inr st0
          \<and> run (astar_iter ex_diamond 0 (\<lambda>s. 0)) 3 st0 = Inr st \<and> numExpanded st = 3"
    by (simp add: numeral_3_eq_3 astar_defs ex_defs)
  then obtain st0 st4 where 4: "astar_init ex_diamond 0 (\<lambda>s. 0) = Inr st0"
    "run (astar_iter ex_diamond 0 (\<lambda>s. 0)) 3 st0 = Inr st4" "numExpanded st4 = 3" by blast
  from ex_bfs_step obtain st5 st5' where
    5: "run (bfs_iter ex_diamond 0) 1 (bfs_init ex_diamond 0) = Inr st5"
      "bfs_iter ex_diamond 0 st5 = Inr st5'"
      "fringe st5 = [(1, [1], 1, False), (2, [2], 1, False)]"
      "fringe st5' = [(2, [2], 1, False), (3, [1, 3], 2, True)]" by blast
  from expanded_at_most_once [of ex_diamond 0 3 st1 0 "bfs_init ex_diamond 0" 0 0 True
      "\<lparr>maxMemoryUse = 0, totalStates = 0\<rparr>"
      "dls_init ex_diamond 0 True \<lparr>maxMemoryUse = 0, totalStates = 0\<rparr>" "\<lambda>s. 0" st0 3 st4] 1 4
  have a: "numExpanded st1 = card (dom (visited st1))" "numExpanded st4 = card (dom (visited st4))"
    by simp_all
  from expanded_at_most_once [of ex_problem 0 0 "bfs_init ex_problem 0" 2 st2 5 2 True
      "\<lparr>maxMemoryUse = 0, totalStates = 0\<rparr>" st3 "\<lambda>s. 0" "astar_start ex_problem 0 (\<lambda>s. 0)" 0
      "astar_start ex_problem 0 (\<lambda>s. 0)"] 2 3
  have b: "numExpanded st2 = card (dom (visited st2))" "numExpanded st3 = card (dom (visited st3))"
    by simp_all
  from expanded_at_most_once [of ex_diamond 0 1 st5 0 "bfs_init ex_diamond 0" 0 0 True
      "\<lparr>maxMemoryUse = 0, totalStates = 0\<rparr>"
      "dls_init ex_diamond 0 True \<lparr>maxMemoryUse = 0, totalStates = 0\<rparr>" "\<lambda>s. 0"
      "astar_start ex_diamond 0 (\<lambda>s. 0)" 0 "astar_start ex_diamond 0 (\<lambda>s. 0)"] 5(1,2)
  have c: "once st5 st5' \<and> astep ex_diamond 0 (abs_list st5) (abs_list st5')"
    by blast
  from 1 2 3 4 5 a b c show ?thesis by blast
qed

section \<open>Walks, trails and solutions\<close>

lemma dest_Nil: "dest s [] = s"
  by (simp add: dest_def)

lemma dest_Cons: "dest s (e # es) = dest (fst e) es"
  by (simp add: dest_def)

lemma dest_snoc: "dest s (es @ [e]) = fst e"
  by (simp add: dest_def)

lemma walk_append: "walk P p s (es @ fs) \<longleftrightarrow> walk P p s es \<and> walk P p (dest s es) fs"
  by (induction es arbitrary: s) (simp_all add: dest_Nil dest_Cons)

lemma walk_cost_append: "walk_cost (es @ fs) = walk_cost es + walk_cost fs"
  by (simp add: walk_cost_def)

lemma trail_flag:
  assumes "goal_flags P p G" and "trail P p n"
  shows "snd (snd (snd n)) = G (fst n)"
  using assms(2)
proof (induction rule: trail.induct)
  case start
  from assms(1) show ?case by (simp add: goal_flags_def)
next
  case (step n e)
  with assms(1) have "snd (snd (snd e)) = G (fst e)" unfolding goal_flags_def by blast
  then show ?case by (cases n, cases e) (simp add: child_def)
qed

lemma trail_walk:
  assumes "trail P p n"
  shows "\<exists>es. walk P p (getState P p) es \<and> map (\<lambda>e. fst (snd e)) es = fst (snd n)
           \<and> walk_cost es = fst (snd (snd n)) \<and> dest (getState P p) es = fst n"
  using assms
proof (induction rule: trail.induct)
  case start
  have "walk P p (getState P p) [] \<and> map (\<lambda>e. fst (snd e)) [] = []
      \<and> walk_cost [] = 0 \<and> dest (getState P p) [] = getState P p"
    by (simp add: walk_cost_def dest_Nil)
  then show ?case by (intro exI [of _ "[]"]) simp
next
  case (step n e)
  then obtain es where es: "walk P p (getState P p) es" "map (\<lambda>e. fst (snd e)) es = fst (snd n)"
    "walk_cost es = fst (snd (snd n))" "dest (getState P p) es = fst n" by blast
  obtain s0 s1 s2 s3 where n: "n = (s0, s1, s2, s3)" by (cases n)
  obtain t a c g where e: "e = (t, a, c, g)" by (cases e)
  have "walk P p (getState P p) (es @ [e])" using es step.hyps(2) by (simp add: walk_append)
  moreover have "map (\<lambda>e. fst (snd e)) (es @ [e]) = fst (snd (child n e))"
    using es n e by (simp add: child_def)
  moreover have "walk_cost (es @ [e]) = fst (snd (snd (child n e)))"
    using es n e by (simp add: walk_cost_append) (simp add: child_def walk_cost_def)
  moreover have "dest (getState P p) (es @ [e]) = fst (child n e)"
    using n e by (simp add: dest_snoc child_def)
  ultimately show ?case by blast
qed

lemma trail_solution:
  assumes "goal_flags P p G" and "trail P p (s0, s1, s2, True)"
  shows "solution P p G s1 s2"
proof -
  from trail_flag [OF assms] have "G s0" by simp
  with trail_walk [OF assms(2)] show ?thesis by (auto simp: solution_def)
qed

lemma trail_unit_cost:
  assumes "unit_costs P p" and "trail P p n"
  shows "fst (snd (snd n)) = int (length (fst (snd n)))"
  using assms(2)
proof (induction rule: trail.induct)
  case start
  show ?case by simp
next
  case (step n e)
  with assms(1) have "fst (snd (snd e)) = 1" unfolding unit_costs_def by blast
  with step.IH show ?case by (cases n, cases e) (simp add: child_def)
qed

lemma walk_split_last:
  assumes "walk P p a es" and "s \<in> set (a # map fst es)"
  shows "\<exists>ys zs. es = ys @ zs \<and> walk P p a ys \<and> dest a ys = s \<and> walk P p s zs
            \<and> s \<notin> fst ` set zs \<and> dest a es = dest s zs"
  using assms
proof (induction es arbitrary: a)
  case Nil
  then show ?case by (simp add: dest_Nil)
next
  case (Cons e es)
  show ?case
  proof (cases "s \<in> set (fst e # map fst es)")
    case True
    from Cons.prems(1) have w: "walk P p (fst e) es" and e: "e \<in> set (getSuccessors P p a)"
      by simp_all
    from Cons.IH [OF w True] obtain ys zs where
      yz: "es = ys @ zs" "walk P p (fst e) ys" "dest (fst e) ys = s" "walk P p s zs"
        "s \<notin> fst ` set zs" "dest (fst e) es = dest s zs" by blast
    have "e # es = (e # ys) @ zs \<and> walk P p a (e # ys) \<and> dest a (e # ys) = s \<and> walk P p s zs
        \<and> s \<notin> fst ` set zs \<and> dest a (e # es) = dest s zs"
      using yz e by (simp add: dest_Cons)
    then show ?thesis by blast
  next
    case False
    with Cons.prems(2) have sa: "s = a" by auto
    have "e # es = [] @ (e # es) \<and> walk P p a [] \<and> dest a [] = s \<and> walk P p s (e # es)
        \<and> s \<notin> fst ` set (e # es) \<and> dest a (e # es) = dest s (e # es)"
      using sa False Cons.prems(1) by (simp add: dest_Nil)
    then show ?thesis by blast
  qed
qed

section \<open>Breadth-first search finds a shortest solution\<close>

lemma sorted_const: "\<forall>x \<in> set xs. f x = (k::nat) \<Longrightarrow> sorted (map f xs)"
  by (induction xs) auto

lemma bfs_layers_step:
  fixes P :: "('p, 's, 'a) Problem"
  assumes it: "bfs_iter P p st = Inr st'" and lay: "bfs_layers st"
  shows "bfs_layers st'"
proof -
  from bfs_iter_Inr [OF it] obtain s0 s1 s2 rest where
    fr: "fringe st = (s0, s1, s2, False) # rest" and
    c: "if visited st s0 = None
        then fringe st' = rest @ map (child (s0, s1, s2, False))
                 (fresh ((visited st)(s0 \<mapsto> True)) (getSuccessors P p s0))
           \<and> visited st' = (visited st)(s0 \<mapsto> True) \<and> numExpanded st' = Suc (numExpanded st)
        else fringe st' = rest \<and> visited st' = visited st \<and> numExpanded st' = numExpanded st"
    by blast
  let ?d = "\<lambda>x::('s, 'a) node. length (fst (snd x))"
  from lay fr have so: "sorted (map ?d rest)" and lo: "\<forall>y \<in> set rest. length s1 \<le> ?d y"
    and hi: "\<forall>y \<in> set rest. ?d y \<le> Suc (length s1)"
    by (auto simp: bfs_layers_def)
  have hd_rest: "rest \<noteq> [] \<Longrightarrow> length s1 \<le> ?d (hd rest)" using lo by simp
  show ?thesis
  proof (cases "visited st s0 = None")
    case False
    with c have f: "fringe st' = rest" by simp
    show ?thesis unfolding bfs_layers_def f
    proof (intro conjI ballI)
      show "sorted (map ?d rest)" by (rule so)
      fix x assume x: "x \<in> set rest"
      then have "rest \<noteq> []" by auto
      from hd_rest [OF this] hi x show "?d x \<le> Suc (?d (hd rest))" by force
    qed
  next
    case True
    define cs where "cs = map (child (s0, s1, s2, False))
                 (fresh ((visited st)(s0 \<mapsto> True)) (getSuccessors P p s0))"
    from True c have f: "fringe st' = rest @ cs" by (simp add: cs_def)
    have dc: "\<forall>y \<in> set cs. ?d y = Suc (length s1)"
      by (auto simp: cs_def child_def split: prod.splits)
    show ?thesis unfolding bfs_layers_def f
    proof (intro conjI ballI)
      show "sorted (map ?d (rest @ cs))"
        using so hi dc sorted_const [of cs ?d "Suc (length s1)"] by (auto simp: sorted_append)
      fix x assume x: "x \<in> set (rest @ cs)"
      show "?d x \<le> Suc (?d (hd (rest @ cs)))"
      proof (cases "rest = []")
        case True
        with x dc have "?d x = Suc (length s1)" "cs \<noteq> []" by auto
        moreover from this dc have "?d (hd cs) = Suc (length s1)" by simp
        ultimately show ?thesis using True by simp
      next
        case False
        from hd_rest [OF False] have "length s1 \<le> ?d (hd (rest @ cs))" using False by simp
        moreover from x hi dc have "?d x \<le> Suc (length s1)" by auto
        ultimately show ?thesis by linarith
      qed
    qed
  qed
qed

lemma bfs_cover_step:
  assumes it: "bfs_iter P p st = Inr st'" and lay: "bfs_layers st"
    and flags: "\<forall>x \<in> set (fringe st). snd (snd (snd x)) = G (fst x)"
    and cov: "bfs_cover P p G st n"
  shows "bfs_cover P p G st' n"
proof -
  from bfs_iter_Inr [OF it] obtain s0 s1 s2 rest where
    fr: "fringe st = (s0, s1, s2, False) # rest" and
    c: "if visited st s0 = None
        then fringe st' = rest @ map (child (s0, s1, s2, False))
                 (fresh ((visited st)(s0 \<mapsto> True)) (getSuccessors P p s0))
           \<and> visited st' = (visited st)(s0 \<mapsto> True) \<and> numExpanded st' = Suc (numExpanded st)
        else fringe st' = rest \<and> visited st' = visited st \<and> numExpanded st' = numExpanded st"
    by blast
  from cov obtain x es where x: "x \<in> set (fringe st)" and vx: "visited st (fst x) = None"
    and w: "walk P p (fst x) es" and g: "G (dest (fst x) es)"
    and un: "\<forall>e \<in> set es. visited st (fst e) = None"
    and len: "length (fst (snd x)) + length es \<le> n"
    unfolding bfs_cover_def by blast
  from flags fr have ng: "\<not> G s0" by auto
  from lay fr x have least: "length s1 \<le> length (fst (snd x))"
    by (auto simp: bfs_layers_def)
  show ?thesis
  proof (cases "visited st s0 = None")
    case False
    with c have f: "fringe st' = rest" "visited st' = visited st" by simp_all
    from False vx have "fst x \<noteq> s0" by auto
    with x fr have "x \<in> set rest" by auto
    with vx w g un len show ?thesis unfolding bfs_cover_def f by blast
  next
    case True
    with c have f: "fringe st' = rest @ map (child (s0, s1, s2, False))
                 (fresh ((visited st)(s0 \<mapsto> True)) (getSuccessors P p s0))"
      and v: "visited st' = (visited st)(s0 \<mapsto> True)" by simp_all
    show ?thesis
    proof (cases "s0 \<in> set (fst x # map fst es)")
      case False
      then have "fst x \<noteq> s0" and "\<forall>e \<in> set es. fst e \<noteq> s0" by auto
      with x fr vx un have "x \<in> set (fringe st')" "visited st' (fst x) = None"
        "\<forall>e \<in> set es. visited st' (fst e) = None"
        by (auto simp: f v)
      with w g len show ?thesis unfolding bfs_cover_def by blast
    next
      case True
      from walk_split_last [OF w True] obtain ys zs where
        yz: "es = ys @ zs" "walk P p s0 zs" "s0 \<notin> fst ` set zs" "dest (fst x) es = dest s0 zs"
        by blast
      from g yz(4) ng have "zs \<noteq> []" by (auto simp: dest_Nil)
      then obtain e zs' where zs: "zs = e # zs'" by (cases zs) auto
      from yz(2) zs have e: "e \<in> set (getSuccessors P p s0)" and w': "walk P p (fst e) zs'"
        by simp_all
      from yz(3) zs have ne: "fst e \<noteq> s0" "\<forall>e' \<in> set zs'. fst e' \<noteq> s0" by auto
      from un yz(1) zs have ue: "visited st (fst e) = None"
        "\<forall>e' \<in> set zs'. visited st (fst e') = None" by auto
      let ?y = "child (s0, s1, s2, False) e"
      from e ue(1) ne(1) have "e \<in> set (fresh ((visited st)(s0 \<mapsto> True)) (getSuccessors P p s0))"
        by (simp add: fresh_def)
      then have 1: "?y \<in> set (fringe st')" by (simp add: f)
      have fy: "fst ?y = fst e" "length (fst (snd ?y)) = Suc (length s1)"
        by (cases e; simp add: child_def)+
      have 2: "visited st' (fst ?y) = None" using ue(1) ne(1) by (simp add: fy v)
      have 3: "walk P p (fst ?y) zs'" using w' by (simp add: fy)
      have 4: "G (dest (fst ?y) zs')" using g yz(4) zs by (simp add: fy dest_Cons)
      have 5: "\<forall>e' \<in> set zs'. visited st' (fst e') = None" using ue(2) ne(2) by (simp add: v)
      have 6: "length (fst (snd ?y)) + length zs' \<le> n"
        using len least yz(1) zs by (simp add: fy)
      from 1 2 3 4 5 6 show ?thesis unfolding bfs_cover_def by blast
    qed
  qed
qed

lemma tinv_trail: "tinv P p (abs_list st) \<Longrightarrow> x \<in> set (fringe st) \<Longrightarrow> trail P p x"
  by (simp add: tinv_def abs_list_def)

lemma bfs_bound:
  assumes gf: "goal_flags P p G" and sol: "solution P p G as c"
    and res: "breadthSearch P p = Some r"
  shows "\<exists>s0 s1 s2 n m. r = ((s1, Finite s2, n), m) \<and> trail P p (s0, s1, s2, True)
           \<and> length s1 \<le> length as"
proof (rule loop_result [where iter = "bfs_iter P p" and st = "bfs_init P p" and r = r
      and I = "\<lambda>st. tinv P p (abs_list st) \<and> bfs_layers st \<and> bfs_cover P p G st (length as)"])
  show "loop (bfs_iter P p) (bfs_init P p) = Some r" using res by (simp add: breadthSearch_def)
next
  from sol obtain es where es: "walk P p (getState P p) es" "map (\<lambda>e. fst (snd e)) es = as"
    "G (dest (getState P p) es)" unfolding solution_def by blast
  from es(2) have "length es = length as" by auto
  with es have "walk P p (getState P p) es \<and> G (dest (getState P p) es)
      \<and> length es \<le> length as" by simp
  then have "bfs_cover P p G (bfs_init P p) (length as)"
    unfolding bfs_cover_def by (simp add: bfs_init_def Let_def) (rule exI [of _ es], simp)
  moreover have "bfs_layers (bfs_init P p)" by (simp add: bfs_layers_def bfs_init_def Let_def)
  ultimately show "tinv P p (abs_list (bfs_init P p)) \<and> bfs_layers (bfs_init P p)
      \<and> bfs_cover P p G (bfs_init P p) (length as)"
    using tinv_bfs_init [of P p] by simp
next
  fix s s'
  assume i: "tinv P p (abs_list s) \<and> bfs_layers s \<and> bfs_cover P p G s (length as)"
    and it: "bfs_iter P p s = Inr s'"
  from i have i1: "tinv P p (abs_list s)" and i2: "bfs_layers s"
    and i3: "bfs_cover P p G s (length as)" by simp_all
  have fl: "\<forall>x \<in> set (fringe s). snd (snd (snd x)) = G (fst x)"
  proof
    fix x assume "x \<in> set (fringe s)"
    from trail_flag [OF gf tinv_trail [OF i1 this]] show "snd (snd (snd x)) = G (fst x)" .
  qed
  have "tinv P p (abs_list s')" by (rule tinv_astep [OF bfs_astep [OF it] i1])
  moreover have "bfs_layers s'" by (rule bfs_layers_step [OF it i2])
  moreover have "bfs_cover P p G s' (length as)" by (rule bfs_cover_step [OF it i2 fl i3])
  ultimately show "tinv P p (abs_list s') \<and> bfs_layers s' \<and> bfs_cover P p G s' (length as)"
    by simp
next
  fix s r'
  assume i: "tinv P p (abs_list s) \<and> bfs_layers s \<and> bfs_cover P p G s (length as)"
    and it: "bfs_iter P p s = Inl r'"
  from i obtain x es where x: "x \<in> set (fringe s)" and "walk P p (fst x) es"
    and len: "length (fst (snd x)) + length es \<le> length as"
    unfolding bfs_cover_def by blast
  from x have "fringe s \<noteq> []" by auto
  with bfs_iter_Inl [OF it] obtain s0 s1 s2 rest m where
    fr: "fringe s = (s0, s1, s2, True) # rest" and r': "r' = ((s1, Finite s2, numExpanded s), m)"
    by blast
  from i fr have t: "trail P p (s0, s1, s2, True)"
    using tinv_trail [of P p s "(s0, s1, s2, True)"] by simp
  from i fr x have "length s1 \<le> length (fst (snd x))" by (auto simp: bfs_layers_def)
  with len have "length s1 \<le> length as" by simp
  with r' t show "\<exists>s0 s1 s2 n m. r' = ((s1, Finite s2, n), m) \<and> trail P p (s0, s1, s2, True)
           \<and> length s1 \<le> length as" by blast
qed

text \<open>
  Claim C3. On a finite reachable state space, with goal flags that tell whether a
  state is a goal, unit step costs and some sequence of actions that leads from the
  start to a goal, \<^verbatim>\<open>breadthSearch\<close> returns such a sequence, no such sequence is
  shorter, and the returned cost is its length.
\<close>

theorem breadthSearch_shortest:
  assumes fin: "finite (reachable P p)" and gf: "goal_flags P p G" and uc: "unit_costs P p"
    and sol: "solution P p G as0 c0"
  shows "\<exists>path n m. breadthSearch P p = Some ((path, Finite (int (length path)), n), m)
           \<and> solution P p G path (int (length path))
           \<and> (\<forall>as c. solution P p G as c \<longrightarrow> length path \<le> length as)"
proof -
  from breadthSearch_terminates [OF fin] obtain r where r: "breadthSearch P p = Some r" by blast
  from bfs_bound [OF gf sol r] obtain s0 s1 s2 n m where
    v: "r = ((s1, Finite s2, n), m)" and t: "trail P p (s0, s1, s2, True)" by blast
  from trail_unit_cost [OF uc t] have c: "s2 = int (length s1)" by simp
  from trail_solution [OF gf t] c have s: "solution P p G s1 (int (length s1))" by simp
  have "\<forall>as c. solution P p G as c \<longrightarrow> length s1 \<le> length as"
  proof (intro allI impI)
    fix as c assume "solution P p G as c"
    from bfs_bound [OF gf this r] v show "length s1 \<le> length as" by auto
  qed
  with r v c s show ?thesis by blast
qed

lemma ex_diamond_trail: "trail ex_diamond 0 n \<Longrightarrow> fst n \<le> 3"
proof (induction rule: trail.induct)
  case start
  show ?case by (simp add: ex_defs)
next
  case (step n e)
  then show ?case by (cases n, cases e) (auto simp: ex_defs child_def split: if_splits)
qed

lemma ex_diamond_finite: "finite (reachable ex_diamond 0)"
proof (rule finite_subset)
  show "reachable ex_diamond 0 \<subseteq> {..3}" using ex_diamond_trail by (auto simp: reachable_def)
  show "finite {..3::nat}" by simp
qed

lemma ex_diamond_flags: "goal_flags ex_diamond 0 ex_goal"
  by (auto simp: goal_flags_def ex_defs split: if_splits)

lemma ex_diamond_unit: "unit_costs ex_diamond 0"
  by (auto simp: unit_costs_def ex_defs split: if_splits)

lemma ex_diamond_solution: "solution ex_diamond 0 ex_goal [2, 3] 2"
  unfolding solution_def
  by (rule exI [of _ "[(2, 2, 1, False), (3, 3, 1, True)]"])
    (simp add: ex_defs walk_cost_def dest_def)

lemma ex_diamond_bfs:
  "breadthSearch ex_diamond 0 = Some (([1, 3], Finite 2, 3), \<lparr>maxMemoryUse = 2, totalStates = 3\<rparr>)"
  by (simp add: loop.simps bfs_defs ex_defs)

theorem breadthSearch_shortest_witness:
  "breadthSearch ex_diamond 0
       = Some (([1, 3], Finite 2, 3), \<lparr>maxMemoryUse = 2, totalStates = 3\<rparr>)
   \<and> solution ex_diamond 0 ex_goal [1, 3] 2
   \<and> \<not> (\<exists>as c. solution ex_diamond 0 ex_goal as c \<and> length as < 2)"
  using breadthSearch_shortest [OF ex_diamond_finite ex_diamond_flags ex_diamond_unit
      ex_diamond_solution] ex_diamond_bfs
  by auto

section \<open>Heuristic search with a consistent heuristic\<close>

lemma walk_trail:
  assumes "trail P p n" and "walk P p (fst n) es"
  shows "\<exists>n'. trail P p n' \<and> fst n' = dest (fst n) es"
  using assms
proof (induction es arbitrary: n)
  case Nil
  then have "trail P p n \<and> fst n = dest (fst n) []" by (simp add: dest_Nil)
  then show ?case by (rule exI)
next
  case (Cons e es)
  from Cons.prems have e: "e \<in> set (getSuccessors P p (fst n))" and w: "walk P p (fst e) es"
    by simp_all
  have f: "fst (child n e) = fst e" by (cases n, cases e) (simp add: child_def)
  from trail.step [OF Cons.prems(1) e] have t: "trail P p (child n e)" .
  from Cons.IH [OF t] w f obtain n' where "trail P p n' \<and> fst n' = dest (fst e) es" by auto
  then have "trail P p n' \<and> fst n' = dest (fst n) (e # es)" by (simp add: dest_Cons)
  then show ?case by (rule exI)
qed

lemma consistent_walk:
  assumes con: "consistent P p h" and "trail P p n" and "walk P p (fst n) es"
  shows "h (fst n) \<le> walk_cost es + h (dest (fst n) es)"
  using assms(2,3)
proof (induction es arbitrary: n)
  case Nil
  show ?case by (simp add: walk_cost_def dest_Nil)
next
  case (Cons e es)
  from Cons.prems have e: "e \<in> set (getSuccessors P p (fst n))" and w: "walk P p (fst e) es"
    by simp_all
  have f: "fst (child n e) = fst e" by (cases n, cases e) (simp add: child_def)
  from trail.step [OF Cons.prems(1) e] have t: "trail P p (child n e)" .
  from Cons.IH [OF t] w f have "h (fst e) \<le> walk_cost es + h (dest (fst e) es)" by simp
  moreover from con Cons.prems(1) e have "h (fst n) \<le> fst (snd (snd e)) + h (fst e)"
    unfolding consistent_def by blast
  ultimately show ?case by (simp add: walk_cost_def dest_Cons)
qed

lemma least_fst_le:
  assumes "\<forall>y \<in> set H. (k, x) \<le> y" and "(k', x') \<in> set H"
  shows "k \<le> (k'::int)"
proof -
  from assms have "(k, x) \<le> (k', x')" by blast
  then show ?thesis by (auto simp: less_eq_prod_def)
qed

lemma astar_keys_step:
  assumes it: "astar_iter P p h st = Inr st'" and keys: "astar_keys h st"
  shows "astar_keys h st'"
proof -
  from astar_iter_Inr [OF it] obtain score s0 s1 s2 where
    c: "if visited st s0 = None
        then mset (heap (fringe st'))
               = mset (heap (fringe st)) - {#(score, (s0, s1, s2, False))#}
                 + mset (map (\<lambda>e. entry h (child (s0, s1, s2, False) e))
                     (fresh ((visited st)(s0 \<mapsto> True)) (getSuccessors P p s0)))
           \<and> visited st' = (visited st)(s0 \<mapsto> True) \<and> numExpanded st' = Suc (numExpanded st)
        else mset (heap (fringe st')) = mset (heap (fringe st)) - {#(score, (s0, s1, s2, False))#}
           \<and> visited st' = visited st \<and> numExpanded st' = numExpanded st"
    by blast
  have old: "kx = entry h (snd kx)"
    if "kx \<in># mset (heap (fringe st)) - {#(score, (s0, s1, s2, False))#}" for kx
    using keys in_diffD [OF that] unfolding astar_keys_def by simp
  show ?thesis
    unfolding astar_keys_def
  proof
    fix kx assume "kx \<in> set (heap (fringe st'))"
    then have "kx \<in># mset (heap (fringe st'))" by simp
    with c have "kx \<in># mset (heap (fringe st)) - {#(score, (s0, s1, s2, False))#}
        \<or> kx \<in># mset (map (\<lambda>e. entry h (child (s0, s1, s2, False) e))
                     (fresh ((visited st)(s0 \<mapsto> True)) (getSuccessors P p s0)))"
      by (cases "visited st s0 = None") (simp_all del: mset_map)
    then have "kx \<in># mset (heap (fringe st)) - {#(score, (s0, s1, s2, False))#}
        \<or> kx \<in> set (map (\<lambda>e. entry h (child (s0, s1, s2, False) e))
                     (fresh ((visited st)(s0 \<mapsto> True)) (getSuccessors P p s0)))"
      by (simp del: set_map mset_map)
    then show "kx = entry h (snd kx)"
    proof
      assume "kx \<in># mset (heap (fringe st)) - {#(score, (s0, s1, s2, False))#}"
      then show ?thesis by (rule old)
    next
      assume "kx \<in> set (map (\<lambda>e. entry h (child (s0, s1, s2, False) e))
                     (fresh ((visited st)(s0 \<mapsto> True)) (getSuccessors P p s0)))"
      then show ?thesis by (auto simp: snd_entry)
    qed
  qed
qed

lemma astar_cover_step:
  fixes P :: "('p, 's::linorder, 'a::linorder) Problem"
  assumes it: "astar_iter P p h st = Inr st'" and keys: "astar_keys h st"
    and tr: "tinv P p (abs_astar st)" and con: "consistent P p h"
    and flags: "goal_flags P p G"
    and cov: "astar_cover P p G st C"
    and hi: "heap_inv (heap (fringe st))"
  shows "astar_cover P p G st' C"
proof -
  from astar_iter_Inr [OF it] hi obtain score s0 s1 s2 where
    ne: "heap (fringe st) \<noteq> []" and
    m: "heap (fringe st) ! 0 = (score, (s0, s1, s2, False))" and
    mn: "\<forall>y \<in> set (heap (fringe st)). (score, (s0, s1, s2, False)) \<le> y" and
    c: "if visited st s0 = None
        then mset (heap (fringe st'))
               = mset (heap (fringe st)) - {#(score, (s0, s1, s2, False))#}
                 + mset (map (\<lambda>e. entry h (child (s0, s1, s2, False) e))
                     (fresh ((visited st)(s0 \<mapsto> True)) (getSuccessors P p s0)))
           \<and> visited st' = (visited st)(s0 \<mapsto> True) \<and> numExpanded st' = Suc (numExpanded st)
        else mset (heap (fringe st')) = mset (heap (fringe st)) - {#(score, (s0, s1, s2, False))#}
           \<and> visited st' = visited st \<and> numExpanded st' = numExpanded st"
    by blast
  let ?M = "(s0, s1, s2, False)"
  let ?H = "heap (fringe st)"
  let ?new = "map (\<lambda>e. entry h (child ?M e))
                    (fresh ((visited st)(s0 \<mapsto> True)) (getSuccessors P p s0))"
  from cov obtain k x es where kx: "(k, x) \<in> set ?H" and vx: "visited st (fst x) = None"
    and w: "walk P p (fst x) es" and g: "G (dest (fst x) es)"
    and un: "\<forall>e \<in> set es. visited st (fst e) = None"
    and len: "fst (snd (snd x)) + walk_cost es \<le> C"
    unfolding astar_cover_def by force
  have inH: "(score, ?M) \<in> set ?H" using heap_first_in [OF ne] m by simp
  from tr have trails: "\<And>k y. (k, y) \<in> set ?H \<Longrightarrow> trail P p y"
    by (force simp: tinv_def abs_astar_def)
  from trails [OF inH] have tM: "trail P p ?M" .
  from trails [OF kx] have tx: "trail P p x" .
  from trail_flag [OF flags tM] have ng: "\<not> G s0" by simp
  from keys inH have score: "score = s2 + h s0" by (auto simp: astar_keys_def entry_def)
  from keys kx have k: "k = fst (snd (snd x)) + h (fst x)" by (auto simp: astar_keys_def entry_def)
  from least_fst_le [OF mn kx] have least: "score \<le> k" .
  have stay: "(k, x) \<in># mset ?H - {#(score, ?M)#}" if "fst x \<noteq> s0"
  proof -
    from that have "(k, x) \<noteq> (score, ?M)" by (cases x) auto
    then have "count (mset ?H - {#(score, ?M)#}) (k, x) = count (mset ?H) (k, x)" by auto
    moreover from kx have "0 < count (mset ?H) (k, x)" by (simp add: count_mset_0_iff)
    ultimately show ?thesis by (simp add: count_greater_zero_iff [symmetric] del: count_greater_zero_iff)
  qed
  have setH: "set (heap (fringe st')) = set_mset (mset (heap (fringe st')))" by simp
  show ?thesis
  proof (cases "visited st s0 = None")
    case False
    with c have f: "mset (heap (fringe st')) = mset ?H - {#(score, ?M)#}"
      and v: "visited st' = visited st" by simp_all
    from False vx have "fst x \<noteq> s0" by auto
    from stay [OF this] have "(k, x) \<in> set (heap (fringe st'))" unfolding setH f .
    with vx w g un len show ?thesis unfolding astar_cover_def v by force
  next
    case True
    with c have f: "mset (heap (fringe st')) = mset ?H - {#(score, ?M)#} + mset ?new"
      and v: "visited st' = (visited st)(s0 \<mapsto> True)" by simp_all
    show ?thesis
    proof (cases "s0 \<in> set (fst x # map fst es)")
      case False
      then have nx: "fst x \<noteq> s0" and "\<forall>e \<in> set es. fst e \<noteq> s0" by auto
      moreover from stay [OF nx] have "(k, x) \<in> set (heap (fringe st'))"
        unfolding setH f by simp
      ultimately have "(k, x) \<in> set (heap (fringe st'))"
        "visited st' (fst x) = None" "\<forall>e \<in> set es. visited st' (fst e) = None"
        using vx un by (auto simp: v)
      with w g len show ?thesis unfolding astar_cover_def by force
    next
      case True
      from walk_split_last [OF w True] obtain ys zs where
        yz: "es = ys @ zs" "walk P p (fst x) ys" "dest (fst x) ys = s0" "walk P p s0 zs"
          "s0 \<notin> fst ` set zs" "dest (fst x) es = dest s0 zs"
        by blast
      from g yz(6) ng have "zs \<noteq> []" by (auto simp: dest_Nil)
      then obtain e zs' where zs: "zs = e # zs'" by (cases zs) auto
      from yz(4) zs have e: "e \<in> set (getSuccessors P p s0)" and w': "walk P p (fst e) zs'"
        by simp_all
      from yz(5) zs have ne': "fst e \<noteq> s0" "\<forall>e' \<in> set zs'. fst e' \<noteq> s0" by auto
      from un yz(1) zs have ue: "visited st (fst e) = None"
        "\<forall>e' \<in> set zs'. visited st (fst e') = None" by auto
      let ?y = "child ?M e"
      from e ue(1) ne'(1) have "e \<in> set (fresh ((visited st)(s0 \<mapsto> True)) (getSuccessors P p s0))"
        by (simp add: fresh_def)
      then have "entry h ?y \<in> set ?new" by simp
      then have 1: "entry h ?y \<in> set (heap (fringe st'))" unfolding setH f by simp
      have fy: "fst ?y = fst e" "fst (snd (snd ?y)) = s2 + fst (snd (snd e))"
        by (cases e; simp add: child_def)+
      have 2: "visited st' (fst ?y) = None" using ue(1) ne'(1) by (simp add: fy v)
      have 3: "walk P p (fst ?y) zs'" using w' by (simp add: fy)
      have 4: "G (dest (fst ?y) zs')" using g yz(6) zs by (simp add: fy dest_Cons)
      have 5: "\<forall>e' \<in> set zs'. visited st' (fst e') = None" using ue(2) ne'(2) by (simp add: v)
      from consistent_walk [OF con tx yz(2)] yz(3)
      have "h (fst x) \<le> walk_cost ys + h s0" by simp
      with least score k have "s2 \<le> fst (snd (snd x)) + walk_cost ys" by simp
      moreover have "walk_cost es = walk_cost ys + (fst (snd (snd e)) + walk_cost zs')"
        using yz(1) zs by (simp add: walk_cost_def)
      ultimately have 6: "fst (snd (snd ?y)) + walk_cost zs' \<le> C" using len by (simp add: fy)
      from 1 2 3 4 5 6 show ?thesis unfolding astar_cover_def
        by (intro bexI [of _ "entry h ?y"] exI [of _ zs']) (simp_all add: snd_entry)
    qed
  qed
qed

section \<open>What the searches return\<close>

lemma breadthSearch_sound:
  assumes "breadthSearch P p = Some r"
  shows "sound_outcome P p (fst r)"
proof (rule loop_result [where iter = "bfs_iter P p" and st = "bfs_init P p" and r = r
      and I = "\<lambda>st. tinv P p (abs_list st)"])
  show "loop (bfs_iter P p) (bfs_init P p) = Some r" using assms by (simp add: breadthSearch_def)
  show "tinv P p (abs_list (bfs_init P p))" by (rule tinv_bfs_init)
next
  fix s s' assume i: "tinv P p (abs_list s)" and it: "bfs_iter P p s = Inr s'"
  show "tinv P p (abs_list s')" by (rule tinv_astep [OF bfs_astep [OF it] i])
next
  fix s r' assume i: "tinv P p (abs_list s)" and it: "bfs_iter P p s = Inl r'"
  from bfs_iter_Inl [OF it] show "sound_outcome P p (fst r')"
  proof (elim disjE exE conjE)
    assume "r' = (([], Infinity, numExpanded s), globals s)"
    then show ?thesis by (simp add: sound_outcome_def)
  next
    fix s0 s1 s2 rest m
    assume fr: "fringe s = (s0, s1, s2, True) # rest" and r': "r' = ((s1, Finite s2, numExpanded s), m)"
    from tinv_trail [OF i, of "(s0, s1, s2, True)"] fr have "trail P p (s0, s1, s2, True)" by simp
    with r' show ?thesis by (auto simp: sound_outcome_def)
  qed
qed

lemma depthSearch_sound:
  assumes "depthSearch P p = Some r"
  shows "sound_outcome P p (fst r)"
proof (rule loop_result [where iter = "dfs_iter P p" and st = "bfs_init P p" and r = r
      and I = "\<lambda>st. tinv P p (abs_list st)"])
  show "loop (dfs_iter P p) (bfs_init P p) = Some r" using assms by (simp add: depthSearch_def)
  show "tinv P p (abs_list (bfs_init P p))" by (rule tinv_bfs_init)
next
  fix s s' assume i: "tinv P p (abs_list s)" and it: "dfs_iter P p s = Inr s'"
  show "tinv P p (abs_list s')" by (rule tinv_astep [OF dfs_astep [OF it] i])
next
  fix s r' assume i: "tinv P p (abs_list s)" and it: "dfs_iter P p s = Inl r'"
  from dfs_iter_Inl [OF it] show "sound_outcome P p (fst r')"
  proof (elim disjE exE conjE)
    assume "r' = (([], Infinity, numExpanded s), globals s)"
    then show ?thesis by (simp add: sound_outcome_def)
  next
    fix s0 s1 s2 rest m
    assume fr: "fringe s = rest @ [(s0, s1, s2, True)]" and r': "r' = ((s1, Finite s2, numExpanded s), m)"
    from tinv_trail [OF i, of "(s0, s1, s2, True)"] fr have "trail P p (s0, s1, s2, True)" by simp
    with r' show ?thesis by (auto simp: sound_outcome_def)
  qed
qed

lemma depthLimitedSearch_sound:
  assumes "depthLimitedSearch P p maxDepth reset m = Some r"
  shows "sound_outcome P p (fst r)"
proof (rule loop_result [where iter = "dls_iter P p maxDepth" and st = "dls_init P p reset m"
      and r = r and I = "\<lambda>st. tinv P p (abs_dls st)"])
  show "loop (dls_iter P p maxDepth) (dls_init P p reset m) = Some r"
    using assms by (simp add: depthLimitedSearch_def)
  show "tinv P p (abs_dls (dls_init P p reset m))" by (rule tinv_dls_init)
next
  fix s s' assume i: "tinv P p (abs_dls s)" and it: "dls_iter P p maxDepth s = Inr s'"
  show "tinv P p (abs_dls s')" by (rule tinv_astep [OF dls_astep [OF it] i])
next
  fix s r' assume i: "tinv P p (abs_dls s)" and it: "dls_iter P p maxDepth s = Inl r'"
  from dls_iter_Inl [OF it] show "sound_outcome P p (fst r')"
  proof (elim disjE exE conjE)
    assume "r' = (([], Infinity, numExpanded s), globals s)"
    then show ?thesis by (simp add: sound_outcome_def)
  next
    fix s0 s1 s2 s4 rest
    assume fr: "fringe s = rest @ [(s0, s1, s2, True, s4)]"
      and r': "r' = ((s1, Finite s2, numExpanded s), globals s)"
    from i fr have "trail P p (undepth (s0, s1, s2, True, s4))"
      by (simp add: tinv_def abs_dls_def)
    then have "trail P p (s0, s1, s2, True)" by (simp add: undepth_def)
    with r' show ?thesis by (auto simp: sound_outcome_def)
  qed
qed

lemma aStarSearch_sound:
  assumes "aStarSearch P p h = Some r"
  shows "\<exists>v m. r = Inr (v, m) \<and> sound_outcome P p v"
proof (rule loop_result [where iter = "astar_iter P p h" and st = "astar_start P p h" and r = r
      and I = "\<lambda>st. tinv P p (abs_astar st)"])
  show "loop (astar_iter P p h) (astar_start P p h) = Some r"
    using assms by (simp add: aStarSearch_loop)
  show "tinv P p (abs_astar (astar_start P p h))" by (rule tinv_astar_start)
next
  fix s s' assume i: "tinv P p (abs_astar s)" and it: "astar_iter P p h s = Inr s'"
  show "tinv P p (abs_astar s')" by (rule tinv_astep [OF astar_astep [OF it] i])
next
  fix s r' assume i: "tinv P p (abs_astar s)" and it: "astar_iter P p h s = Inl r'"
  from astar_iter_Inl [OF it] show "\<exists>v m. r' = Inr (v, m) \<and> sound_outcome P p v"
  proof (elim disjE exE conjE)
    assume "r' = Inr (([], Infinity, numExpanded s), globals s)"
    then show ?thesis by (simp add: sound_outcome_def)
  next
    fix score s0 s1 s2 m
    assume ne: "heap (fringe s) \<noteq> []"
      and mn: "heap (fringe s) ! 0 = (score, (s0, s1, s2, True))"
      and r': "r' = Inr ((s1, Finite s2, numExpanded s), m)"
    have "(score, (s0, s1, s2, True)) \<in> set (heap (fringe s))"
      using heap_first_in [OF ne] mn by simp
    with i have "trail P p (s0, s1, s2, True)" by (force simp: tinv_def abs_astar_def)
    with r' show ?thesis by (auto simp: sound_outcome_def)
  qed
qed

lemma id_over_sound:
  assumes "id_over P state ds p acc m = Some ((v, m'), p')" and "setState P p state = p"
  shows "sound_outcome P p v"
  using assms
proof (induction ds arbitrary: acc m)
  case Nil
  then show ?case by (auto simp: sound_outcome_def)
next
  case (Cons d ds)
  from Cons.prems obtain path1 c1 e1 m1 where
    d: "depthLimitedSearch P p d False m = Some ((path1, c1, e1), m1)"
    by (auto split: option.splits)
  from depthLimitedSearch_sound [OF d] have s: "sound_outcome P p (path1, c1, e1)" by simp
  show ?case
  proof (cases "path1 = []")
    case True
    with Cons.prems d have "id_over P state ds p (acc + e1) m1 = Some ((v, m'), p')" by simp
    from Cons.IH [OF this Cons.prems(2)] show ?thesis .
  next
    case False
    with Cons.prems d have "v = (path1, c1, acc + e1)" by simp
    with s show ?thesis by (simp add: sound_outcome_def)
  qed
qed

lemma iterativeDeepening_sound:
  assumes "iterativeDeepening P p maxDepth = Some ((v, m), p')"
    and "setState P p (getState P p) = p"
  shows "sound_outcome P p v"
  using assms id_over_sound [of P "getState P p" "[1..maxDepth]" p 0
      "\<lparr>maxMemoryUse = 0, totalStates = 0\<rparr>" v m p']
  by (simp add: iterativeDeepening_def Let_def id_loop_over)

lemma sound_outcome_solution:
  assumes "goal_flags P p G" and "sound_outcome P p (path, Finite c, n)"
  shows "solution P p G path c"
  using assms trail_solution [OF assms(1)] by (auto simp: sound_outcome_def)

lemma astar_bound:
  fixes P :: "('p, 's::linorder, 'a::linorder) Problem"
  assumes gf: "goal_flags P p G" and nn: "nonnegative h" and adm: "admissible P p G h"
    and con: "consistent P p h" and sol: "solution P p G as c"
    and res: "aStarSearch P p h = Some r"
  shows "\<exists>path c' n m. r = Inr ((path, Finite c', n), m) \<and> c' \<le> c"
proof (rule loop_result [where iter = "astar_iter P p h" and st = "astar_start P p h" and r = r
      and I = "\<lambda>st. tinv P p (abs_astar st) \<and> astar_keys h st \<and> astar_cover P p G st c
                 \<and> heap_inv (heap (fringe st))"])
  show "loop (astar_iter P p h) (astar_start P p h) = Some r"
    using res by (simp add: aStarSearch_loop)
next
  from sol obtain es where es: "walk P p (getState P p) es" "walk_cost es = c"
    "G (dest (getState P p) es)" unfolding solution_def by blast
  have hp: "heap (fringe (astar_start P p h))
      = [(h (getState P p), (getState P p, [], 0, isSolved P p))]"
    "visited (astar_start P p h) = Map.empty"
    by (simp_all add: astar_start_def)
  have "astar_keys h (astar_start P p h)" by (simp add: astar_keys_def hp entry_def)
  moreover have "astar_cover P p G (astar_start P p h) c"
    unfolding astar_cover_def hp using es by (simp, intro exI [of _ es]) simp
  ultimately show "tinv P p (abs_astar (astar_start P p h)) \<and> astar_keys h (astar_start P p h)
      \<and> astar_cover P p G (astar_start P p h) c \<and> heap_inv (heap (fringe (astar_start P p h)))"
    using tinv_astar_start [of P p h] heap_inv_astar_start [of P p h] by simp
next
  fix s s'
  assume i: "tinv P p (abs_astar s) \<and> astar_keys h s \<and> astar_cover P p G s c
               \<and> heap_inv (heap (fringe s))"
    and it: "astar_iter P p h s = Inr s'"
  from i have i1: "tinv P p (abs_astar s)" and i2: "astar_keys h s"
    and i3: "astar_cover P p G s c" and i4: "heap_inv (heap (fringe s))" by simp_all
  have "tinv P p (abs_astar s')" by (rule tinv_astep [OF astar_astep [OF it] i1])
  moreover have "astar_keys h s'" by (rule astar_keys_step [OF it i2])
  moreover have "astar_cover P p G s' c" by (rule astar_cover_step [OF it i2 i1 con gf i3 i4])
  moreover have "heap_inv (heap (fringe s'))" using astar_iter_Inr [OF it] i4 by blast
  ultimately show "tinv P p (abs_astar s') \<and> astar_keys h s' \<and> astar_cover P p G s' c
      \<and> heap_inv (heap (fringe s'))"
    by simp
next
  fix s r'
  assume i: "tinv P p (abs_astar s) \<and> astar_keys h s \<and> astar_cover P p G s c
               \<and> heap_inv (heap (fringe s))"
    and it: "astar_iter P p h s = Inl r'"
  from i obtain k x es where kx: "(k, x) \<in> set (heap (fringe s))"
    and w: "walk P p (fst x) es" and g: "G (dest (fst x) es)"
    and len: "fst (snd (snd x)) + walk_cost es \<le> c"
    unfolding astar_cover_def by force
  from kx have "heap (fringe s) \<noteq> []" by auto
  with astar_iter_Inl [OF it] obtain score s0 s1 s2 m where
    ne: "heap (fringe s) \<noteq> []"
    and mn: "heap (fringe s) ! 0 = (score, (s0, s1, s2, True))"
    and r': "r' = Inr ((s1, Finite s2, numExpanded s), m)"
    by blast
  have inH: "(score, (s0, s1, s2, True)) \<in> set (heap (fringe s))"
    using heap_first_in [OF ne] mn by simp
  from i have hi: "heap_inv (heap (fringe s))" by simp
  have least: "\<forall>y \<in> set (heap (fringe s)). (score, (s0, s1, s2, True)) \<le> y"
  proof
    fix y assume "y \<in> set (heap (fringe s))"
    then obtain i where "i < length (heap (fringe s))" "heap (fringe s) ! i = y"
      by (auto simp: in_set_conv_nth)
    with heap_inv_root [OF hi, of i] mn show "(score, (s0, s1, s2, True)) \<le> y" by simp
  qed
  from i inH have score: "score = s2 + h s0" by (auto simp: astar_keys_def entry_def)
  from i kx have k: "k = fst (snd (snd x)) + h (fst x)" by (auto simp: astar_keys_def entry_def)
  from i kx have tx: "trail P p x" by (force simp: tinv_def abs_astar_def)
  from adm tx w g have "h (fst x) \<le> walk_cost es" unfolding admissible_def by blast
  moreover from least_fst_le [OF least kx] have "score \<le> k" .
  moreover from nn have "0 \<le> h s0" by (simp add: nonnegative_def)
  ultimately have "s2 \<le> c" using score k len by simp
  with r' show "\<exists>path c' n m. r' = Inr ((path, Finite c', n), m) \<and> c' \<le> c" by blast
qed

lemma astar_le_sound:
  fixes P :: "('p, 's::linorder, 'a::linorder) Problem"
  assumes gf: "goal_flags P p G" and nn: "nonnegative h" and adm: "admissible P p G h"
    and con: "consistent P p h"
    and res: "aStarSearch P p h = Some (Inr ((pa, ca, na), ma))"
    and other: "sound_outcome P p v"
  shows "cost_le ca (fst (snd v))"
proof (cases "fst (snd v)")
  case Infinity
  then show ?thesis by (cases ca) simp_all
next
  case (Finite c)
  obtain path n where v: "v = (path, Finite c, n)" using Finite by (cases v) auto
  from sound_outcome_solution [OF gf] other v have "solution P p G path c" by simp
  from astar_bound [OF gf nn adm con this res] have "\<exists>c'. ca = Finite c' \<and> c' \<le> c" by simp
  with Finite show ?thesis by auto
qed

lemma ex_walk_nonneg: "walk ex_problem p s es \<Longrightarrow> 0 \<le> walk_cost es"
proof (induction es arbitrary: s)
  case Nil
  show ?case by (simp add: walk_cost_def)
next
  case (Cons e es)
  from Cons.prems have "e \<in> set (ex_succs s)" "walk ex_problem p (fst e) es"
    by (simp_all add: ex_problem_def table_problem_def)
  with Cons.IH [of "fst e"] show ?case
    by (auto simp: walk_cost_def ex_succs_def split: if_splits)
qed

lemma ex_walk_from_1:
  assumes "walk ex_problem p 1 es" and "ex_goal (dest 1 es)"
  shows "11 \<le> walk_cost es"
proof (cases es)
  case Nil
  with assms(2) show ?thesis by (simp add: dest_Nil ex_goal_def)
next
  case (Cons e es1)
  with assms(1) have e: "e = (2, 2, 1, False)" and w1: "walk ex_problem p 2 es1"
    by (auto simp: ex_problem_def table_problem_def ex_succs_def)
  show ?thesis
  proof (cases es1)
    case Nil
    with assms(2) Cons e show ?thesis by (simp add: dest_def ex_goal_def)
  next
    case (Cons e' es2)
    with w1 have e': "e' = (3, 3, 10, True)" and w2: "walk ex_problem p 3 es2"
      by (auto simp: ex_problem_def table_problem_def ex_succs_def)
    from ex_walk_nonneg [OF w2] have "0 \<le> walk_cost es2" .
    with \<open>es = e # es1\<close> Cons e e' show ?thesis by (simp add: walk_cost_def)
  qed
qed

lemma ex_flags: "goal_flags ex_problem 0 ex_goal"
  by (auto simp: goal_flags_def ex_defs split: if_splits)

lemma ex_admissible: "admissible ex_problem 0 ex_goal ex_h"
  unfolding admissible_def
proof (intro allI impI, elim conjE)
  fix n :: "(nat, nat) node" and es
  assume w: "walk ex_problem 0 (fst n) es" and g: "ex_goal (dest (fst n) es)"
  show "ex_h (fst n) \<le> walk_cost es"
  proof (cases "fst n = 1")
    case True
    with ex_walk_from_1 [of 0 es] w g show ?thesis by (simp add: ex_h_def)
  next
    case False
    with ex_walk_nonneg [OF w] show ?thesis by (simp add: ex_h_def)
  qed
qed

lemma ex_h_nonnegative: "nonnegative ex_h"
  by (simp add: nonnegative_def ex_h_def)

text \<open>
  Claim C1 fails as stated. On the four-state table problem the estimate \<open>ex_h\<close> is
  non-negative and admissible (from state 1 the goal costs 11), but it drops by 11
  along the step from 1 to 2, which costs 1. \<^verbatim>\<open>aStarSearch\<close> expands state 2 first
  along the direct step of cost 4, later removes the cheaper node for state 2 and
  drops it because the key is visited, and returns cost 14; \<^verbatim>\<open>depthSearch\<close>
  returns cost 12.
\<close>

theorem aStarSearch_admissible_counterexample:
  "finite (reachable ex_problem 0) \<and> goal_flags ex_problem 0 ex_goal
   \<and> nonnegative ex_h \<and> admissible ex_problem 0 ex_goal ex_h
   \<and> aStarSearch ex_problem 0 ex_h
       = Some (Inr (([2, 3], Finite 14, 3), \<lparr>maxMemoryUse = 2, totalStates = 3\<rparr>))
   \<and> depthSearch ex_problem 0
       = Some (([1, 2, 3], Finite 12, 3), \<lparr>maxMemoryUse = 2, totalStates = 3\<rparr>)
   \<and> \<not> cost_le (Finite 14) (Finite 12)"
  using ex_finite ex_flags ex_h_nonnegative ex_admissible ex_astar ex_dfs by simp

text \<open>
  Claim C1 as amended. The searches drop a removed node whose key is visited, so the
  estimate has to be consistent as well. The amended claim is about problems whose
  step costs are integers, heuristics whose estimates are integers (the priorities are
  then exact sums), and state keys and actions that Python can order (two queue
  entries whose priorities tie are compared by their nodes); this is what the model of
  \<^verbatim>\<open>aStarSearch\<close> covers. On a finite reachable state space, with goal flags that tell
  whether a state is a goal, \<^verbatim>\<open>setState\<close> with the current state leaving the problem as
  it is, and a non-negative, admissible and consistent heuristic, \<^verbatim>\<open>aStarSearch\<close>
  returns a result whose cost is at most the cost that \<^verbatim>\<open>breadthSearch\<close>,
  \<^verbatim>\<open>depthSearch\<close>, \<^verbatim>\<open>depthLimitedSearch\<close> (with any limit) and \<^verbatim>\<open>iterativeDeepening\<close>
  (with any limit) return.
\<close>

theorem aStarSearch_optimal_consistent:
  fixes P :: "('p, 's::linorder, 'a::linorder) Problem"
  assumes fin: "finite (reachable P p)" and gf: "goal_flags P p G"
    and same: "setState P p (getState P p) = p"
    and nn: "nonnegative h" and adm: "admissible P p G h" and con: "consistent P p h"
  shows "\<exists>pa ca na ma. aStarSearch P p h = Some (Inr ((pa, ca, na), ma))
     \<and> (\<exists>r. breadthSearch P p = Some r \<and> cost_le ca (returned_cost r))
     \<and> (\<exists>r. depthSearch P p = Some r \<and> cost_le ca (returned_cost r))
     \<and> (\<forall>maxDepth reset m. \<exists>r. depthLimitedSearch P p maxDepth reset m = Some r
            \<and> cost_le ca (returned_cost r))
     \<and> (\<forall>maxDepth. \<exists>r p'. iterativeDeepening P p maxDepth = Some (r, p')
            \<and> cost_le ca (returned_cost r))"
proof -
  from aStarSearch_terminates [OF fin, of h] obtain ra where ra: "aStarSearch P p h = Some ra"
    by blast
  from aStarSearch_sound [OF ra] obtain pa ca na ma where
    a: "aStarSearch P p h = Some (Inr ((pa, ca, na), ma))" using ra by (metis prod_cases3)
  note le = astar_le_sound [OF gf nn adm con a]
  have b: "\<exists>r. breadthSearch P p = Some r \<and> cost_le ca (returned_cost r)"
  proof -
    from breadthSearch_terminates [OF fin] obtain r where r: "breadthSearch P p = Some r"
      by blast
    from le [OF breadthSearch_sound [OF r]] r show ?thesis by (auto simp: returned_cost_def)
  qed
  have d: "\<exists>r. depthSearch P p = Some r \<and> cost_le ca (returned_cost r)"
  proof -
    from depthSearch_terminates [OF fin] obtain r where r: "depthSearch P p = Some r" by blast
    from le [OF depthSearch_sound [OF r]] r show ?thesis by (auto simp: returned_cost_def)
  qed
  have l: "\<exists>r. depthLimitedSearch P p maxDepth reset m = Some r
            \<and> cost_le ca (returned_cost r)" for maxDepth reset m
  proof -
    from depthLimitedSearch_terminates [of P p maxDepth reset m] obtain r where
      r: "depthLimitedSearch P p maxDepth reset m = Some r" by blast
    from le [OF depthLimitedSearch_sound [OF r]] r show ?thesis
      by (auto simp: returned_cost_def)
  qed
  have i: "\<exists>r p'. iterativeDeepening P p maxDepth = Some (r, p')
            \<and> cost_le ca (returned_cost r)" for maxDepth
  proof -
    have "\<exists>r. iterativeDeepening P p maxDepth = Some r"
      unfolding iterativeDeepening_def Let_def by (rule id_loop_terminates)
    then obtain v m p' where r: "iterativeDeepening P p maxDepth = Some ((v, m), p')"
      by (metis surj_pair)
    from le [OF iterativeDeepening_sound [OF r same]] r show ?thesis
      by (auto simp: returned_cost_def)
  qed
  from a b d l i show ?thesis by blast
qed

lemma ex_h0_admissible: "admissible ex_problem 0 ex_goal ex_h0"
  unfolding admissible_def using ex_walk_nonneg by (auto simp: ex_h0_def)

lemma ex_h0_consistent: "consistent ex_problem 0 ex_h0"
  by (auto simp: consistent_def ex_defs split: if_splits)

lemma ex_h0_nonnegative: "nonnegative ex_h0"
  by (simp add: nonnegative_def ex_h0_def)

lemma ex_same: "setState ex_problem 0 (getState ex_problem 0) = 0"
  by (simp add: ex_defs)

lemma ex_astar0:
  "aStarSearch ex_problem 0 ex_h0
     = Some (Inr (([1, 2, 3], Finite 12, 3), \<lparr>maxMemoryUse = 2, totalStates = 3\<rparr>))"
  by (simp add: loop.simps astar_defs ex_defs)

lemma consistent_admissible:
  assumes con: "consistent P p h" and zero: "\<forall>s. G s \<longrightarrow> h s \<le> 0"
  shows "admissible P p G h"
  unfolding admissible_def
proof (intro allI impI, elim conjE)
  fix n es
  assume t: "trail P p n" and w: "walk P p (fst n) es" and g: "G (dest (fst n) es)"
  from consistent_walk [OF con t w] have "h (fst n) \<le> walk_cost es + h (dest (fst n) es)" .
  moreover from zero g have "h (dest (fst n) es) \<le> 0" by simp
  ultimately show "h (fst n) \<le> walk_cost es" by simp
qed

lemma ex_hc_consistent: "consistent ex_problem 0 ex_hc"
  by (auto simp: consistent_def ex_defs ex_hc_def split: if_splits)

lemma ex_hc_admissible: "admissible ex_problem 0 ex_goal ex_hc"
  by (rule consistent_admissible [OF ex_hc_consistent]) (simp add: ex_hc_def ex_goal_def)

lemma ex_hc_nonnegative: "nonnegative ex_hc"
  by (simp add: nonnegative_def ex_hc_def)

lemma ex_astar_hc:
  "aStarSearch ex_problem 0 ex_hc
     = Some (Inr (([1, 2, 3], Finite 12, 3), \<lparr>maxMemoryUse = 2, totalStates = 3\<rparr>))"
  by (simp add: loop.simps astar_defs ex_defs ex_hc_def)

lemma ex_bfs_cost: "\<exists>r. breadthSearch ex_problem 0 = Some r \<and> returned_cost r = Finite 14"
  by (simp add: loop.simps bfs_defs ex_defs returned_cost_def)

theorem aStarSearch_optimal_consistent_witness:
  "aStarSearch ex_problem 0 ex_hc
     = Some (Inr (([1, 2, 3], Finite 12, 3), \<lparr>maxMemoryUse = 2, totalStates = 3\<rparr>))
   \<and> ex_hc 0 = 12 \<and> ex_hc 1 = 11 \<and> ex_hc 2 = 10 \<and> ex_hc 3 = 0
   \<and> aStarSearch ex_problem 0 ex_h0
     = Some (Inr (([1, 2, 3], Finite 12, 3), \<lparr>maxMemoryUse = 2, totalStates = 3\<rparr>))
   \<and> (\<exists>r. breadthSearch ex_problem 0 = Some r \<and> cost_le (Finite 12) (returned_cost r))
   \<and> (\<exists>r. depthSearch ex_problem 0 = Some r \<and> cost_le (Finite 12) (returned_cost r))
   \<and> (\<exists>r. depthLimitedSearch ex_problem 0 5 True \<lparr>maxMemoryUse = 0, totalStates = 0\<rparr> = Some r
          \<and> cost_le (Finite 12) (returned_cost r))
   \<and> (\<exists>r p'. iterativeDeepening ex_problem 0 5 = Some (r, p')
          \<and> cost_le (Finite 12) (returned_cost r))"
  using aStarSearch_optimal_consistent [OF ex_finite ex_flags ex_same ex_hc_nonnegative
      ex_hc_admissible ex_hc_consistent]
    aStarSearch_optimal_consistent [OF ex_finite ex_flags ex_same ex_h0_nonnegative
      ex_h0_admissible ex_h0_consistent] ex_astar_hc ex_astar0
  by (auto simp: ex_hc_def)

section \<open>No solution found\<close>

lemma run_empty_result:
  assumes "run iter k st0 = Inr st" and "iter st = Inl r"
  shows "loop iter st0 = Some r"
proof -
  from assms(2) have "loop iter st = Some r" by (subst loop.simps) simp
  with loop_run_Inr [OF assms(1)] show ?thesis by simp
qed

lemma sound_no_goal:
  assumes "sound_outcome P p v" and "no_goal_node P p"
  shows "\<exists>n. v = ([], Infinity, n)"
proof -
  from assms have "fst v = [] \<and> fst (snd v) = Infinity"
    unfolding sound_outcome_def no_goal_node_def by fastforce
  then show ?thesis by (cases v) auto
qed

lemma id_over_fails:
  assumes idem: "setState P q state = q"
    and fails: "\<forall>d \<in> set ds. \<exists>c m'. depthLimitedSearch P q d False m0 = Some (([], c, e d), m')"
    and start: "setState P p state = q"
  shows "\<exists>m'. id_over P state ds p acc m
             = Some ((([], Infinity, acc + sum_list (map e ds)), m'), if ds = [] then p else q)
           \<and> totalStates m' = totalStates m + sum_list (map e ds)"
  using fails start
proof (induction ds arbitrary: p acc m)
  case Nil
  show ?case by simp
next
  case (Cons d ds)
  from Cons.prems(1) obtain c m1 where
    "depthLimitedSearch P q d False m0 = Some (([], c, e d), m1)" by auto
  from depthLimitedSearch_globals_irrelevant [OF this, of False m] obtain m2 where
    d: "depthLimitedSearch P q d False m = Some (([], c, e d), m2)" by blast
  note t = depthLimitedSearch_total [OF d]
  from Cons.prems(1) have
    "\<forall>d \<in> set ds. \<exists>c m'. depthLimitedSearch P q d False m0 = Some (([], c, e d), m')" by simp
  from Cons.IH [OF this idem, of "acc + e d" m2] obtain m' where
    "id_over P state ds q (acc + e d) m2
       = Some ((([], Infinity, acc + e d + sum_list (map e ds)), m'), if ds = [] then q else q)"
    "totalStates m' = totalStates m2 + sum_list (map e ds)" by blast
  with d t Cons.prems(2) show ?case by (simp add: add.assoc)
qed

text \<open>
  Claim C4. If after some iterations, none of which returned (so no goal node was
  removed), the fringe is empty, the search returns the empty path, the infinite
  cost and the expansion count reached; \<^verbatim>\<open>aStarSearch\<close> returns it as a value, not
  as an error. If the depth-limited searches with the limits 1, ..., maxDepth return
  the empty path with the expansion counts \<open>e 1\<close>, ..., \<open>e maxDepth\<close>,
  \<^verbatim>\<open>iterativeDeepening\<close> returns the empty path, the infinite cost and the sum of
  these counts, which is also what the global \<^verbatim>\<open>totalStates\<close> holds. (\<open>q\<close> is the
  problem after \<^verbatim>\<open>setState\<close> with the saved state; setting the same state again is
  taken to leave it as it is.) And when no node that can be built from the start node
  carries the goal flag, so that no goal node can ever be removed, the searches do
  return this result: \<^verbatim>\<open>depthLimitedSearch\<close> on every problem, the other three on a
  finite reachable state space.
\<close>

theorem no_solution_result:
  fixes P :: "('p, 's::linorder, 'a::linorder) Problem"
  shows "(run (bfs_iter P p) k1 (bfs_init P p) = Inr st1 \<and> fringe st1 = [] \<longrightarrow>
       breadthSearch P p = Some (([], Infinity, numExpanded st1), globals st1))
   \<and> (run (dfs_iter P p) k2 (bfs_init P p) = Inr st2 \<and> fringe st2 = [] \<longrightarrow>
       depthSearch P p = Some (([], Infinity, numExpanded st2), globals st2))
   \<and> (run (dls_iter P p maxDepth) k3 (dls_init P p reset m) = Inr st3 \<and> fringe st3 = [] \<longrightarrow>
       depthLimitedSearch P p maxDepth reset m
         = Some (([], Infinity, numExpanded st3), globals st3))
   \<and> (astar_init P p h = Inr st0 \<and> run (astar_iter P p h) k4 st0 = Inr st4
        \<and> isEmpty (fringe st4) \<longrightarrow>
       aStarSearch P p h = Some (Inr (([], Infinity, numExpanded st4), globals st4)))
   \<and> (setState P p (getState P p) = q \<and> setState P q (getState P p) = q
       \<and> (\<forall>d \<in> set [1..maxDepth].
             \<exists>c m'. depthLimitedSearch P q d False m0 = Some (([], c, e d), m')) \<longrightarrow>
       (\<exists>m'. iterativeDeepening P p maxDepth
                = Some ((([], Infinity, sum_list (map e [1..maxDepth])), m'),
                        if maxDepth < 1 then p else q)
           \<and> totalStates m' = sum_list (map e [1..maxDepth])))
   \<and> (finite (reachable P p) \<and> no_goal_node P p \<longrightarrow>
       (\<exists>n m'. breadthSearch P p = Some (([], Infinity, n), m'))
       \<and> (\<exists>n m'. depthSearch P p = Some (([], Infinity, n), m'))
       \<and> (\<exists>n m'. aStarSearch P p h = Some (Inr (([], Infinity, n), m'))))
   \<and> (no_goal_node P p \<longrightarrow>
       (\<exists>n m'. depthLimitedSearch P p maxDepth reset m = Some (([], Infinity, n), m')))"
proof (intro conjI impI)
  assume "run (bfs_iter P p) k1 (bfs_init P p) = Inr st1 \<and> fringe st1 = []"
  then show "breadthSearch P p = Some (([], Infinity, numExpanded st1), globals st1)"
    unfolding breadthSearch_def by (intro run_empty_result [of _ k1 _ st1]) (simp_all add: bfs_iter_def)
next
  assume "run (dfs_iter P p) k2 (bfs_init P p) = Inr st2 \<and> fringe st2 = []"
  then show "depthSearch P p = Some (([], Infinity, numExpanded st2), globals st2)"
    unfolding depthSearch_def by (intro run_empty_result [of _ k2 _ st2]) (simp_all add: dfs_iter_def)
next
  assume "run (dls_iter P p maxDepth) k3 (dls_init P p reset m) = Inr st3 \<and> fringe st3 = []"
  then show "depthLimitedSearch P p maxDepth reset m
         = Some (([], Infinity, numExpanded st3), globals st3)"
    unfolding depthLimitedSearch_def
    by (intro run_empty_result [of _ k3 _ st3]) (simp_all add: dls_iter_def)
next
  assume a: "astar_init P p h = Inr st0 \<and> run (astar_iter P p h) k4 st0 = Inr st4
        \<and> isEmpty (fringe st4)"
  then have "st0 = astar_start P p h" by (simp add: astar_init_start)
  with a show "aStarSearch P p h = Some (Inr (([], Infinity, numExpanded st4), globals st4))"
    unfolding aStarSearch_loop
    by (intro run_empty_result [of _ k4 _ st4]) (simp_all add: astar_iter_def)
next
  assume a: "setState P p (getState P p) = q \<and> setState P q (getState P p) = q
       \<and> (\<forall>d \<in> set [1..maxDepth].
             \<exists>c m'. depthLimitedSearch P q d False m0 = Some (([], c, e d), m'))"
  then have 1: "setState P q (getState P p) = q" and 2: "setState P p (getState P p) = q"
    and 3: "\<forall>d \<in> set [1..maxDepth].
             \<exists>c m'. depthLimitedSearch P q d False m0 = Some (([], c, e d), m')"
    by simp_all
  have em: "([1..maxDepth] = []) = (maxDepth < 1)" by auto
  from id_over_fails [OF 1 3 2, of 0 "\<lparr>maxMemoryUse = 0, totalStates = 0\<rparr>"]
  show "\<exists>m'. iterativeDeepening P p maxDepth
                = Some ((([], Infinity, sum_list (map e [1..maxDepth])), m'),
                        if maxDepth < 1 then p else q)
           \<and> totalStates m' = sum_list (map e [1..maxDepth])"
    by (simp add: iterativeDeepening_def Let_def id_loop_over em)
next
  assume a: "finite (reachable P p) \<and> no_goal_node P p"
  then have fin: "finite (reachable P p)" and ng: "no_goal_node P p" by simp_all
  from breadthSearch_terminates [OF fin] obtain r where r: "breadthSearch P p = Some r" by blast
  from sound_no_goal [OF breadthSearch_sound [OF r] ng] r
  show "\<exists>n m'. breadthSearch P p = Some (([], Infinity, n), m')" by (cases r) auto
next
  assume a: "finite (reachable P p) \<and> no_goal_node P p"
  then have fin: "finite (reachable P p)" and ng: "no_goal_node P p" by simp_all
  from depthSearch_terminates [OF fin] obtain r where r: "depthSearch P p = Some r" by blast
  from sound_no_goal [OF depthSearch_sound [OF r] ng] r
  show "\<exists>n m'. depthSearch P p = Some (([], Infinity, n), m')" by (cases r) auto
next
  assume a: "finite (reachable P p) \<and> no_goal_node P p"
  then have fin: "finite (reachable P p)" and ng: "no_goal_node P p" by simp_all
  from aStarSearch_terminates [OF fin, of h] obtain r where r: "aStarSearch P p h = Some r"
    by blast
  from aStarSearch_sound [OF r] obtain v m' where v: "r = Inr (v, m')" "sound_outcome P p v"
    by blast
  from sound_no_goal [OF v(2) ng] r v(1)
  show "\<exists>n m'. aStarSearch P p h = Some (Inr (([], Infinity, n), m'))" by auto
next
  assume ng: "no_goal_node P p"
  from depthLimitedSearch_terminates [of P p maxDepth reset m] obtain r where
    r: "depthLimitedSearch P p maxDepth reset m = Some r" by blast
  from sound_no_goal [OF depthLimitedSearch_sound [OF r] ng] r
  show "\<exists>n m'. depthLimitedSearch P p maxDepth reset m = Some (([], Infinity, n), m')"
    by (cases r) auto
qed

lemma ex_nogoal_bfs_run:
  "\<exists>st. run (bfs_iter ex_nogoal 0) 2 (bfs_init ex_nogoal 0) = Inr st \<and> fringe st = []
      \<and> numExpanded st = 2 \<and> globals st = \<lparr>maxMemoryUse = 1, totalStates = 2\<rparr>"
  by (simp add: numeral_2_eq_2 bfs_defs ex_defs)

lemma ex_nogoal_dfs_run:
  "\<exists>st. run (dfs_iter ex_nogoal 0) 2 (bfs_init ex_nogoal 0) = Inr st \<and> fringe st = []
      \<and> numExpanded st = 2 \<and> globals st = \<lparr>maxMemoryUse = 1, totalStates = 2\<rparr>"
  by (simp add: numeral_2_eq_2 dfs_defs ex_defs)

lemma ex_nogoal_dls_run:
  "\<exists>st. run (dls_iter ex_nogoal 0 2) 2
           (dls_init ex_nogoal 0 True \<lparr>maxMemoryUse = 0, totalStates = 0\<rparr>) = Inr st
      \<and> fringe st = [] \<and> numExpanded st = 2
      \<and> globals st = \<lparr>maxMemoryUse = 1, totalStates = 2\<rparr>"
  by (simp add: numeral_2_eq_2 dls_defs ex_defs)

lemma ex_nogoal_astar_run:
  "\<exists>st0 st. astar_init ex_nogoal 0 ex_h = Inr st0
      \<and> run (astar_iter ex_nogoal 0 ex_h) 2 st0 = Inr st
      \<and> isEmpty (fringe st) \<and> numExpanded st = 2
      \<and> globals st = \<lparr>maxMemoryUse = 1, totalStates = 2\<rparr>"
  by (simp add: numeral_2_eq_2 astar_defs ex_defs)

lemma ex_nogoal_dls:
  "\<forall>d \<in> set [1..2]. \<exists>c m'.
      depthLimitedSearch ex_nogoal 0 d False \<lparr>maxMemoryUse = 0, totalStates = 0\<rparr>
        = Some (([], c, if d = 1 then 1 else 2), m')"
  by (simp add: upto_rec1 loop.simps dls_defs ex_defs)

lemma ex_nogoal_trail: "trail ex_nogoal 0 n \<Longrightarrow> fst n \<le> 1 \<and> \<not> snd (snd (snd n))"
proof (induction rule: trail.induct)
  case start
  show ?case by (simp add: ex_defs)
next
  case (step n e)
  then show ?case by (cases n, cases e) (auto simp: ex_defs child_def split: if_splits)
qed

lemma ex_nogoal_finite: "finite (reachable ex_nogoal 0)"
proof (rule finite_subset)
  show "reachable ex_nogoal 0 \<subseteq> {..1}" using ex_nogoal_trail by (auto simp: reachable_def)
  show "finite {..1::nat}" by simp
qed

lemma ex_nogoal_no_goal: "no_goal_node ex_nogoal 0"
  using ex_nogoal_trail by (auto simp: no_goal_node_def)

theorem no_solution_result_witness:
  "breadthSearch ex_nogoal 0 = Some (([], Infinity, 2), \<lparr>maxMemoryUse = 1, totalStates = 2\<rparr>)
   \<and> depthSearch ex_nogoal 0 = Some (([], Infinity, 2), \<lparr>maxMemoryUse = 1, totalStates = 2\<rparr>)
   \<and> depthLimitedSearch ex_nogoal 0 2 True \<lparr>maxMemoryUse = 0, totalStates = 0\<rparr>
       = Some (([], Infinity, 2), \<lparr>maxMemoryUse = 1, totalStates = 2\<rparr>)
   \<and> aStarSearch ex_nogoal 0 ex_h
       = Some (Inr (([], Infinity, 2), \<lparr>maxMemoryUse = 1, totalStates = 2\<rparr>))
   \<and> (\<exists>m'. iterativeDeepening ex_nogoal 0 2 = Some ((([], Infinity, 3), m'), 0)
           \<and> totalStates m' = 3)"
proof -
  from ex_nogoal_bfs_run obtain st1 where
    1: "run (bfs_iter ex_nogoal 0) 2 (bfs_init ex_nogoal 0) = Inr st1 \<and> fringe st1 = []"
    and v1: "numExpanded st1 = 2" "globals st1 = \<lparr>maxMemoryUse = 1, totalStates = 2\<rparr>" by blast
  from ex_nogoal_dfs_run obtain st2 where
    2: "run (dfs_iter ex_nogoal 0) 2 (bfs_init ex_nogoal 0) = Inr st2 \<and> fringe st2 = []"
    and v2: "numExpanded st2 = 2" "globals st2 = \<lparr>maxMemoryUse = 1, totalStates = 2\<rparr>" by blast
  from ex_nogoal_dls_run obtain st3 where
    3: "run (dls_iter ex_nogoal 0 2) 2
           (dls_init ex_nogoal 0 True \<lparr>maxMemoryUse = 0, totalStates = 0\<rparr>) = Inr st3
        \<and> fringe st3 = []"
    and v3: "numExpanded st3 = 2" "globals st3 = \<lparr>maxMemoryUse = 1, totalStates = 2\<rparr>" by blast
  from ex_nogoal_astar_run obtain st0 st4 where
    4: "astar_init ex_nogoal 0 ex_h = Inr st0 \<and> run (astar_iter ex_nogoal 0 ex_h) 2 st0 = Inr st4
        \<and> isEmpty (fringe st4)"
    and v4: "numExpanded st4 = 2" "globals st4 = \<lparr>maxMemoryUse = 1, totalStates = 2\<rparr>" by blast
  have 5: "setState ex_nogoal 0 (getState ex_nogoal 0) = 0 \<and> setState ex_nogoal 0 (getState ex_nogoal 0) = 0
       \<and> (\<forall>d \<in> set [1..2].
             \<exists>c m'. depthLimitedSearch ex_nogoal 0 d False \<lparr>maxMemoryUse = 0, totalStates = 0\<rparr>
                = Some (([], c, if d = 1 then 1 else 2), m'))"
    using ex_nogoal_dls by (simp add: ex_defs)
  have 6: "sum_list (map (\<lambda>d. if d = 1 then 1 else 2) [1..2::int]) = (3::nat)"
    by (simp add: upto_rec1)
  note t = no_solution_result [of ex_nogoal 0 2 st1 2 st2 2 2 True
      "\<lparr>maxMemoryUse = 0, totalStates = 0\<rparr>" st3 ex_h st0 2 st4 0
      "\<lparr>maxMemoryUse = 0, totalStates = 0\<rparr>" "\<lambda>d. if d = 1 then 1 else 2"]
  from t 1 v1 have a: "breadthSearch ex_nogoal 0
      = Some (([], Infinity, 2), \<lparr>maxMemoryUse = 1, totalStates = 2\<rparr>)" by simp
  from t 2 v2 have b: "depthSearch ex_nogoal 0
      = Some (([], Infinity, 2), \<lparr>maxMemoryUse = 1, totalStates = 2\<rparr>)" by simp
  from t 3 v3 have c: "depthLimitedSearch ex_nogoal 0 2 True \<lparr>maxMemoryUse = 0, totalStates = 0\<rparr>
       = Some (([], Infinity, 2), \<lparr>maxMemoryUse = 1, totalStates = 2\<rparr>)" by simp
  from t 4 v4 have d: "aStarSearch ex_nogoal 0 ex_h
       = Some (Inr (([], Infinity, 2), \<lparr>maxMemoryUse = 1, totalStates = 2\<rparr>))" by simp
  from t 5 have "\<exists>m'. iterativeDeepening ex_nogoal 0 2
                = Some ((([], Infinity, sum_list (map (\<lambda>d. if d = 1 then 1 else 2) [1..2])), m'),
                        if (2::int) < 1 then 0 else 0)
           \<and> totalStates m' = sum_list (map (\<lambda>d. if d = 1 then 1 else 2) [1..2])"
    by blast
  then have e: "\<exists>m'. iterativeDeepening ex_nogoal 0 2 = Some ((([], Infinity, 3), m'), 0)
           \<and> totalStates m' = 3" unfolding 6 by simp
  from t ex_nogoal_finite ex_nogoal_no_goal
  have f: "\<exists>n m'. depthSearch ex_nogoal 0 = Some (([], Infinity, n), m')" by blast
  from a b c d e f show ?thesis by simp
qed

section \<open>Numbers as text\<close>

lemma is_digit_digit_char: "d < 10 \<Longrightarrow> is_digit (digit_char d)"
  by (simp add: is_digit_def digit_char_def)

lemma digit_value_digit_char: "d < 10 \<Longrightarrow> digit_value (digit_char d) = d"
  by (simp add: digit_value_def digit_char_def)

lemma str_nat_digits: "c \<in> set (str_nat n) \<Longrightarrow> is_digit c"
proof (induction n arbitrary: c rule: str_nat.induct)
  case (1 n)
  show ?case
  proof (cases "n < 10")
    case True
    with "1.prems" show ?thesis by (subst (asm) str_nat.simps) (simp add: is_digit_digit_char)
  next
    case False
    with "1.prems" have "c \<in> set (str_nat (n div 10)) \<or> c = digit_char (n mod 10)"
      by (subst (asm) str_nat.simps) auto
    with "1.IH" [OF False] show ?thesis by (auto simp: is_digit_digit_char)
  qed
qed

lemma str_nat_nonempty: "str_nat n \<noteq> []"
  by (subst str_nat.simps) simp

lemma str_nat_value: "foldl (\<lambda>a c. 10 * a + digit_value c) 0 (str_nat n) = n"
proof (induction n rule: str_nat.induct)
  case (1 n)
  show ?case
  proof (cases "n < 10")
    case True
    then show ?thesis by (subst str_nat.simps) (simp add: digit_value_digit_char)
  next
    case False
    with "1.IH" show ?thesis
      by (subst str_nat.simps) (simp add: digit_value_digit_char)
  qed
qed

lemma filter_digits: "(\<And>c. c \<in> set cs \<Longrightarrow> is_digit c) \<Longrightarrow> filter is_digit cs = cs"
  by (induction cs) auto

lemma digits_value_str_nat: "digits_value (str_nat n) = n"
  by (simp add: digits_value_def filter_digits str_nat_digits str_nat_value)

lemma digit_not_underscore: "is_digit c \<Longrightarrow> c \<noteq> CHR ''_''"
  by (auto simp: is_digit_def)

lemma no_double_underscore_digits:
  "(\<And>c. c \<in> set cs \<Longrightarrow> is_digit c) \<Longrightarrow> no_double_underscore cs"
proof (induction cs rule: no_double_underscore.induct)
  case (1 a b cs)
  then show ?case using digit_not_underscore [of a] by simp
qed simp_all

lemma valid_digits_str_nat: "valid_digits (str_nat n)"
  unfolding valid_digits_def
  using str_nat_nonempty [of n] str_nat_digits [of _ n]
  by (auto intro: no_double_underscore_digits)

lemma digit_not_space: "is_digit c \<Longrightarrow> \<not> is_space c"
  by (auto simp: is_digit_def is_space_def)

lemma minus_not_space: "\<not> is_space CHR ''-''"
  by (simp add: is_space_def)

lemma str_int_nonempty: "str_int i \<noteq> []"
  by (simp add: str_int_def str_nat_nonempty)

lemma str_int_no_space: "c \<in> set (str_int i) \<Longrightarrow> \<not> is_space c"
  using str_nat_digits digit_not_space minus_not_space
  by (auto simp: str_int_def split: if_splits)

lemma str_int_no_newline: "CHR 0x0A \<notin> set (str_int i)"
  using str_int_no_space [of "CHR 0x0A" i] by (auto simp: is_space_def)

lemma dropWhile_none: "xs \<noteq> [] \<Longrightarrow> \<not> P (hd xs) \<Longrightarrow> dropWhile P xs = xs"
  by (cases xs) auto

lemma strip_no_space:
  assumes "\<And>c. c \<in> set s \<Longrightarrow> \<not> is_space c"
  shows "strip s = s"
proof (cases "s = []")
  case True
  then show ?thesis by (simp add: strip_def)
next
  case False
  have 1: "dropWhile is_space s = s" using False assms by (intro dropWhile_none) auto
  have "rev s \<noteq> []" "\<not> is_space (hd (rev s))"
    using False assms by (auto simp: hd_rev)
  then have 2: "dropWhile is_space (rev s) = rev s" by (rule dropWhile_none)
  show ?thesis by (simp add: strip_def 1 2)
qed

lemma py_int_str_int: "py_int (str_int i) = Inr i"
proof (cases "i < 0")
  case True
  have "strip (str_int i) = CHR ''-'' # str_nat (nat (- i))"
    using strip_no_space [of "str_int i"] str_int_no_space [of _ i] True
    by (simp add: str_int_def)
  with True show ?thesis
    by (simp add: py_int_def valid_digits_str_nat digits_value_str_nat)
next
  case False
  have s: "strip (str_int i) = str_nat (nat i)"
    using strip_no_space [of "str_int i"] str_int_no_space [of _ i] False
    by (simp add: str_int_def)
  obtain c cs where c: "str_nat (nat i) = c # cs"
    using str_nat_nonempty [of "nat i"] by (cases "str_nat (nat i)") auto
  have d: "is_digit c" using str_nat_digits [of c "nat i"] c by simp
  then have "c \<noteq> CHR ''-''" "c \<noteq> CHR ''+''" by (auto simp: is_digit_def)
  with False s c valid_digits_str_nat [of "nat i"] digits_value_str_nat [of "nat i"]
  show ?thesis by (simp add: py_int_def)
qed

section \<open>Splitting the text of a board\<close>

lemma split_on_sep:
  "sep \<notin> set r \<Longrightarrow> split_on sep (r @ sep # rest) = r # split_on sep rest"
  by (induction r) auto

lemma split_on_lines:
  assumes "\<And>r. r \<in> set rs \<Longrightarrow> sep \<notin> set r"
  shows "split_on sep (concat (map (\<lambda>r. r @ [sep]) rs)) = rs @ [[]]"
  using assms
proof (induction rs)
  case Nil
  show ?case by simp
next
  case (Cons r rs)
  then have "sep \<notin> set r" by simp
  from split_on_sep [OF this, of "concat (map (\<lambda>r. r @ [sep]) rs)"] Cons show ?case by simp
qed

lemma split_ws_space: "is_space x \<Longrightarrow> split_ws (x # xs) = split_ws xs"
  by (cases xs) simp_all

lemma split_ws_word:
  assumes "w \<noteq> []" and "\<And>c. c \<in> set w \<Longrightarrow> \<not> is_space c"
    and "rest = [] \<or> is_space (hd rest)"
  shows "split_ws (w @ rest) = w # split_ws rest"
  using assms(1,2)
proof (induction w)
  case Nil
  then show ?case by simp
next
  case (Cons x w)
  then have nx: "\<not> is_space x" by simp
  show ?case
  proof (cases "w = []")
    case True
    show ?thesis
    proof (cases rest)
      case Nil
      with True nx show ?thesis by simp
    next
      case (Cons y ys)
      with assms(3) have "is_space y" by simp
      with True nx Cons show ?thesis by simp
    qed
  next
    case False
    then obtain y ys where w: "w = y # ys" by (cases w) auto
    from Cons.prems(2) w have ny: "\<not> is_space y" by simp
    from Cons.IH [OF False] Cons.prems(2) have "split_ws (w @ rest) = w # split_ws rest" by simp
    with w nx ny show ?thesis by simp
  qed
qed

lemma split_ws_tail:
  "split_ws (concat (map (\<lambda>u. CHR '' '' # str_int u) ts)) = map str_int ts"
proof (induction ts)
  case Nil
  show ?case by simp
next
  case (Cons t ts)
  have sp: "is_space CHR '' ''" by (simp add: is_space_def)
  let ?rest = "concat (map (\<lambda>u. CHR '' '' # str_int u) ts)"
  have r: "?rest = [] \<or> is_space (hd ?rest)" using sp by (cases ts) auto
  have "split_ws (CHR '' '' # str_int t @ ?rest) = split_ws (str_int t @ ?rest)"
    using sp by (rule split_ws_space)
  also have "\<dots> = str_int t # split_ws ?rest"
    using str_int_nonempty str_int_no_space r by (intro split_ws_word) auto
  finally show ?case using Cons.IH by simp
qed

lemma split_ws_row_text: "ts \<noteq> [] \<Longrightarrow> split_ws (row_text ts) = map str_int ts"
proof -
  assume "ts \<noteq> []"
  then obtain t us where ts: "ts = t # us" by (cases ts) auto
  have sp: "is_space CHR '' ''" by (simp add: is_space_def)
  let ?rest = "concat (map (\<lambda>u. CHR '' '' # str_int u) us)"
  have r: "?rest = [] \<or> is_space (hd ?rest)" using sp by (cases us) auto
  have "split_ws (str_int t @ ?rest) = str_int t # split_ws ?rest"
    using str_int_nonempty str_int_no_space r by (intro split_ws_word) auto
  then show ?thesis by (simp add: row_text_def ts split_ws_tail)
qed

lemma row_text_no_newline: "CHR 0x0A \<notin> set (row_text ts)"
  using str_int_no_newline by (auto simp: row_text_def)

lemma split_board_text: "butlast (split_on (CHR 0x0A) (board_text B)) = map row_text B"
proof -
  have "split_on (CHR 0x0A) (concat (map (\<lambda>r. r @ [CHR 0x0A]) (map row_text B)))
      = map row_text B @ [[]]"
    using row_text_no_newline by (intro split_on_lines) auto
  then show ?thesis by (simp add: board_text_def comp_def)
qed

section \<open>getState\<close>

lemma getState_row_text: "ts \<noteq> [] \<Longrightarrow> getState_row ts = Inr (row_text ts @ [CHR 0x0A])"
  by (cases ts) (simp_all add: row_text_def)

lemma getState_rows_text:
  "\<forall>row \<in> set B. row \<noteq> [] \<Longrightarrow> getState_rows B acc = Inr (acc @ board_text B)"
proof (induction B arbitrary: acc)
  case Nil
  show ?case by (simp add: board_text_def)
next
  case (Cons row B)
  then show ?case by (simp add: getState_row_text board_text_def)
qed

lemma valid_board_rows: "valid_board R C B \<Longrightarrow> row \<in> set B \<Longrightarrow> row \<noteq> []"
  by (auto simp: valid_board_def)

lemma sp_getState_valid: "sp_valid p \<Longrightarrow> sp_getState p = Inr (board_text (board p))"
  using getState_rows_text [of "board p" "[]"] valid_board_rows [of "numR p" "numC p" "board p"]
  by (auto simp: sp_getState_def sp_valid_def)

section \<open>setState on a string that reads as a board\<close>

lemma mis_Nil: "mis [] = 0"
  by (simp add: mis_def)

lemma mis_snoc: "mis (F @ [t]) = mis F + (if t \<noteq> int (length F) then 1 else 0)"
proof -
  have "(\<Sum>k<length F. if (F @ [t]) ! k \<noteq> int k then 1 else 0)
      = (\<Sum>k<length F. if F ! k \<noteq> int k then (1::int) else 0)"
    by (rule sum.cong) (simp_all add: nth_append)
  then show ?thesis by (simp add: mis_def)
qed

lemma seen_of_Nil: "seen_of N [] = replicate N False"
  by (simp add: seen_of_def map_replicate_const)

lemma length_seen_of: "length (seen_of N F) = N"
  by (simp add: seen_of_def)

lemma seen_of_nth: "k < N \<Longrightarrow> seen_of N F ! k = (int k \<in> set F)"
  by (simp add: seen_of_def)

lemma seen_of_update:
  assumes "0 \<le> t" and "nat t < N"
  shows "(seen_of N F)[nat t := True] = seen_of N (F @ [t])"
proof (rule nth_equalityI)
  show "length ((seen_of N F)[nat t := True]) = length (seen_of N (F @ [t]))"
    by (simp add: length_seen_of)
  fix k assume "k < length ((seen_of N F)[nat t := True])"
  then have k: "k < N" by (simp add: length_seen_of)
  show "(seen_of N F)[nat t := True] ! k = seen_of N (F @ [t]) ! k"
  proof (cases "k = nat t")
    case True
    with k assms show ?thesis by (simp add: length_seen_of seen_of_nth)
  next
    case False
    with assms have "int k \<noteq> t" by auto
    with False k show ?thesis by (simp add: seen_of_nth)
  qed
qed

lemma py_get_in_range: "0 \<le> i \<Longrightarrow> nat i < length xs \<Longrightarrow> py_get xs i = Inr (xs ! nat i)"
  by (simp add: py_get_def py_index_def Let_def)

lemma py_set_in_range: "0 \<le> i \<Longrightarrow> nat i < length xs \<Longrightarrow> py_set xs i v = Inr (xs[nat i := v])"
  by (simp add: py_set_def py_index_def Let_def)

lemma setState_tiles_reads:
  assumes "i = int (length Bd)" and "newBoard v = Bd @ [cur]" and "j = int (length cur)"
    and "seen v = seen_of N F" and "int N = numR p * numC p" and "place v = int (length F)"
    and "\<forall>t \<in> set ts. 0 \<le> t \<and> t < numR p * numC p" and "distinct (F @ ts)"
    and "map py_int toks = map Inr ts"
  shows "setState_tiles p i toks j v
    = Inr (v\<lparr>newBoard := Bd @ [cur @ ts], seen := seen_of N (F @ ts),
             newPos := scan_pos (blank p) i j ts (newPos v),
             misplaced := misplaced v + (mis (F @ ts) - mis F),
             place := int (length (F @ ts))\<rparr>)"
  using assms
proof (induction ts arbitrary: v F cur j toks)
  case Nil
  then have toks: "toks = []" by simp
  have "v = v\<lparr>newBoard := Bd @ [cur], seen := seen_of N F, newPos := newPos v,
             misplaced := misplaced v, place := int (length F)\<rparr>"
    by (rule setState_vars.equality) (use Nil in simp_all)
  then show ?case by (simp add: toks)
next
  case (Cons t ts)
  from Cons.prems(9) obtain tok toks' where toks: "toks = tok # toks'"
    and tok: "py_int tok = Inr t" and rest: "map py_int toks' = map Inr ts" by (cases toks) auto
  from Cons.prems have t: "0 \<le> t" "t < numR p * numC p" "nat t < N" "t \<notin> set F" by auto
  have g1: "py_get (seen v) t = Inr False"
    using t Cons.prems(4) by (simp add: py_get_in_range length_seen_of seen_of_nth)
  have g2: "py_get (newBoard v) i = Inr cur"
    using Cons.prems(1,2) by (simp add: py_get_in_range)
  have s1: "py_set (newBoard v) i (cur @ [t]) = Inr (Bd @ [cur @ [t]])"
    using Cons.prems(1,2) by (simp add: py_set_in_range)
  have s2: "py_set (seen v) t True = Inr (seen_of N (F @ [t]))"
    using t Cons.prems(4) by (simp add: py_set_in_range length_seen_of seen_of_update)
  define v1 where "v1 = v\<lparr>newBoard := Bd @ [cur @ [t]], seen := seen_of N (F @ [t]),
      newPos := (if t = blank p then Some (i, j) else newPos v),
      misplaced := (if t \<noteq> int (length F) then misplaced v + 1 else misplaced v),
      place := int (length F) + 1\<rparr>"
  have v1: "(let v = v\<lparr>newBoard := Bd @ [cur @ [t]], seen := seen_of N (F @ [t])\<rparr>;
                v = (if t = blank p then v\<lparr>newPos := Some (i, j)\<rparr> else v);
                v = (if t \<noteq> place v then v\<lparr>misplaced := misplaced v + 1\<rparr> else v);
                v = v\<lparr>place := place v + 1\<rparr>
            in v) = v1"
    unfolding Let_def v1_def by (rule setState_vars.equality) (simp_all add: Cons.prems(6))
  have step: "setState_tiles p i toks j v = setState_tiles p i toks' (j + 1) v1"
    using t by (simp add: toks tok g1 g2 s1 s2 v1 [unfolded Let_def] Let_def)
  have "setState_tiles p i toks' (j + 1) v1
    = Inr (v1\<lparr>newBoard := Bd @ [(cur @ [t]) @ ts], seen := seen_of N ((F @ [t]) @ ts),
             newPos := scan_pos (blank p) i (j + 1) ts (newPos v1),
             misplaced := misplaced v1 + (mis ((F @ [t]) @ ts) - mis (F @ [t])),
             place := int (length ((F @ [t]) @ ts))\<rparr>)"
    using Cons.prems(1-8) rest by (intro Cons.IH) (simp_all add: v1_def)
  also have "v1\<lparr>newBoard := Bd @ [(cur @ [t]) @ ts], seen := seen_of N ((F @ [t]) @ ts),
             newPos := scan_pos (blank p) i (j + 1) ts (newPos v1),
             misplaced := misplaced v1 + (mis ((F @ [t]) @ ts) - mis (F @ [t])),
             place := int (length ((F @ [t]) @ ts))\<rparr>
     = v\<lparr>newBoard := Bd @ [cur @ t # ts], seen := seen_of N (F @ t # ts),
             newPos := scan_pos (blank p) i j (t # ts) (newPos v),
             misplaced := misplaced v + (mis (F @ t # ts) - mis F),
             place := int (length (F @ t # ts))\<rparr>"
    by (rule setState_vars.equality) (simp_all add: v1_def mis_snoc)
  finally show ?case using step by simp
qed

lemma setState_rows_reads:
  assumes "i = int (length Bd)" and "newBoard v = Bd"
    and "seen v = seen_of N F" and "int N = numR p * numC p" and "place v = int (length F)"
    and "length Bd + length Rs \<le> length (board p)"
    and "\<forall>row \<in> set (board p). length row = C" and "\<forall>row \<in> set Rs. length row = C"
    and "0 < C"
    and "\<forall>t \<in> set (concat Rs). 0 \<le> t \<and> t < numR p * numC p" and "distinct (F @ concat Rs)"
    and "map (\<lambda>row. map py_int (split_ws row)) rows = map (map Inr) Rs"
  shows "setState_rows p rows i v
    = Inr (v\<lparr>newBoard := Bd @ Rs, seen := seen_of N (F @ concat Rs),
             newPos := scan_rows (blank p) i Rs (newPos v),
             misplaced := misplaced v + (mis (F @ concat Rs) - mis F),
             place := int (length (F @ concat Rs))\<rparr>)"
  using assms
proof (induction Rs arbitrary: v F Bd i rows)
  case Nil
  then have rows: "rows = []" by simp
  have "v = v\<lparr>newBoard := Bd, seen := seen_of N F, newPos := newPos v,
             misplaced := misplaced v, place := int (length F)\<rparr>"
    by (rule setState_vars.equality) (use Nil in simp_all)
  then show ?case by (simp add: rows)
next
  case (Cons row Rs)
  from Cons.prems(12) obtain rw rows' where rows: "rows = rw # rows'"
    and rw: "map py_int (split_ws rw) = map Inr row"
    and rest: "map (\<lambda>row. map py_int (split_ws row)) rows' = map (map Inr) Rs"
    by (cases rows) auto
  from rw have lrw: "length (split_ws rw) = length row" by (metis length_map)
  from Cons.prems have row: "length row = C" "row \<noteq> []" by auto
  from Cons.prems have inb: "length Bd < length (board p)" by simp
  then have "board p ! length Bd \<in> set (board p)" by simp
  with Cons.prems have old: "length (board p ! length Bd) = C" by blast
  have g: "py_get (board p) i = Inr (board p ! length Bd)"
    using inb Cons.prems(1) by (simp add: py_get_in_range)
  define v0 where "v0 = v\<lparr>newBoard := newBoard v @ [[]]\<rparr>"
  define v1 where "v1 = v0\<lparr>newBoard := Bd @ [[] @ row], seen := seen_of N (F @ row),
             newPos := scan_pos (blank p) i 0 row (newPos v0),
             misplaced := misplaced v0 + (mis (F @ row) - mis F),
             place := int (length (F @ row))\<rparr>"
  have tiles: "setState_tiles p i (split_ws rw) 0 v0 = Inr v1"
    unfolding v1_def using Cons.prems(1-11) rw
    by (intro setState_tiles_reads [where ts = row]) (auto simp: v0_def)
  have step: "setState_rows p rows i v = setState_rows p rows' (i + 1) v1"
    using row old lrw tiles [unfolded v0_def] by (simp add: rows Let_def g)
  have "setState_rows p rows' (i + 1) v1
    = Inr (v1\<lparr>newBoard := (Bd @ [row]) @ Rs, seen := seen_of N ((F @ row) @ concat Rs),
             newPos := scan_rows (blank p) (i + 1) Rs (newPos v1),
             misplaced := misplaced v1 + (mis ((F @ row) @ concat Rs) - mis (F @ row)),
             place := int (length ((F @ row) @ concat Rs))\<rparr>)"
    using Cons.prems(1-11) rest by (intro Cons.IH) (auto simp: v1_def v0_def)
  also have "v1\<lparr>newBoard := (Bd @ [row]) @ Rs, seen := seen_of N ((F @ row) @ concat Rs),
             newPos := scan_rows (blank p) (i + 1) Rs (newPos v1),
             misplaced := misplaced v1 + (mis ((F @ row) @ concat Rs) - mis (F @ row)),
             place := int (length ((F @ row) @ concat Rs))\<rparr>
     = v\<lparr>newBoard := Bd @ row # Rs, seen := seen_of N (F @ concat (row # Rs)),
             newPos := scan_rows (blank p) i (row # Rs) (newPos v),
             misplaced := misplaced v + (mis (F @ concat (row # Rs)) - mis F),
             place := int (length (F @ concat (row # Rs)))\<rparr>"
    by (rule setState_vars.equality) (simp_all add: v1_def v0_def)
  finally show ?case using step by simp
qed

lemma scan_pos_notin: "b \<notin> set ts \<Longrightarrow> scan_pos b i j ts acc = acc"
  by (induction ts arbitrary: j acc) auto

lemma scan_pos_in:
  "distinct ts \<Longrightarrow> c < length ts \<Longrightarrow> ts ! c = b \<Longrightarrow> scan_pos b i j ts acc = Some (i, j + int c)"
proof (induction ts arbitrary: j c acc)
  case Nil
  then show ?case by simp
next
  case (Cons t ts)
  show ?case
  proof (cases c)
    case 0
    with Cons.prems show ?thesis by (simp add: scan_pos_notin)
  next
    case (Suc c')
    with Cons.prems have "t \<noteq> b" by auto
    with Cons.IH [of c' "j + 1" acc] Cons.prems Suc show ?thesis by simp
  qed
qed

lemma scan_rows_notin: "b \<notin> set (concat Rs) \<Longrightarrow> scan_rows b i Rs acc = acc"
  by (induction Rs arbitrary: i acc) (auto simp: scan_pos_notin)

lemma scan_rows_in:
  "distinct (concat Rs) \<Longrightarrow> r < length Rs \<Longrightarrow> c < length (Rs ! r) \<Longrightarrow> Rs ! r ! c = b
     \<Longrightarrow> scan_rows b i Rs acc = Some (i + int r, int c)"
proof (induction Rs arbitrary: i r acc)
  case Nil
  then show ?case by simp
next
  case (Cons row Rs)
  show ?case
  proof (cases r)
    case 0
    with Cons.prems have "b \<in> set row" "distinct row" by auto
    with Cons.prems have "b \<notin> set (concat Rs)" by auto
    with Cons.prems 0 show ?thesis by (simp add: scan_rows_notin scan_pos_in)
  next
    case (Suc r')
    with Cons.prems have "b \<in> set (concat Rs)" by (auto intro!: bexI [of _ "Rs ! r'"])
    with Cons.prems have "b \<notin> set row" by auto
    with Cons.IH [of r' "i + 1" acc] Cons.prems Suc show ?thesis
      by (simp add: scan_pos_notin)
  qed
qed

lemma concat_replicate_replicate:
  "concat (replicate a (replicate b x)) = replicate (a * b) x"
  by (induction a) (simp_all add: replicate_add)

lemma sp_setState_reads:
  assumes p: "valid_board (numR p) (numC p) (board p)"
    and B: "valid_board (numR p) (numC p) B"
    and rc: "r < length B" "c < length (B ! r)" "B ! r ! c = blank p"
    and rd: "reads s B"
  shows "sp_setState p s
    = Inr (p\<lparr>pos := Some (int r, int c), numMisplaced := mis (concat B), board := B\<rparr>)"
proof -
  define N where "N = nat (numC p) * nat (numR p)"
  define C where "C = nat (numC p)"
  from p have dims: "1 \<le> numR p" "1 \<le> numC p" by (simp_all add: valid_board_def)
  then have N: "int N = numR p * numC p" by (simp add: N_def nat_mult_distrib mult.commute)
  define v where "v = \<lparr>seen = concat (replicate (nat (numC p)) (replicate (nat (numR p)) False)),
      misplaced = 0, newPos = None, place = 0, newBoard = []\<rparr>"
  have sv: "seen v = seen_of N []"
    by (simp add: v_def seen_of_Nil concat_replicate_replicate N_def)
  have "setState_rows p (butlast (split_on (CHR 0x0A) s)) 0 v
    = Inr (v\<lparr>newBoard := [] @ B, seen := seen_of N ([] @ concat B),
             newPos := scan_rows (blank p) 0 B (newPos v),
             misplaced := misplaced v + (mis ([] @ concat B) - mis []),
             place := int (length ([] @ concat B))\<rparr>)"
  proof (rule setState_rows_reads [where C = C])
    show "0 = int (length [])" "newBoard v = []" "place v = int (length [])"
      by (simp_all add: v_def)
    show "seen v = seen_of N []" by (rule sv)
    show "int N = numR p * numC p" by (rule N)
    show "length [] + length B \<le> length (board p)" using p B by (simp add: valid_board_def)
    show "\<forall>row \<in> set (board p). length row = C" using p by (auto simp: valid_board_def C_def)
    show "\<forall>row \<in> set B. length row = C" using B by (auto simp: valid_board_def C_def)
    show "0 < C" using dims by (simp add: C_def)
    show "\<forall>t \<in> set (concat B). 0 \<le> t \<and> t < numR p * numC p" using B by (simp add: valid_board_def)
    show "distinct ([] @ concat B)" using B by (simp add: valid_board_def)
    show "map (\<lambda>row. map py_int (split_ws row)) (butlast (split_on (CHR 0x0A) s)) = map (map Inr) B"
      using rd by (simp add: reads_def)
  qed
  moreover have "scan_rows (blank p) 0 B None = Some (int r, int c)"
    using scan_rows_in [of B r c "blank p" 0 None] B rc by (simp add: valid_board_def)
  moreover have "length (butlast (split_on (CHR 0x0A) s)) = length B"
    using rd unfolding reads_def by (metis length_map)
  then have "int (length (butlast (split_on (CHR 0x0A) s))) = numR p"
    using B by (simp add: valid_board_def)
  ultimately show ?thesis
    by (simp add: sp_setState_def Let_def v_def [symmetric] del: length_butlast)
      (simp add: v_def mis_Nil)
qed


lemma reads_board_text:
  assumes "valid_board R C B"
  shows "reads (board_text B) B"
proof -
  have "map py_int (split_ws (row_text row)) = map Inr row" if "row \<in> set B" for row
  proof -
    from valid_board_rows [OF assms that] have "split_ws (row_text row) = map str_int row"
      by (rule split_ws_row_text)
    then show ?thesis by (simp add: py_int_str_int comp_def)
  qed
  then show ?thesis by (simp add: reads_def split_board_text comp_def)
qed

lemma sp_setState_text:
  assumes p: "valid_board (numR p) (numC p) (board p)"
    and B: "valid_board (numR p) (numC p) B"
    and rc: "r < length B" "c < length (B ! r)" "B ! r ! c = blank p"
  shows "sp_setState p (board_text B)
    = Inr (p\<lparr>pos := Some (int r, int c), numMisplaced := mis (concat B), board := B\<rparr>)"
  by (rule sp_setState_reads [OF p B rc reads_board_text [OF B]])

lemma sp_setState_same:
  assumes "sp_valid p"
  shows "sp_setState p (board_text (board p)) = Inr p"
proof -
  from assms obtain r c where rc: "pos p = Some (int r, int c)" "r < length (board p)"
    "c < length (board p ! r)" "board p ! r ! c = blank p" by (auto simp: sp_valid_def)
  from assms have v: "valid_board (numR p) (numC p) (board p)" by (simp add: sp_valid_def)
  from sp_setState_text [OF v v rc(2,3,4)] rc(1) assms show ?thesis
    by (simp add: sp_valid_def)
qed

section \<open>Rows and the flat list of tiles\<close>

lemma concat_uniform_length:
  "\<forall>row \<in> set B. length row = C \<Longrightarrow> length (concat B) = length B * C"
  by (induction B) simp_all

lemma concat_uniform_nth:
  "\<forall>row \<in> set B. length row = C \<Longrightarrow> r < length B \<Longrightarrow> c < C
     \<Longrightarrow> concat B ! (r * C + c) = B ! r ! c"
proof (induction B arbitrary: r)
  case Nil
  then show ?case by simp
next
  case (Cons row B)
  show ?case
  proof (cases r)
    case 0
    with Cons.prems show ?thesis by (simp add: nth_append)
  next
    case (Suc r')
    with Cons.prems Cons.IH [of r'] show ?thesis by (simp add: nth_append)
  qed
qed

lemma concat_uniform_update:
  "\<forall>row \<in> set B. length row = C \<Longrightarrow> r < length B \<Longrightarrow> c < C
     \<Longrightarrow> concat (B[r := (B ! r)[c := x]]) = (concat B)[r * C + c := x]"
proof (induction B arbitrary: r)
  case Nil
  then show ?case by simp
next
  case (Cons row B)
  show ?case
  proof (cases r)
    case 0
    with Cons.prems show ?thesis by (simp add: list_update_append)
  next
    case (Suc r')
    with Cons.prems Cons.IH [of r'] show ?thesis by (simp add: list_update_append)
  qed
qed

lemma flat_index_less: "r < R \<Longrightarrow> c < C \<Longrightarrow> r * C + c < R * (C::nat)"
proof -
  assume "r < R" "c < C"
  then have "r * C + c < r * C + C" by simp
  also have "\<dots> = Suc r * C" by simp
  also have "\<dots> \<le> R * C" using \<open>r < R\<close> by (intro mult_le_mono1) simp
  finally show ?thesis .
qed

lemma flat_index_inj:
  assumes "c < C" "c' < C" "r * C + c = r' * C + (c'::nat)"
  shows "r = r' \<and> c = c'"
proof -
  have "(r * C + c) div C = r" "(r' * C + c') div C = r'" using assms(1,2) by simp_all
  with assms(3) have r: "r = r'" by simp
  with assms show ?thesis by simp
qed

lemma mis_update:
  assumes "k < length F"
  shows "mis (F[k := x])
    = mis F - (if F ! k \<noteq> int k then 1 else 0) + (if x \<noteq> int k then 1 else 0)"
proof -
  let ?f = "\<lambda>G j. if G ! j \<noteq> int j then (1::int) else 0"
  have fin: "finite {..<length F}" and mem: "k \<in> {..<length F}" using assms by simp_all
  have rest: "sum (?f (F[k := x])) ({..<length F} - {k}) = sum (?f F) ({..<length F} - {k})"
    by (rule sum.cong) simp_all
  have "mis (F[k := x]) = ?f (F[k := x]) k + sum (?f (F[k := x])) ({..<length F} - {k})"
    unfolding mis_def using sum.remove [OF fin mem, of "?f (F[k := x])"] by simp
  moreover have "mis F = ?f F k + sum (?f F) ({..<length F} - {k})"
    unfolding mis_def using sum.remove [OF fin mem, of "?f F"] by simp
  ultimately show ?thesis using rest assms by simp
qed

lemma home_position:
  assumes "0 \<le> c" "c < C"
  shows "((r, c) = (b div C, b mod C)) = (b = r * C + (c::int))"
proof
  assume "(r, c) = (b div C, b mod C)"
  then have "r = b div C" "c = b mod C" by simp_all
  then show "b = r * C + c" by simp
next
  assume b: "b = r * C + c"
  from assms have C: "C \<noteq> 0" by simp
  have "(r * C + c) div C = r + c div C" using C by (rule div_mult_self3)
  moreover have "c div C = 0" using assms by (rule div_pos_pos_trivial)
  moreover have "(r * C + c) mod C = c mod C" by (rule mod_mult_self3)
  moreover have "c mod C = c" using assms by (rule mod_pos_pos_trivial)
  ultimately show "(r, c) = (b div C, b mod C)" using b by simp
qed

lemma swap_distinct_set:
  assumes "i < length F" "j < length F" "distinct F"
  shows "distinct (F[i := F ! j, j := F ! i]) \<and> set (F[i := F ! j, j := F ! i]) = set F"
proof -
  have m: "mset (F[i := F ! j, j := F ! i]) = mset F" by (rule mset_swap [OF assms(2) assms(1)])
  from m have s: "set (F[i := F ! j, j := F ! i]) = set F" by (rule mset_eq_setD)
  from mset_eq_imp_distinct_iff [OF m] assms(3) have "distinct (F[i := F ! j, j := F ! i])"
    by blast
  with s show ?thesis by blast
qed


section \<open>move\<close>

lemma py_index_in_range: "k < length xs \<Longrightarrow> py_index xs (int k) = Inr k"
  by (simp add: py_index_def Let_def)

lemma py_get2_in_range:
  "r < length B \<Longrightarrow> c < length (B ! r) \<Longrightarrow> py_get2 B (int r) (int c) = Inr (B ! r ! c)"
  by (simp add: py_get2_def py_get_def py_index_in_range)

lemma py_set2_in_range:
  "r < length B \<Longrightarrow> c < length (B ! r)
     \<Longrightarrow> py_set2 B (int r) (int c) x = Inr (B[r := (B ! r)[c := x]])"
  by (simp add: py_set2_def py_set_def py_index_in_range)

lemma sp_move_valid:
  assumes v: "sp_valid p" and pos: "pos p = Some (int r, int c)"
    and dir: "dir \<in> set [(- 1, 0), (0, - 1), (0, 1), (1, 0)]"
    and new: "int r + fst dir = int r'" "int c + snd dir = int c'"
    and range: "int r' < numR p" "int c' < numC p"
  shows "\<exists>m b. sp_move p dir
             = Inr (1, p\<lparr>numMisplaced := m, board := b, pos := Some (int r', int c')\<rparr>)
           \<and> sp_valid (p\<lparr>numMisplaced := m, board := b, pos := Some (int r', int c')\<rparr>)"
proof -
  define B where "B = board p"
  define C where "C = nat (numC p)"
  define R where "R = nat (numR p)"
  from v have vb: "valid_board (numR p) (numC p) B" by (simp add: sp_valid_def B_def)
  then have dims: "1 \<le> numR p" "1 \<le> numC p" "length B = R" and uni: "\<forall>row \<in> set B. length row = C"
    and dist: "distinct (concat B)" and rng: "\<forall>t \<in> set (concat B). 0 \<le> t \<and> t < numR p * numC p"
    by (auto simp: valid_board_def C_def R_def)
  from dims have CR: "int C = numC p" "int R = numR p" by (simp_all add: C_def R_def)
  from v pos have rc: "r < length B" "c < length (B ! r)" "B ! r ! c = blank p"
    by (auto simp: sp_valid_def B_def)
  with uni have c: "c < C" by simp
  from range CR dims have r': "r' < length B" and c': "c' < C" by simp_all
  with uni have c'2: "c' < length (B ! r')" by simp
  define tile where "tile = B ! r' ! c'"
  define F where "F = concat B"
  define k1 where "k1 = r * C + c"
  define k2 where "k2 = r' * C + c'"
  have lenF: "length F = R * C" using concat_uniform_length [OF uni] dims by (simp add: F_def)
  have k: "k1 < length F" "k2 < length F"
    using flat_index_less [of r R c C] flat_index_less [of r' R c' C] rc(1) r' c c' dims
    by (simp_all add: k1_def k2_def lenF)
  have F1: "F ! k1 = blank p" using concat_uniform_nth [OF uni rc(1) c] rc(3) by (simp add: F_def k1_def)
  have F2: "F ! k2 = tile" using concat_uniform_nth [OF uni r' c'] by (simp add: F_def k2_def tile_def)
  from dir new have "(r, c) \<noteq> (r', c')" by auto
  with flat_index_inj [OF c c', of r r'] have kne: "k1 \<noteq> k2" by (auto simp: k1_def k2_def)
  have tb: "tile \<noteq> blank p"
  proof
    assume "tile = blank p"
    with F1 F2 have "F ! k1 = F ! k2" by simp
    with nth_eq_iff_index_eq [of F k1 k2] dist k have "k1 = k2" by (simp add: F_def)
    with kne show False by simp
  qed
  define B1 where "B1 = B[r := (B ! r)[c := tile]]"
  define B2 where "B2 = B1[r' := (B1 ! r')[c' := blank p]]"
  have uni1: "\<forall>row \<in> set B1. length row = C"
    using uni rc(1) by (auto simp: B1_def set_conv_nth nth_list_update)
  have uni2: "\<forall>row \<in> set B2. length row = C"
    using uni1 r' by (auto simp: B2_def B1_def set_conv_nth nth_list_update)
  have len1: "length B1 = length B" "length B2 = length B" by (simp_all add: B1_def B2_def)
  have c1: "concat B1 = F[k1 := tile]"
    using concat_uniform_update [OF uni rc(1) c] by (simp add: B1_def F_def k1_def)
  have c2: "concat B2 = F[k1 := tile, k2 := blank p]"
    using concat_uniform_update [OF uni1, of r' c' "blank p"] r' c' c1
    by (simp add: B2_def len1 k2_def)
  have c2': "concat B2 = F[k1 := F ! k2, k2 := F ! k1]" by (simp add: c2 F1 F2)
  from swap_distinct_set [OF k, of] dist have sw: "distinct (concat B2)" "set (concat B2) = set F"
    by (simp_all add: c2' F_def)
  have vb2: "valid_board (numR p) (numC p) B2"
    using vb uni2 sw rng by (auto simp: valid_board_def len1 F_def C_def)
  have set1: "py_set2 B (int r) (int c) tile = Inr B1"
    using rc by (simp add: py_set2_in_range B1_def)
  have "B1 ! r' \<in> set B1" using r' len1 by simp
  with uni1 c' have c'3: "c' < length (B1 ! r')" by simp
  have set2: "py_set2 B1 (int r') (int c') (blank p) = Inr B2"
    using r' c'3 by (simp add: py_set2_in_range B2_def len1)
  have get: "py_get2 B (int r') (int c') = Inr tile"
    using r' c'2 by (simp add: py_get2_in_range tile_def)
  define m where "m = numMisplaced p
      + (if blank p = int k1 then 1 else 0) - (if blank p = int k2 then 1 else 0)
      + (if tile = int k2 then 1 else 0) - (if tile = int k1 then 1 else 0)"
  have h1: "((int r, int c) = (blank p div numC p, blank p mod numC p)) = (blank p = int k1)"
    using home_position [of "int c" "numC p" "int r" "blank p"] c CR by (simp add: k1_def)
  have h2: "((int r', int c') = (blank p div numC p, blank p mod numC p)) = (blank p = int k2)"
    using home_position [of "int c'" "numC p" "int r'" "blank p"] c' CR by (simp add: k2_def)
  have t1: "(tile = int r' * numC p + int c') = (tile = int k2)" using CR by (simp add: k2_def)
  have t2: "(tile = int r * numC p + int c) = (tile = int k1)" using CR by (simp add: k1_def)
  define q where "q = p\<lparr>numMisplaced := m, board := B2, pos := Some (int r', int c')\<rparr>"
  have d: "(dir \<notin> set [(- 1, 0), (0, - 1), (0, 1), (1, 0)]) = False" using dir by simp
  have rg: "(int r' < 0 \<or> numR p \<le> int r' \<or> int c' < 0 \<or> numC p \<le> int c') = False"
    using range by simp
  have mv: "sp_move p dir = Inr (1, q)"
    unfolding sp_move_def d if_False pos option.case prod.case Let_def fst_conv snd_conv new rg
      B_def [symmetric] get sum.case h1 h2 t1 t2 set1 set2
    by (simp add: q_def m_def)
  have "mis (concat B2) = mis (F[k1 := tile])
      - (if F[k1 := tile] ! k2 \<noteq> int k2 then 1 else 0) + (if blank p \<noteq> int k2 then 1 else 0)"
    using mis_update [of k2 "F[k1 := tile]" "blank p"] k by (simp add: c2)
  also have "F[k1 := tile] ! k2 = tile" using kne F2 by simp
  also have "mis (F[k1 := tile])
      = mis F - (if blank p \<noteq> int k1 then 1 else 0) + (if tile \<noteq> int k1 then 1 else 0)"
    using mis_update [of k1 F tile] k F1 by simp
  finally have "mis (concat B2) = m" using v by (simp add: m_def sp_valid_def B_def F_def)
  then have "sp_valid q"
    using vb2 r' c'2 c'3 uni2 c' len1 by (simp add: sp_valid_def q_def B2_def)
  with mv show ?thesis unfolding q_def by blast
qed

section \<open>The strings setState accepts\<close>

lemma py_get_Inr: "py_get xs (int k) = Inr y \<Longrightarrow> k < length xs \<and> y = xs ! k"
  by (auto simp: py_get_def py_index_def Let_def split: if_splits)

lemma setState_tiles_accepts:
  assumes "setState_tiles p i toks j v = Inr v'"
    and "i = int (length Bd)" and "newBoard v = Bd @ [cur]"
    and "seen v = seen_of N F" and "int N = numR p * numC p"
  shows "\<exists>ts. map py_int toks = map Inr ts \<and> (\<forall>t \<in> set ts. 0 \<le> t \<and> t < numR p * numC p)
           \<and> distinct ts \<and> set ts \<inter> set F = {}"
  using assms
proof (induction toks arbitrary: v F cur j)
  case Nil
  show ?case by simp
next
  case (Cons tok toks)
  from Cons.prems(1) obtain t where tok: "py_int tok = Inr t"
    by (cases "py_int tok") simp_all
  from Cons.prems(1) tok have rg: "0 \<le> t" "t < numR p * numC p"
    by (auto split: if_splits)
  with Cons.prems(5) have tN: "nat t < N" by simp
  have g1: "py_get (seen v) t = Inr (t \<in> set F)"
    using rg tN Cons.prems(4) by (simp add: py_get_in_range length_seen_of seen_of_nth)
  from Cons.prems(1) tok rg g1 have nf: "t \<notin> set F" by (auto split: if_splits)
  have g2: "py_get (newBoard v) i = Inr cur"
    using Cons.prems(2,3) by (simp add: py_get_in_range)
  have s1: "py_set (newBoard v) i (cur @ [t]) = Inr (Bd @ [cur @ [t]])"
    using Cons.prems(2,3) by (simp add: py_set_in_range)
  have s2: "py_set (seen v) t True = Inr (seen_of N (F @ [t]))"
    using rg tN nf Cons.prems(4) by (simp add: py_set_in_range length_seen_of seen_of_update)
  define v1 where "v1 = (let v = v\<lparr>newBoard := Bd @ [cur @ [t]], seen := seen_of N (F @ [t])\<rparr>;
                v = (if t = blank p then v\<lparr>newPos := Some (i, j)\<rparr> else v);
                v = (if t \<noteq> place v then v\<lparr>misplaced := misplaced v + 1\<rparr> else v);
                v = v\<lparr>place := place v + 1\<rparr>
            in v)"
  have v1: "newBoard v1 = Bd @ [cur @ [t]]" "seen v1 = seen_of N (F @ [t])"
    by (simp_all add: v1_def Let_def)
  from Cons.prems(1) have "setState_tiles p i toks (j + 1) v1 = Inr v'"
    using rg nf by (simp add: tok g1 g2 s1 s2 v1_def Let_def)
  from Cons.IH [OF this Cons.prems(2) v1 Cons.prems(5)] obtain ts where
    ts: "map py_int toks = map Inr ts" "\<forall>t \<in> set ts. 0 \<le> t \<and> t < numR p * numC p"
      "distinct ts" "set ts \<inter> set (F @ [t]) = {}" by blast
  have "map py_int (tok # toks) = map Inr (t # ts) \<and> (\<forall>u \<in> set (t # ts). 0 \<le> u \<and> u < numR p * numC p)
           \<and> distinct (t # ts) \<and> set (t # ts) \<inter> set F = {}"
    using ts tok rg nf by auto
  then show ?case by (rule exI)
qed

lemma setState_rows_accepts:
  assumes "setState_rows p rows i v = Inr v'"
    and "i = int (length Bd)" and "newBoard v = Bd"
    and "seen v = seen_of N F" and "int N = numR p * numC p" and "place v = int (length F)"
    and "\<forall>row \<in> set (board p). length row = C" and "distinct F"
  shows "\<exists>Rs. map (\<lambda>row. map py_int (split_ws row)) rows = map (map Inr) Rs
           \<and> (\<forall>row \<in> set Rs. length row = C)
           \<and> (\<forall>t \<in> set (concat Rs). 0 \<le> t \<and> t < numR p * numC p)
           \<and> distinct (F @ concat Rs)"
  using assms
proof (induction rows arbitrary: v F Bd i)
  case Nil
  then show ?case by simp
next
  case (Cons rw rows)
  from Cons.prems(1) obtain old where old: "py_get (board p) i = Inr old"
    by (cases "py_get (board p) i") (simp_all add: Let_def)
  from py_get_Inr [OF old [unfolded Cons.prems(2)]] have "old \<in> set (board p)" by simp
  with Cons.prems(7) have lo: "length old = C" by simp
  from Cons.prems(1) old have len: "length (split_ws rw) = length old"
    by (auto simp: Let_def split: if_splits)
  define v0 where "v0 = v\<lparr>newBoard := newBoard v @ [[]]\<rparr>"
  from Cons.prems(1) old len obtain v1 where
    t1: "setState_tiles p i (split_ws rw) 0 v0 = Inr v1"
    and r1: "setState_rows p rows (i + 1) v1 = Inr v'"
    by (cases "setState_tiles p i (split_ws rw) 0 v0") (simp_all add: Let_def v0_def)
  have nb: "newBoard v0 = Bd @ [[]]" "seen v0 = seen_of N F" "place v0 = int (length F)"
    using Cons.prems by (simp_all add: v0_def)
  from setState_tiles_accepts [OF t1 Cons.prems(2) nb(1,2) Cons.prems(5)] obtain ts where
    ts: "map py_int (split_ws rw) = map Inr ts" "\<forall>t \<in> set ts. 0 \<le> t \<and> t < numR p * numC p"
      "distinct ts" "set ts \<inter> set F = {}" by blast
  from ts(3,4) Cons.prems(8) have d: "distinct (F @ ts)" by auto
  have "setState_tiles p i (split_ws rw) 0 v0
    = Inr (v0\<lparr>newBoard := Bd @ [[] @ ts], seen := seen_of N (F @ ts),
             newPos := scan_pos (blank p) i 0 ts (newPos v0),
             misplaced := misplaced v0 + (mis (F @ ts) - mis F),
             place := int (length (F @ ts))\<rparr>)"
    by (rule setState_tiles_reads [OF Cons.prems(2) nb(1) _ nb(2) Cons.prems(5) nb(3) ts(2) d ts(1)])
      simp
  with t1 have v1: "newBoard v1 = Bd @ [ts]" "seen v1 = seen_of N (F @ ts)"
    "place v1 = int (length (F @ ts))" by auto
  have i1: "i + 1 = int (length (Bd @ [ts]))" using Cons.prems(2) by simp
  from Cons.IH [OF r1 i1 v1(1,2) Cons.prems(5) v1(3) Cons.prems(7) d] obtain Rs where
    Rs: "map (\<lambda>row. map py_int (split_ws row)) rows = map (map Inr) Rs"
      "\<forall>row \<in> set Rs. length row = C"
      "\<forall>t \<in> set (concat Rs). 0 \<le> t \<and> t < numR p * numC p"
      "distinct ((F @ ts) @ concat Rs)" by blast
  from ts(1) have "length ts = length (split_ws rw)" by (metis length_map)
  with len lo have lt: "length ts = C" by simp
  have "map (\<lambda>row. map py_int (split_ws row)) (rw # rows) = map (map Inr) (ts # Rs)
           \<and> (\<forall>row \<in> set (ts # Rs). length row = C)
           \<and> (\<forall>t \<in> set (concat (ts # Rs)). 0 \<le> t \<and> t < numR p * numC p)
           \<and> distinct (F @ concat (ts # Rs))"
    using Rs ts lt by auto
  then show ?case by (rule exI)
qed

lemma sp_setState_accepts:
  assumes vp: "valid_board (numR p) (numC p) (board p)" and acc: "sp_setState p s = Inr q"
  shows "\<exists>B. reads s B \<and> valid_board (numR p) (numC p) B"
proof -
  define N where "N = nat (numC p) * nat (numR p)"
  define C where "C = nat (numC p)"
  from vp have dims: "1 \<le> numR p" "1 \<le> numC p" by (simp_all add: valid_board_def)
  then have N: "int N = numR p * numC p" by (simp add: N_def nat_mult_distrib mult.commute)
  define v where "v = \<lparr>seen = concat (replicate (nat (numC p)) (replicate (nat (numR p)) False)),
      misplaced = 0, newPos = None, place = 0, newBoard = []\<rparr>"
  define rows where "rows = butlast (split_on (CHR 0x0A) s)"
  have sv: "seen v = seen_of N []"
    by (simp add: v_def seen_of_Nil concat_replicate_replicate N_def)
  from acc have nr: "int (length rows) = numR p"
    by (auto simp: sp_setState_def Let_def rows_def split: if_splits simp del: length_butlast)
  with acc obtain v' where r: "setState_rows p rows 0 v = Inr v'"
    by (cases "setState_rows p rows 0 v")
      (simp_all add: sp_setState_def Let_def rows_def [symmetric] v_def [symmetric]
        del: length_butlast)
  have uni: "\<forall>row \<in> set (board p). length row = C" using vp by (auto simp: valid_board_def C_def)
  from setState_rows_accepts [OF r, of "[]" N "[]" C] sv N uni obtain Rs where
    Rs: "map (\<lambda>row. map py_int (split_ws row)) rows = map (map Inr) Rs"
      "\<forall>row \<in> set Rs. length row = C"
      "\<forall>t \<in> set (concat Rs). 0 \<le> t \<and> t < numR p * numC p"
      "distinct (concat Rs)" by (auto simp: v_def)
  from Rs(1) have "length rows = length Rs" by (metis length_map)
  with nr have "int (length Rs) = numR p" by simp
  with Rs dims have "valid_board (numR p) (numC p) Rs" by (auto simp: valid_board_def C_def)
  moreover have "reads s Rs" using Rs(1) by (simp add: reads_def rows_def)
  ultimately show ?thesis by blast
qed

section \<open>The blank is on every valid board\<close>

lemma valid_board_all_tiles:
  assumes vb: "valid_board R C B" and t: "0 \<le> t" "t < R * C"
  shows "\<exists>r c. r < length B \<and> c < length (B ! r) \<and> B ! r ! c = t"
proof -
  let ?F = "concat B"
  from vb have dims: "1 \<le> R" "1 \<le> C" "int (length B) = R"
    and uni: "\<forall>row \<in> set B. length row = nat C"
    and dist: "distinct ?F" and rng: "\<forall>x \<in> set ?F. 0 \<le> x \<and> x < R * C"
    by (auto simp: valid_board_def)
  have len: "length ?F = nat (R * C)"
    using concat_uniform_length [OF uni] dims by (simp add: nat_mult_distrib)
  have sub: "set ?F \<subseteq> {0..<R * C}" using rng by auto
  have "card (set ?F) = length ?F" using dist by (rule distinct_card)
  also have "\<dots> = card {0..<R * C}" using len by simp
  finally have "set ?F = {0..<R * C}" using sub by (intro card_subset_eq) simp_all
  with t have "t \<in> set ?F" by simp
  then obtain row where row: "row \<in> set B" "t \<in> set row" by auto
  then obtain r where r: "r < length B" "B ! r = row" by (auto simp: in_set_conv_nth)
  from row(2) obtain c where c: "c < length row" "row ! c = t" by (auto simp: in_set_conv_nth)
  from r c show ?thesis by blast
qed

section \<open>legalMoves and move\<close>

lemma sp_valid_pos:
  assumes "sp_valid p"
  obtains r c where "pos p = Some (int r, int c)" "int r < numR p" "int c < numC p"
    "r < length (board p)" "c < length (board p ! r)" "board p ! r ! c = blank p"
proof -
  from assms obtain r c where rc: "pos p = Some (int r, int c)" "r < length (board p)"
    "c < length (board p ! r)" "board p ! r ! c = blank p" by (auto simp: sp_valid_def)
  from assms have vb: "valid_board (numR p) (numC p) (board p)" by (simp add: sp_valid_def)
  then have "int (length (board p)) = numR p" "\<forall>row \<in> set (board p). int (length row) = numC p"
    by (simp_all add: valid_board_def)
  moreover from rc(2) have "board p ! r \<in> set (board p)" by simp
  ultimately have "int r < numR p" "int (length (board p ! r)) = numC p" using rc(2) by auto
  then have "int r < numR p" "int c < numC p" using rc(3) by simp_all
  with rc that show ?thesis by blast
qed

lemma sp_legalMoves_valid:
  assumes "sp_valid p"
  shows "\<exists>ms. sp_legalMoves p = Inr ms \<and> (\<forall>a \<in> set ms. legal p a)"
proof -
  from assms obtain r c where rc: "pos p = Some (int r, int c)" "int r < numR p" "int c < numC p"
    by (rule sp_valid_pos)
  then show ?thesis by (auto simp: sp_legalMoves_def legal_def)
qed

lemma sp_move_legal:
  assumes v: "sp_valid p" and l: "legal p a"
  shows "\<exists>m b x. sp_move p a = Inr (1, p\<lparr>numMisplaced := m, board := b, pos := x\<rparr>)
           \<and> sp_valid (p\<lparr>numMisplaced := m, board := b, pos := x\<rparr>)"
proof -
  from v obtain r c where rc: "pos p = Some (int r, int c)" by (rule sp_valid_pos)
  from l rc have dir: "a \<in> set [(- 1, 0), (0, - 1), (0, 1), (1, 0)]"
    and rg: "0 \<le> int r + fst a" "int r + fst a < numR p" "0 \<le> int c + snd a"
      "int c + snd a < numC p" by (simp_all add: legal_def)
  define r' where "r' = nat (int r + fst a)"
  define c' where "c' = nat (int c + snd a)"
  have new: "int r + fst a = int r'" "int c + snd a = int c'" using rg by (simp_all add: r'_def c'_def)
  from sp_move_valid [OF v rc dir new] rg new show ?thesis by auto
qed

section \<open>getSuccessors\<close>

lemma sp_setState_back:
  assumes v: "sp_valid q" and rd: "reads s (board q)"
    and vb: "valid_board (numR q) (numC q) b"
  shows "sp_setState (q\<lparr>numMisplaced := m, board := b, pos := x\<rparr>) s = Inr q"
proof -
  from v obtain r c where rc: "pos q = Some (int r, int c)" "r < length (board q)"
    "c < length (board q ! r)" "board q ! r ! c = blank q" by (rule sp_valid_pos)
  from v have vq: "valid_board (numR q) (numC q) (board q)" and nm: "numMisplaced q = mis (concat (board q))"
    by (simp_all add: sp_valid_def)
  let ?q = "q\<lparr>numMisplaced := m, board := b, pos := x\<rparr>"
  have "sp_setState ?q s
    = Inr (?q\<lparr>pos := Some (int r, int c), numMisplaced := mis (concat (board q)), board := board q\<rparr>)"
    by (rule sp_setState_reads) (use vb vq rc rd in simp_all)
  also have "?q\<lparr>pos := Some (int r, int c), numMisplaced := mis (concat (board q)), board := board q\<rparr> = q"
    using rc(1) nm by simp
  finally show ?thesis .
qed

lemma getSuccessors_moves_valid:
  assumes v: "sp_valid q" and rd: "reads s (board q)" and l: "\<forall>a \<in> set as. legal q a"
  shows "\<exists>new. getSuccessors_moves s as succ q = Inr (succ @ new, q)
           \<and> (\<forall>e \<in> set new. succ_of q e)"
  using l
proof (induction as arbitrary: succ)
  case Nil
  show ?case by simp
next
  case (Cons a as)
  from Cons.prems have la: "legal q a" by simp
  from sp_move_legal [OF v la] obtain m b x where
    mv: "sp_move q a = Inr (1, q\<lparr>numMisplaced := m, board := b, pos := x\<rparr>)"
    and v': "sp_valid (q\<lparr>numMisplaced := m, board := b, pos := x\<rparr>)" by blast
  let ?q' = "q\<lparr>numMisplaced := m, board := b, pos := x\<rparr>"
  from v' have vb: "valid_board (numR q) (numC q) b" by (simp add: sp_valid_def)
  have gs: "sp_getState ?q' = Inr (board_text (board ?q'))" by (rule sp_getState_valid [OF v'])
  have bk: "sp_setState ?q' s = Inr q" by (rule sp_setState_back [OF v rd vb])
  let ?e = "(board_text (board ?q'), a, 1, sp_isSolved ?q')"
  from Cons.prems have "\<forall>a \<in> set as. legal q a" by simp
  from Cons.IH [OF this, of "succ @ [?e]"] obtain new where
    new: "getSuccessors_moves s as (succ @ [?e]) q = Inr ((succ @ [?e]) @ new, q)"
      "\<forall>e \<in> set new. succ_of q e" by blast
  have "succ_of q ?e" unfolding succ_of_def using mv v' by (intro exI [of _ ?q']) simp
  with new have "getSuccessors_moves s (a # as) succ q = Inr (succ @ (?e # new), q)
           \<and> (\<forall>e \<in> set (?e # new). succ_of q e)"
    by (simp add: mv gs bk Let_def)
  then show ?case by blast
qed

lemma sp_getSuccessors_valid:
  assumes v: "sp_valid p" and vb: "valid_board (numR p) (numC p) B" and rd: "reads s B"
  shows "\<exists>succ q. sp_getSuccessors p s = Inr (succ, p) \<and> sp_setState p s = Inr q
           \<and> sp_valid q \<and> board q = B
           \<and> numR q = numR p \<and> numC q = numC p \<and> blank q = blank p
           \<and> (\<forall>e \<in> set succ. succ_of q e)"
proof -
  from v obtain r0 c0 where rc0: "board p ! r0 ! c0 = blank p" "r0 < length (board p)"
    "c0 < length (board p ! r0)" by (rule sp_valid_pos)
  from v have vp: "valid_board (numR p) (numC p) (board p)" by (simp add: sp_valid_def)
  from rc0 have "blank p \<in> set (board p ! r0)" "board p ! r0 \<in> set (board p)"
    using nth_mem [of c0 "board p ! r0"] by simp_all
  then have "blank p \<in> set (concat (board p))" by auto
  moreover from vp have "\<forall>t \<in> set (concat (board p)). 0 \<le> t \<and> t < numR p * numC p"
    unfolding valid_board_def by blast
  ultimately have bl: "0 \<le> blank p" "blank p < numR p * numC p" by blast+
  from valid_board_all_tiles [OF vb bl] obtain r c where
    rc: "r < length B" "c < length (B ! r)" "B ! r ! c = blank p" by blast
  define q where "q = p\<lparr>pos := Some (int r, int c), numMisplaced := mis (concat B), board := B\<rparr>"
  have set1: "sp_setState p s = Inr q" unfolding q_def by (rule sp_setState_reads [OF vp vb rc rd])
  have vq: "sp_valid q" using vb rc by (auto simp: sp_valid_def q_def)
  have rdq: "reads s (board q)" using rd by (simp add: q_def)
  from sp_legalMoves_valid [OF vq] obtain ms where
    ms: "sp_legalMoves q = Inr ms" "\<forall>a \<in> set ms. legal q a" by blast
  from getSuccessors_moves_valid [OF vq rdq ms(2), of "[]"] obtain new where
    new: "getSuccessors_moves s ms [] q = Inr (new, q)" "\<forall>e \<in> set new. succ_of q e" by auto
  have cur: "sp_getState p = Inr (board_text (board p))" by (rule sp_getState_valid [OF v])
  have rdp: "reads (board_text (board p)) (board p)" by (rule reads_board_text [OF vp])
  have "q = p\<lparr>numMisplaced := mis (concat B), board := B, pos := Some (int r, int c)\<rparr>"
    by (simp add: q_def)
  moreover have "sp_setState (p\<lparr>numMisplaced := mis (concat B), board := B, pos := Some (int r, int c)\<rparr>)
      (board_text (board p)) = Inr p"
    by (rule sp_setState_back [OF v rdp vb])
  ultimately have bk: "sp_setState q (board_text (board p)) = Inr p" by simp
  have "sp_getSuccessors p s = Inr (new, p)"
    by (simp add: sp_getSuccessors_def cur set1 ms(1) new(1) bk)
  with set1 vq new(2) show ?thesis by (intro exI [of _ new] exI [of _ q]) (simp add: q_def)
qed

lemma sp_setState_valid:
  assumes v: "sp_valid p" and acc: "sp_setState p s = Inr q"
  shows "sp_valid q \<and> numR q = numR p \<and> numC q = numC p \<and> blank q = blank p"
proof -
  from v have vp: "valid_board (numR p) (numC p) (board p)" by (simp add: sp_valid_def)
  from sp_setState_accepts [OF vp acc] obtain B where
    B: "reads s B" "valid_board (numR p) (numC p) B" by blast
  from sp_getSuccessors_valid [OF v B(2,1)] acc show ?thesis by auto
qed

lemma sp_move_valid_result:
  assumes v: "sp_valid p" and mv: "sp_move p a = Inr (c, q)"
  shows "legal p a \<and> c = 1 \<and> sp_valid q
           \<and> numR q = numR p \<and> numC q = numC p \<and> blank q = blank p"
proof -
  from v obtain r0 c0 where rc: "pos p = Some (int r0, int c0)" by (rule sp_valid_pos)
  from mv rc have l: "legal p a"
    by (auto simp: sp_move_def legal_def Let_def split: if_splits)
  from sp_move_legal [OF v l] mv show ?thesis using l by auto
qed

text \<open>
  Claim C10. A puzzle is taken in a state its methods leave it in (\<open>sp_valid\<close>: a board
  of the puzzle's size with every tile once, the recorded position of the blank and the
  recorded number of misplaced tiles as the board has them; \<^verbatim>\<open>setState\<close>, \<^verbatim>\<open>move\<close> and
  \<^verbatim>\<open>getSuccessors\<close> keep this, see \<open>sp_setState_valid\<close> and \<open>sp_move_valid_result\<close>), and
  a state string is valid for it when \<^verbatim>\<open>setState\<close> accepts it. Then \<^verbatim>\<open>getSuccessors\<close>
  returns, and the puzzle after the call is the puzzle before the call in every
  attribute, so \<^verbatim>\<open>getState\<close>, \<^verbatim>\<open>getPos\<close> and \<^verbatim>\<open>isSolved\<close> return what they returned
  before.
\<close>

theorem getSuccessors_restores:
  assumes "sp_valid p" and "sp_setState p s = Inr q0"
  shows "\<exists>succ q. sp_getSuccessors p s = Inr (succ, q)
           \<and> sp_getState q = sp_getState p \<and> sp_getPos q = sp_getPos p
           \<and> sp_isSolved q = sp_isSolved p \<and> q = p"
proof -
  from assms(1) have "valid_board (numR p) (numC p) (board p)" by (simp add: sp_valid_def)
  from sp_setState_accepts [OF this assms(2)] obtain B where
    "reads s B" "valid_board (numR p) (numC p) B" by blast
  from sp_getSuccessors_valid [OF assms(1) this(2,1)] show ?thesis by auto
qed

lemma p21_valid: "sp_valid p21"
  by (simp add: sp_valid_def valid_board_def p21_def mis_def)

lemma p21_setState:
  "sp_setState p21 s_goal
     = Inr \<lparr>numR = 2, numC = 2, board = [[0, 1], [2, 3]], blank = 0, pos = Some (0, 0),
            numMisplaced = 0\<rparr>"
  by code_simp

lemma p21_getSuccessors:
  "sp_getSuccessors p21 s_goal
     = Inr ([(''2 1'' @ [CHR 0x0A] @ ''0 3'' @ [CHR 0x0A], (1, 0), 1, False),
             (''1 0'' @ [CHR 0x0A] @ ''2 3'' @ [CHR 0x0A], (0, 1), 1, False)], p21)"
  by code_simp

lemma p21_observers:
  "sp_getState p21 = Inr (''1 0'' @ [CHR 0x0A] @ ''2 3'' @ [CHR 0x0A])
   \<and> sp_getPos p21 = Some (0, 1) \<and> \<not> sp_isSolved p21"
  by code_simp

theorem getSuccessors_restores_witness:
  "sp_setState p21 s_goal
     = Inr \<lparr>numR = 2, numC = 2, board = [[0, 1], [2, 3]], blank = 0, pos = Some (0, 0),
            numMisplaced = 0\<rparr>
   \<and> sp_getSuccessors p21 s_goal
     = Inr ([(''2 1'' @ [CHR 0x0A] @ ''0 3'' @ [CHR 0x0A], (1, 0), 1, False),
             (''1 0'' @ [CHR 0x0A] @ ''2 3'' @ [CHR 0x0A], (0, 1), 1, False)], p21)
   \<and> (\<exists>succ q. sp_getSuccessors p21 s_goal = Inr (succ, q)
         \<and> sp_getState q = Inr (''1 0'' @ [CHR 0x0A] @ ''2 3'' @ [CHR 0x0A])
         \<and> sp_getPos q = Some (0, 1) \<and> \<not> sp_isSolved q)"
  using getSuccessors_restores [OF p21_valid p21_setState] p21_setState p21_getSuccessors
    p21_observers
  by auto

section \<open>Replaying a returned path\<close>

lemma sp_moves_append: "sp_moves p as = Inr q \<Longrightarrow> sp_moves p (as @ bs) = sp_moves q bs"
proof (induction as arbitrary: p)
  case Nil
  then show ?case by simp
next
  case (Cons a as)
  then show ?case by (cases "sp_move p a") auto
qed

lemma sp_valid_unique:
  assumes v: "sp_valid q" and v': "sp_valid q'" and b: "board q' = board q"
    and d: "numR q' = numR q" "numC q' = numC q" "blank q' = blank q"
  shows "q' = q"
proof -
  from v obtain r c where rc: "pos q = Some (int r, int c)" "r < length (board q)"
    "c < length (board q ! r)" "board q ! r ! c = blank q" by (rule sp_valid_pos)
  from v' obtain r' c' where rc': "pos q' = Some (int r', int c')" "r' < length (board q')"
    "c' < length (board q' ! r')" "board q' ! r' ! c' = blank q'" by (rule sp_valid_pos)
  from v have dist: "distinct (concat (board q))" by (simp add: sp_valid_def valid_board_def)
  from scan_rows_in [OF dist rc(2,3,4), of 0 None] scan_rows_in [OF dist, of r' c' "blank q" 0 None] rc' b d
  have "pos q' = pos q" using rc(1) by simp
  moreover from v v' b have "numMisplaced q' = numMisplaced q" by (simp add: sp_valid_def)
  ultimately show ?thesis using b d by (intro SlidingPuzzle.equality) simp_all
qed

lemma sp_trail:
  assumes v: "sp_valid p" and t: "trail sp_problem p n"
  shows "\<exists>q. sp_moves p (fst (snd n)) = Inr q \<and> sp_valid q
           \<and> numR q = numR p \<and> numC q = numC p \<and> blank q = blank p
           \<and> fst n = board_text (board q) \<and> snd (snd (snd n)) = sp_isSolved q"
  using t
proof (induction rule: trail.induct)
  case start
  have "getState sp_problem p = board_text (board p)"
    by (simp add: sp_problem_def sp_getState_valid [OF v])
  then have "sp_moves p (fst (snd (getState sp_problem p, [], 0 :: int, isSolved sp_problem p))) = Inr p
      \<and> sp_valid p \<and> numR p = numR p \<and> numC p = numC p \<and> blank p = blank p
      \<and> fst (getState sp_problem p, [] :: (int \<times> int) list, 0 :: int, isSolved sp_problem p)
          = board_text (board p)
      \<and> snd (snd (snd (getState sp_problem p, [] :: (int \<times> int) list, 0 :: int, isSolved sp_problem p)))
          = sp_isSolved p"
    using v by (simp add: sp_problem_def)
  then show ?case by (rule exI)
next
  case (step n e)
  from step.IH obtain q where q: "sp_moves p (fst (snd n)) = Inr q" "sp_valid q"
    "numR q = numR p" "numC q = numC p" "blank q = blank p" "fst n = board_text (board q)"
    by blast
  from q(2,3,4) have vb: "valid_board (numR p) (numC p) (board q)" by (simp add: sp_valid_def)
  have rd: "reads (board_text (board q)) (board q)" by (rule reads_board_text [OF vb])
  from sp_getSuccessors_valid [OF v vb rd] obtain succ q1 where
    gs: "sp_getSuccessors p (board_text (board q)) = Inr (succ, p)"
    and q1: "sp_valid q1" "board q1 = board q" "numR q1 = numR p" "numC q1 = numC p"
      "blank q1 = blank p"
    and so: "\<forall>e \<in> set succ. succ_of q1 e" by blast
  from sp_valid_unique [OF q(2) q1(1,2)] q q1 have "q1 = q" by simp
  from step.hyps(2) gs q(6) have "e \<in> set succ" by (simp add: sp_problem_def)
  with so \<open>q1 = q\<close> have "succ_of q e" by simp
  then obtain q' where q': "sp_move q (fst (snd e)) = Inr (1, q')" "sp_valid q'"
    "numR q' = numR q" "numC q' = numC q" "blank q' = blank q"
    "e = (board_text (board q'), fst (snd e), 1, sp_isSolved q')" unfolding succ_of_def by blast
  obtain n0 n1 n2 n3 where n: "n = (n0, n1, n2, n3)" by (cases n)
  have ch: "child n e = (board_text (board q'), n1 @ [fst (snd e)], n2 + 1, sp_isSolved q')"
    by (subst q'(6)) (simp add: child_def n)
  have "sp_moves p (n1 @ [fst (snd e)]) = sp_moves q [fst (snd e)]"
    using sp_moves_append [of p n1 q] q(1) by (simp add: n)
  also have "\<dots> = Inr q'" by (simp add: q'(1))
  finally have "sp_moves p (fst (snd (child n e))) = Inr q' \<and> sp_valid q'
           \<and> numR q' = numR p \<and> numC q' = numC p \<and> blank q' = blank p
           \<and> fst (child n e) = board_text (board q')
           \<and> snd (snd (snd (child n e))) = sp_isSolved q'"
    using q' q by (simp add: ch)
  then show ?case by (rule exI)
qed

lemma sp_sound_replay:
  assumes v: "sp_valid p" and s: "sound_outcome sp_problem p (path, c, n)" and ne: "path \<noteq> []"
  shows "\<exists>q. sp_moves p path = Inr q \<and> sp_isSolved q"
proof -
  from s ne obtain s0 s2 where "trail sp_problem p (s0, path, s2, True)"
    by (auto simp: sound_outcome_def)
  from sp_trail [OF v this] show ?thesis by auto
qed

lemma sp_same: "sp_valid p \<Longrightarrow> setState sp_problem p (getState sp_problem p) = p"
  by (simp add: sp_problem_def sp_getState_valid sp_setState_same)

lemma id_over_same_object:
  assumes "id_over P state ds p acc m = Some (r, p')" and "setState P p state = p"
  shows "p' = p"
  using assms
proof (induction ds arbitrary: acc m)
  case Nil
  then show ?case by simp
next
  case (Cons d ds)
  from Cons.prems(1) obtain path c e m1 where
    d: "depthLimitedSearch P p d False m = Some ((path, c, e), m1)"
    by (auto simp: Cons.prems(2) split: option.splits)
  show ?case
  proof (cases "path = []")
    case True
    with Cons.prems d have "id_over P state ds p (acc + e) m1 = Some (r, p')" by simp
    from Cons.IH [OF this Cons.prems(2)] show ?thesis .
  next
    case False
    with Cons.prems d show ?thesis by auto
  qed
qed

text \<open>
  Claim C8. The puzzle is taken in a state its methods leave it in, and the searches run
  on it through \<open>sp_problem\<close>. Every node a search can build holds the text of the
  board reached by making the moves of its path, in order, on the start puzzle, and
  its goal flag says whether the puzzle is solved then; on the state of such a node
  \<^verbatim>\<open>getSuccessors\<close> returns and hands the puzzle back as it was (last part of the
  statement). So when any of the five searches returns a path that is not empty, making
  its moves in order with \<^verbatim>\<open>move\<close> on the start puzzle raises no error and ends in a
  puzzle for which \<^verbatim>\<open>isSolved\<close> holds; \<^verbatim>\<open>iterativeDeepening\<close> leaves the puzzle as it
  was.
\<close>

theorem replay_solves:
  assumes v: "sp_valid p"
  shows "(\<forall>path c n m. breadthSearch sp_problem p = Some ((path, c, n), m) \<and> path \<noteq> [] \<longrightarrow>
            (\<exists>q. sp_moves p path = Inr q \<and> sp_isSolved q))
       \<and> (\<forall>path c n m. depthSearch sp_problem p = Some ((path, c, n), m) \<and> path \<noteq> [] \<longrightarrow>
            (\<exists>q. sp_moves p path = Inr q \<and> sp_isSolved q))
       \<and> (\<forall>path c n m. depthLimitedSearch sp_problem p maxDepth reset m0 = Some ((path, c, n), m)
              \<and> path \<noteq> [] \<longrightarrow>
            (\<exists>q. sp_moves p path = Inr q \<and> sp_isSolved q))
       \<and> (\<forall>path c n m p'. iterativeDeepening sp_problem p maxDepth = Some (((path, c, n), m), p')
              \<and> path \<noteq> [] \<longrightarrow>
            p' = p \<and> (\<exists>q. sp_moves p path = Inr q \<and> sp_isSolved q))
       \<and> (\<forall>path c n m. aStarSearch sp_problem p h = Some (Inr ((path, c, n), m)) \<and> path \<noteq> [] \<longrightarrow>
            (\<exists>q. sp_moves p path = Inr q \<and> sp_isSolved q))
       \<and> (\<forall>nd. trail sp_problem p nd \<longrightarrow>
            (\<exists>succ. sp_getSuccessors p (fst nd) = Inr (succ, p)))"
proof (intro conjI allI impI)
  fix path c n m
  assume "breadthSearch sp_problem p = Some ((path, c, n), m) \<and> path \<noteq> []"
  then have r: "breadthSearch sp_problem p = Some ((path, c, n), m)" and ne: "path \<noteq> []"
    by simp_all
  from breadthSearch_sound [OF r] have "sound_outcome sp_problem p (path, c, n)" by simp
  from sp_sound_replay [OF v this ne] show "\<exists>q. sp_moves p path = Inr q \<and> sp_isSolved q" .
next
  fix path c n m
  assume "depthSearch sp_problem p = Some ((path, c, n), m) \<and> path \<noteq> []"
  then have r: "depthSearch sp_problem p = Some ((path, c, n), m)" and ne: "path \<noteq> []"
    by simp_all
  from depthSearch_sound [OF r] have "sound_outcome sp_problem p (path, c, n)" by simp
  from sp_sound_replay [OF v this ne] show "\<exists>q. sp_moves p path = Inr q \<and> sp_isSolved q" .
next
  fix path c n m
  assume "depthLimitedSearch sp_problem p maxDepth reset m0 = Some ((path, c, n), m) \<and> path \<noteq> []"
  then have r: "depthLimitedSearch sp_problem p maxDepth reset m0 = Some ((path, c, n), m)"
    and ne: "path \<noteq> []" by simp_all
  from depthLimitedSearch_sound [OF r] have "sound_outcome sp_problem p (path, c, n)" by simp
  from sp_sound_replay [OF v this ne] show "\<exists>q. sp_moves p path = Inr q \<and> sp_isSolved q" .
next
  fix path c n m p'
  assume a: "iterativeDeepening sp_problem p maxDepth = Some (((path, c, n), m), p') \<and> path \<noteq> []"
  then have r: "iterativeDeepening sp_problem p maxDepth = Some (((path, c, n), m), p')"
    and ne: "path \<noteq> []" by simp_all
  from iterativeDeepening_sound [OF r sp_same [OF v]]
  have "sound_outcome sp_problem p (path, c, n)" .
  from sp_sound_replay [OF v this ne] show "\<exists>q. sp_moves p path = Inr q \<and> sp_isSolved q" .
next
  fix path c n m p'
  assume a: "iterativeDeepening sp_problem p maxDepth = Some (((path, c, n), m), p') \<and> path \<noteq> []"
  then have "id_over sp_problem (getState sp_problem p) [1..maxDepth] p 0
      \<lparr>maxMemoryUse = 0, totalStates = 0\<rparr> = Some (((path, c, n), m), p')"
    by (simp add: iterativeDeepening_def Let_def id_loop_over)
  from id_over_same_object [OF this sp_same [OF v]] show "p' = p" .
next
  fix path c n m
  assume "aStarSearch sp_problem p h = Some (Inr ((path, c, n), m)) \<and> path \<noteq> []"
  then have r: "aStarSearch sp_problem p h = Some (Inr ((path, c, n), m))" and ne: "path \<noteq> []"
    by simp_all
  from aStarSearch_sound [OF r] have "sound_outcome sp_problem p (path, c, n)" by simp
  from sp_sound_replay [OF v this ne] show "\<exists>q. sp_moves p path = Inr q \<and> sp_isSolved q" .
next
  fix nd assume t: "trail sp_problem p nd"
  from sp_trail [OF v t] obtain q where q: "sp_valid q" "numR q = numR p" "numC q = numC p"
    "fst nd = board_text (board q)" by blast
  from q(1,2,3) have vb: "valid_board (numR p) (numC p) (board q)" by (simp add: sp_valid_def)
  have rd: "reads (board_text (board q)) (board q)" by (rule reads_board_text [OF vb])
  from sp_getSuccessors_valid [OF v vb rd] q(4)
  show "\<exists>succ. sp_getSuccessors p (fst nd) = Inr (succ, p)" by auto
qed

lemma p21_results:
  "breadthSearch sp_problem p21
     = Some (([(0, - 1)], Finite 1, 2), \<lparr>maxMemoryUse = 2, totalStates = 2\<rparr>)"
  "depthSearch sp_problem p21
     = Some (([(0, - 1)], Finite 1, 1), \<lparr>maxMemoryUse = 2, totalStates = 1\<rparr>)"
  "depthLimitedSearch sp_problem p21 1 True \<lparr>maxMemoryUse = 0, totalStates = 0\<rparr>
     = Some (([(0, - 1)], Finite 1, 1), \<lparr>maxMemoryUse = 2, totalStates = 1\<rparr>)"
  "iterativeDeepening sp_problem p21 1
     = Some ((([(0, - 1)], Finite 1, 1), \<lparr>maxMemoryUse = 2, totalStates = 1\<rparr>), p21)"
  "aStarSearch sp_problem p21 (\<lambda>s. 0)
     = Some (Inr (([(0, - 1)], Finite 1, 1), \<lparr>maxMemoryUse = 2, totalStates = 1\<rparr>))"
  by code_simp+

lemma p21_replay:
  "sp_moves p21 [(0, - 1)]
     = Inr \<lparr>numR = 2, numC = 2, board = [[0, 1], [2, 3]], blank = 0, pos = Some (0, 0),
            numMisplaced = 0\<rparr>"
  by code_simp

theorem replay_solves_witness:
  "breadthSearch sp_problem p21
     = Some (([(0, - 1)], Finite 1, 2), \<lparr>maxMemoryUse = 2, totalStates = 2\<rparr>)
   \<and> depthSearch sp_problem p21
     = Some (([(0, - 1)], Finite 1, 1), \<lparr>maxMemoryUse = 2, totalStates = 1\<rparr>)
   \<and> depthLimitedSearch sp_problem p21 1 True \<lparr>maxMemoryUse = 0, totalStates = 0\<rparr>
     = Some (([(0, - 1)], Finite 1, 1), \<lparr>maxMemoryUse = 2, totalStates = 1\<rparr>)
   \<and> iterativeDeepening sp_problem p21 1
     = Some ((([(0, - 1)], Finite 1, 1), \<lparr>maxMemoryUse = 2, totalStates = 1\<rparr>), p21)
   \<and> aStarSearch sp_problem p21 (\<lambda>s. 0)
     = Some (Inr (([(0, - 1)], Finite 1, 1), \<lparr>maxMemoryUse = 2, totalStates = 1\<rparr>))
   \<and> sp_moves p21 [(0, - 1)]
     = Inr \<lparr>numR = 2, numC = 2, board = [[0, 1], [2, 3]], blank = 0, pos = Some (0, 0),
            numMisplaced = 0\<rparr>
   \<and> (\<exists>q. sp_moves p21 [(0, - 1)] = Inr q \<and> sp_isSolved q)"
proof -
  note t = replay_solves [OF p21_valid, of 1 True "\<lparr>maxMemoryUse = 0, totalStates = 0\<rparr>" "\<lambda>s. 0"]
  from t p21_results(1) have "\<exists>q. sp_moves p21 [(0, - 1)] = Inr q \<and> sp_isSolved q" by simp
  with p21_results p21_replay show ?thesis by simp
qed

(*PROOFS-END*)

end
